(* ===== verification/Prelude.thy ===== *)
theory Prelude
  imports Main "HOL-Library.Word"
begin

text \<open>
  Shared vocabulary of the development: the machine integers of the Rust sources, the slice
  operations on byte buffers, and the little-endian byte codecs behind
  \<^verbatim>\<open>to_le_bytes\<close> and \<^verbatim>\<open>from_le_bytes\<close>.

  \<^item> \<open>usize\<close> quantities (lengths, positions, addresses) are \<^typ>\<open>nat\<close>; the fields that the
    sources declare at a fixed width are words of that width.
  \<^item> A Rust panic (failed \<^verbatim>\<open>assert!\<close>, index out of range) is the value \<open>Inl\<close> of a sum.
  \<^item> The locale \<open>fixed_codec\<close> is the contract of a fixed-width byte codec. It is interpreted
    here for the three integer widths and in theory \<open>Record_Wire\<close> for the event record.
\<close>

section \<open>Machine integers\<close>

type_synonym u8 = "8 word"
type_synonym u16 = "16 word"
type_synonym u32 = "32 word"
type_synonym u64 = "64 word"
type_synonym bytes = "u8 list"
type_synonym addr = nat

text \<open>A Rust panic, with the message the source gives it.\<close>

datatype panic = Panic string

named_theorems codec_simps \<open>lengths and round trips of the byte codecs\<close>
named_theorems mem_simps \<open>reads over writes of the byte memory\<close>
named_theorems const_defs \<open>the constants of the program\<close>

text \<open>\<^verbatim>\<open>u64::saturating_sub\<close>.\<close>

definition saturating_sub :: "u64 \<Rightarrow> u64 \<Rightarrow> u64" where
  "saturating_sub a b = (if a < b then 0 else a - b)"

lemma unat_saturating_sub: "unat (saturating_sub a b) = unat a - unat b"
  by (simp add: saturating_sub_def word_less_nat_alt unat_sub word_le_nat_alt)

lemma saturating_sub_gt:
  "t < saturating_sub a b \<longleftrightarrow> unat t + unat b < unat a"
  by (simp add: word_less_nat_alt unat_saturating_sub less_diff_conv)

section \<open>Slices of buffers\<close>

text \<open>
  \<open>slice a b xs\<close> is \<^verbatim>\<open>xs[a..b]\<close> for a range inside the buffer, \<open>blit xs a ys\<close> is
  \<^verbatim>\<open>xs[a..a + ys.len()].copy_from_slice(ys)\<close>, again for a range inside the buffer.
\<close>

definition slice :: "nat \<Rightarrow> nat \<Rightarrow> 'a list \<Rightarrow> 'a list" where
  "slice a b xs = take (b - a) (drop a xs)"

definition blit :: "'a list \<Rightarrow> nat \<Rightarrow> 'a list \<Rightarrow> 'a list" where
  "blit xs a ys = take a xs @ ys @ drop (a + length ys) xs"

lemma length_slice [simp]: "length (slice a b xs) = min (b - a) (length xs - a)"
  by (simp add: slice_def)

lemma length_blit [simp]:
  "a + length ys \<le> length xs \<Longrightarrow> length (blit xs a ys) = length xs"
  by (simp add: blit_def)

lemma slice_drop_take: "slice a b xs = drop a (take b xs)"
  by (simp add: slice_def drop_take)

lemma slice_zero: "slice 0 b xs = take b xs"
  by (simp add: slice_def)

lemma slice_append_left: "b \<le> length xs \<Longrightarrow> slice a b (xs @ ys) = slice a b xs"
  by (simp add: slice_def)

lemma slice_append_right:
  "length xs \<le> a \<Longrightarrow> slice a b (xs @ ys) = slice (a - length xs) (b - length xs) ys"
  by (simp add: slice_def)

lemma slice_drop: "slice (p + a) (p + b) xs = slice a b (drop p xs)"
  by (simp add: slice_def add.commute)

lemma slice_drop_0: "slice p (p + b) xs = take b (drop p xs)"
  by (simp add: slice_def)

lemma drop_consume:
  assumes "drop p data = xs @ ys"
  shows "drop (p + length xs) data = ys"
proof -
  have "drop (p + length xs) data = drop (length xs) (drop p data)"
    by (simp only: drop_drop add.commute)
  then show ?thesis by (simp add: assms)
qed

lemma nth_slice: "i < b - a \<Longrightarrow> a + i < length xs \<Longrightarrow> slice a b xs ! i = xs ! (a + i)"
  by (simp add: slice_def)

lemma slice_blit_same [simp]:
  "a + length ys \<le> length xs \<Longrightarrow> b = a + length ys \<Longrightarrow> slice a b (blit xs a ys) = ys"
  by (simp add: slice_def blit_def)

lemma slice_blit_before [simp]:
  "b \<le> c \<Longrightarrow> c \<le> length xs \<Longrightarrow> slice a b (blit xs c ys) = slice a b xs"
  by (simp add: slice_drop_take blit_def min_absorb1)

lemma slice_blit_after [simp]:
  assumes "c + length ys \<le> a" and "c + length ys \<le> length xs"
  shows "slice a b (blit xs c ys) = slice a b xs"
proof -
  have "drop a (blit xs c ys) = drop a xs"
    using assms by (simp add: blit_def)
  then show ?thesis by (simp add: slice_def)
qed

lemma nth_blit_before [simp]:
  "i < a \<Longrightarrow> a \<le> length xs \<Longrightarrow> blit xs a ys ! i = xs ! i"
  by (simp add: blit_def nth_append)

lemma take_blit_same:
  "a + length ys \<le> length xs \<Longrightarrow> take (a + length ys) (blit xs a ys) = take a xs @ ys"
  by (simp add: blit_def)

lemma take_blit_before [simp]:
  "n \<le> a \<Longrightarrow> a \<le> length xs \<Longrightarrow> take n (blit xs a ys) = take n xs"
  by (simp add: blit_def min_def)

lemma blit_Nil: "blit xs n [] = xs"
  by (simp add: blit_def)

lemma blit_append: "length xs = n \<Longrightarrow> blit (xs @ ys) n zs = xs @ zs @ drop (length zs) ys"
  by (simp add: blit_def)

lemma take_slice_split: "a \<le> b \<Longrightarrow> take b xs = take a xs @ slice a b xs"
  by (metis le_add_diff_inverse slice_def take_add)

section \<open>Ring indices\<close>

text \<open>Two positions less than a ring apart are different cells.\<close>

lemma mod_window_neq:
  assumes "i < j" and "j < i + c"
  shows "i mod c \<noteq> j mod (c :: nat)"
proof
  assume "i mod c = j mod c"
  then have "c dvd j - i" using assms(1) by (metis less_imp_le mod_eq_dvd_iff_nat)
  with assms show False using nat_dvd_not_less [of "j - i" c] by simp
qed

section \<open>Little-endian byte codecs\<close>

primrec to_le :: "nat \<Rightarrow> nat \<Rightarrow> bytes" where
  "to_le 0 n = []"
| "to_le (Suc k) n = word_of_nat n # to_le k (n div 256)"

primrec from_le :: "bytes \<Rightarrow> nat" where
  "from_le [] = 0"
| "from_le (b # bs) = unat b + 256 * from_le bs"

lemma length_to_le [simp, codec_simps]: "length (to_le k n) = k"
  by (induction k arbitrary: n) simp_all

lemma to_le_2: "to_le 2 n = [word_of_nat n, word_of_nat (n div 256)]"
  by (simp add: numeral_2_eq_2)

lemma to_le_4:
  "to_le 4 n = [word_of_nat n, word_of_nat (n div 256), word_of_nat (n div 65536), word_of_nat (n div 16777216)]"
proof -
  have "n div 256 div 256 = n div 65536" "n div 65536 div 256 = n div 16777216"
    using div_mult2_eq [of n 256 256] div_mult2_eq [of n 65536 256] by simp_all
  then have "to_le (Suc (Suc (Suc (Suc 0)))) n
      = [word_of_nat n, word_of_nat (n div 256), word_of_nat (n div 65536), word_of_nat (n div 16777216)]"
    by simp
  moreover have "4 = Suc (Suc (Suc (Suc 0)))" by simp
  ultimately show ?thesis by (simp only:)
qed

lemma unat_u8_less: "unat (b :: u8) < 256"
  by (rule unsigned_less [where 'b = 8 and 'a = nat, simplified])

lemma from_le_bound: "from_le bs < 256 ^ length bs"
proof (induction bs)
  case Nil
  then show ?case by simp
next
  case (Cons b bs)
  have "unat b < 256" by (rule unat_u8_less)
  with Cons show ?case by simp
qed

lemma from_le_to_le: "from_le (to_le k n) = n mod 256 ^ k"
proof (induction k arbitrary: n)
  case 0
  then show ?case by simp
next
  case (Suc k)
  have "unat (word_of_nat n :: u8) = n mod 256"
    by (simp add: unat_of_nat)
  with Suc show ?case by (simp add: mod_mult2_eq)
qed

lemma to_le_from_le: "length bs = k \<Longrightarrow> to_le k (from_le bs) = bs"
proof (induction bs arbitrary: k)
  case Nil
  then show ?case by simp
next
  case (Cons b bs)
  have b: "unat b < 256" by (rule unat_u8_less)
  have "(word_of_nat (unat b + 256 * from_le bs) :: u8) = b"
    using b by (simp only: word_unat_eq_iff unat_of_nat) simp
  moreover have "(unat b + 256 * from_le bs) div 256 = from_le bs"
    using b by simp
  ultimately show ?case using Cons by auto
qed

subsection \<open>The contract of a fixed-width codec\<close>

locale fixed_codec =
  fixes enc :: "'a \<Rightarrow> bytes"
    and dec :: "bytes \<Rightarrow> 'a"
    and width :: nat
  assumes length_enc: "length (enc a) = width"
    and dec_enc: "dec (enc a) = a"
    and enc_dec: "length bs = width \<Longrightarrow> enc (dec bs) = bs"
begin

lemma enc_inj: "enc a = enc b \<longleftrightarrow> a = b"
  by (metis dec_enc)

lemma dec_slice: "dec (slice 0 width (enc a @ rest)) = a"
  by (simp add: slice_def length_enc dec_enc)

lemma dec_slice_at:
  assumes "slice p (p + width) bs = enc a"
  shows "dec (slice p (p + width) bs) = a"
  by (simp add: assms dec_enc)

lemma length_concat_enc: "length (concat (map enc as)) = width * length as"
  by (induction as) (simp_all add: length_enc)

lemma take_concat_enc: "take width (concat (map enc (a # as)) @ rest) = enc a"
  by (simp add: length_enc)

lemma drop_concat_enc:
  "drop width (concat (map enc (a # as)) @ rest) = concat (map enc as) @ rest"
  by (simp add: length_enc)

lemma dec_inj: "length xs = width \<Longrightarrow> length ys = width \<Longrightarrow> dec xs = dec ys \<longleftrightarrow> xs = ys"
  by (metis enc_dec)

end

definition u16_to_le_bytes :: "u16 \<Rightarrow> bytes" where
  "u16_to_le_bytes w = to_le 2 (unat w)"

definition u16_from_le_bytes :: "bytes \<Rightarrow> u16" where
  "u16_from_le_bytes bs = word_of_nat (from_le bs)"

definition u32_to_le_bytes :: "u32 \<Rightarrow> bytes" where
  "u32_to_le_bytes w = to_le 4 (unat w)"

definition u32_from_le_bytes :: "bytes \<Rightarrow> u32" where
  "u32_from_le_bytes bs = word_of_nat (from_le bs)"

definition u64_to_le_bytes :: "u64 \<Rightarrow> bytes" where
  "u64_to_le_bytes w = to_le 8 (unat w)"

definition u64_from_le_bytes :: "bytes \<Rightarrow> u64" where
  "u64_from_le_bytes bs = word_of_nat (from_le bs)"

lemma le_codec_roundtrip:
  fixes w :: "'a::len word"
  assumes "LENGTH('a) = 8 * k"
  shows "word_of_nat (from_le (to_le k (unat w))) = w"
proof -
  have "unat w < 256 ^ k"
    using unsigned_less [of w, where 'a = nat] assms by (simp add: power_mult)
  then show ?thesis by (simp add: from_le_to_le)
qed

lemma le_codec_roundtrip_bytes:
  assumes "LENGTH('a::len) = 8 * k" and "length bs = k"
  shows "to_le k (unat (word_of_nat (from_le bs) :: 'a word)) = bs"
proof -
  have "from_le bs < 2 ^ LENGTH('a)"
    using from_le_bound [of bs] assms by (simp add: power_mult)
  then have "unat (word_of_nat (from_le bs) :: 'a word) = from_le bs"
    by (simp add: unat_of_nat)
  then show ?thesis using assms(2) by (simp add: to_le_from_le)
qed

interpretation u16c: fixed_codec u16_to_le_bytes u16_from_le_bytes 2
  by unfold_locales
    (simp_all add: u16_to_le_bytes_def u16_from_le_bytes_def le_codec_roundtrip
      le_codec_roundtrip_bytes)

interpretation u32c: fixed_codec u32_to_le_bytes u32_from_le_bytes 4
  by unfold_locales
    (simp_all add: u32_to_le_bytes_def u32_from_le_bytes_def le_codec_roundtrip
      le_codec_roundtrip_bytes)

interpretation u64c: fixed_codec u64_to_le_bytes u64_from_le_bytes 8
  by unfold_locales
    (simp_all add: u64_to_le_bytes_def u64_from_le_bytes_def le_codec_roundtrip
      le_codec_roundtrip_bytes)

lemmas int_codecs [simp, codec_simps] =
  u16c.length_enc u32c.length_enc u64c.length_enc
  u16c.dec_enc u32c.dec_enc u64c.dec_enc

end
