(* ===== verification/Error.thy ===== *)
theory Error
  imports Prelude
begin

text \<open>
  \<^verbatim>\<open>WeloxsError\<close> of \<^verbatim>\<open>src/error.rs\<close>. The formatted message of a variant is kept as
  the values that go into it: one constructor per message of the sources.
\<close>

datatype io_error = NotFound | Interrupted | WriteZero | OsError int

datatype config_error =
    CannotRead string io_error
  | TomlParseError
  | MaxRecordsMismatch u16 nat
  | MaxRecordsLimit u16
  | TtlZero
  | AofPathRequired
  | SnapshotPathRequired
  | UnknownFsync string

datatype protocol_error =
    BadMagic u16
  | UnknownOpcode u8
  | BadPayloadLen u8 u16 u16
  | BadGetCount u16 nat

datatype weloxs_error = Io io_error | Config config_error | Protocol protocol_error

type_synonym 'a weloxs_result = "weloxs_error + 'a"

end
