(* ===== verification/Constants.thy ===== *)
theory Constants
  imports Prelude
begin

text \<open>
  The constants of \<^verbatim>\<open>src/constants.rs\<close> and the choice of \<^verbatim>\<open>COMPILED_N\<close> in
  \<^verbatim>\<open>build.rs\<close>. The build script bakes the record capacity of a ring buffer into the
  binary, so every definition that reads \<^verbatim>\<open>COMPILED_N\<close> takes it as an argument \<open>n\<close>; the
  values \<^verbatim>\<open>build.rs\<close> can emit are those with \<open>compiled_n_ok\<close>.
\<close>

section \<open>constants.rs\<close>

definition PORT_DEFAULT :: u16 where [const_defs]: "PORT_DEFAULT = 7379"
definition AOF_BUF_SIZE :: nat where [const_defs]: "AOF_BUF_SIZE = 4194304"
definition AOF_FLUSH_INTERVAL_MS :: u64 where [const_defs]: "AOF_FLUSH_INTERVAL_MS = 1000"
definition AOF_OVERFLOW_WARN_S :: u64 where [const_defs]: "AOF_OVERFLOW_WARN_S = 5"
definition SNAPSHOT_INTERVAL_S :: u32 where [const_defs]: "SNAPSHOT_INTERVAL_S = 120"
definition TTL_COLLECT_INTERVAL_S :: u64 where [const_defs]: "TTL_COLLECT_INTERVAL_S = 10"
definition CANDIDATES_IN_CAP :: nat where [const_defs]: "CANDIDATES_IN_CAP = 8192"
definition EXPIRED_KEYS_CAP :: nat where [const_defs]: "EXPIRED_KEYS_CAP = 4096"
definition MAX_EPOLL_EVENTS :: nat where [const_defs]: "MAX_EPOLL_EVENTS = 1024"
definition RBUF_SIZE :: nat where [const_defs]: "RBUF_SIZE = 32"
definition MAGIC_WIRE :: u16 where [const_defs]: "MAGIC_WIRE = 0xAE01"
definition MAGIC_SNAPSHOT :: u32 where [const_defs]: "MAGIC_SNAPSHOT = 0x574C4F58"
definition SNAPSHOT_VERSION :: u8 where [const_defs]: "SNAPSHOT_VERSION = 1"
definition OPCODE_PUSH :: u8 where [const_defs]: "OPCODE_PUSH = 1"
definition OPCODE_GET :: u8 where [const_defs]: "OPCODE_GET = 2"
definition OPCODE_DEL :: u8 where [const_defs]: "OPCODE_DEL = 3"
definition STATUS_OK :: u8 where [const_defs]: "STATUS_OK = 0"
definition STATUS_NOT_FOUND :: u8 where [const_defs]: "STATUS_NOT_FOUND = 2"
definition MEMORY_POOL_SLOTS_DEFAULT :: u32 where [const_defs]: "MEMORY_POOL_SLOTS_DEFAULT = 1200000"
definition MAX_RECORDS_PROTOCOL_LIMIT :: u16 where [const_defs]: "MAX_RECORDS_PROTOCOL_LIMIT = 3854"
definition CONFIG_PATH_DEFAULT :: string where [const_defs]: "CONFIG_PATH_DEFAULT = ''weloxs.toml''"

text \<open>\<^verbatim>\<open>(7 + COMPILED_N * 17).div_ceil(64) * 64\<close>\<close>

definition WBUF_SIZE :: "nat \<Rightarrow> nat" where
  "WBUF_SIZE n = ((7 + n * 17 + 63) div 64) * 64"

lemma WBUF_SIZE_split: "WBUF_SIZE n + (7 + n * 17 + 63) mod 64 = 7 + n * 17 + 63"
  unfolding WBUF_SIZE_def by (rule div_mult_mod_eq)

lemma WBUF_SIZE_ge: "7 + n * 17 \<le> WBUF_SIZE n"
  using WBUF_SIZE_split [of n] mod_less_divisor [of 64 "7 + n * 17 + 63"] by linarith

lemma WBUF_SIZE_lt: "WBUF_SIZE n < 7 + n * 17 + 64"
  using WBUF_SIZE_split [of n] by linarith

lemma WBUF_SIZE_min: "64 \<le> WBUF_SIZE n"
proof -
  have "1 \<le> (7 + n * 17 + 63) div 64" by (simp add: div_greater_zero_iff Suc_le_eq)
  then show ?thesis unfolding WBUF_SIZE_def by linarith
qed

section \<open>build.rs\<close>

text \<open>
  \<^verbatim>\<open>str::parse::<usize>()\<close> of the standard library: an optional plus sign, then one or more
  ASCII digits, and an error when the value does not fit 64 bits.
\<close>

definition ascii_digit :: "char \<Rightarrow> nat option" where
  "ascii_digit c = (let v = (of_char c :: nat) in if 48 \<le> v \<and> v \<le> 57 then Some (v - 48) else None)"

fun parse_digits :: "nat \<Rightarrow> nat \<Rightarrow> string \<Rightarrow> nat option" where
  "parse_digits bound acc [] = Some acc"
| "parse_digits bound acc (c # cs) =
     (case ascii_digit c of
        None \<Rightarrow> None
      | Some d \<Rightarrow> if acc * 10 + d < bound then parse_digits bound (acc * 10 + d) cs else None)"

definition parse_unsigned :: "nat \<Rightarrow> string \<Rightarrow> nat option" where
  "parse_unsigned bound s =
     (let ds = (case s of [] \<Rightarrow> [] | c # cs \<Rightarrow> if c = CHR ''+'' then cs else s)
      in if ds = [] then None else parse_digits bound 0 ds)"

definition parse_usize :: "string \<Rightarrow> nat option" where
  "parse_usize = parse_unsigned (2 ^ 64)"

text \<open>The range assertion of the build script and of \<^verbatim>\<open>constants.rs\<close>.\<close>

definition compiled_n_ok :: "nat \<Rightarrow> bool" where
  "compiled_n_ok n \<longleftrightarrow> 0 < n \<and> n \<le> 3854"

text \<open>
  \<^verbatim>\<open>build.rs\<close>: \<open>env_n\<close> is the value of \<^verbatim>\<open>WELOXS_N\<close>, absent or unparsable
  values fall back to 100, and a value out of range fails the build (\<open>None\<close>).
\<close>

definition build_compiled_n :: "string option \<Rightarrow> nat option" where
  "build_compiled_n env_n =
     (let n = (case Option.bind env_n parse_usize of None \<Rightarrow> 100 | Some v \<Rightarrow> v)
      in if compiled_n_ok n then Some n else None)"

lemma build_compiled_n_ok: "build_compiled_n e = Some n \<Longrightarrow> compiled_n_ok n"
  by (auto simp: build_compiled_n_def Let_def split: if_splits)

lemma compiled_n_u16: "compiled_n_ok n \<Longrightarrow> unat (word_of_nat n :: u16) = n"
  by (simp add: compiled_n_ok_def unat_of_nat)

lemma compiled_n_u16_pos: "compiled_n_ok n \<Longrightarrow> (0 :: u16) < word_of_nat n"
  by (simp add: word_less_nat_alt compiled_n_u16) (simp add: compiled_n_ok_def)

section \<open>Properties\<close>

text \<open>
  For every record capacity the build accepts, the largest GET response fits the write buffer,
  its payload length fits the 16-bit length field, the capacity survives the conversion to
  \<^verbatim>\<open>u16\<close>, and the buffer is a whole number of 64-byte lines that wastes less than one.
\<close>

lemma build_capacity_fits:
  assumes "build_compiled_n env_n = Some n"
  shows "7 + n * 17 \<le> WBUF_SIZE n \<and> WBUF_SIZE n < 7 + n * 17 + 64 \<and> 64 dvd WBUF_SIZE n
     \<and> 2 + n * 17 < 2 ^ 16 \<and> unat (word_of_nat n :: u16) = n \<and> 0 < n"
proof -
  have n: "compiled_n_ok n" by (rule build_compiled_n_ok [OF assms])
  then have "2 + n * 17 < 2 ^ 16" and "0 < n" by (simp_all add: compiled_n_ok_def)
  then show ?thesis
    using WBUF_SIZE_ge [of n] WBUF_SIZE_lt [of n] compiled_n_u16 [OF n] by (simp add: WBUF_SIZE_def)
qed

text \<open>
  The build script takes 100 for an absent or unparsable variable and refuses every value
  outside 1 to 3854.
\<close>

lemma build_capacity_choice:
  "build_compiled_n env_n =
     (let k = (case env_n of None \<Rightarrow> 100 | Some v \<Rightarrow> (case parse_usize v of None \<Rightarrow> 100 | Some k \<Rightarrow> k))
      in if 1 \<le> k \<and> k \<le> 3854 then Some k else None)"
  by (auto simp: build_compiled_n_def compiled_n_ok_def Let_def split: option.splits)

end
