(* ===== verification/Connection.thy ===== *)
theory Connection
  imports Error Constants
begin

text \<open>
  \<^verbatim>\<open>src/connection.rs\<close>: the per-connection buffers, the request header checks and the fixed
  responses. \<open>COMPILED_N\<close> is the argument \<open>n\<close>. The write buffer is created with
  \<^verbatim>\<open>set_len\<close> over uninitialised memory, so its first contents are an argument. All slices
  of the 32-byte read buffer and of the write buffer below are within bounds when the buffers
  have their sizes, which \<open>conn_sizes\<close> says.
\<close>

section \<open>The model\<close>

datatype conn_state = ReadHeader | ReadPayload | Process | WriteResponse

record connection =
  cn_fd :: int
  cn_state :: conn_state
  cn_rbuf :: bytes
  cn_rbuf_pos :: nat
  cn_wbuf :: bytes
  cn_wbuf_len :: nat
  cn_wbuf_pos :: nat

definition connection_new :: "nat \<Rightarrow> (nat \<Rightarrow> u8) \<Rightarrow> int \<Rightarrow> connection" where
  "connection_new n uninit fd =
     \<lparr>cn_fd = fd, cn_state = ReadHeader, cn_rbuf = replicate RBUF_SIZE 0, cn_rbuf_pos = 0,
      cn_wbuf = map uninit [0..<WBUF_SIZE n], cn_wbuf_len = 0, cn_wbuf_pos = 0\<rparr>"

definition header_opcode :: "connection \<Rightarrow> u8" where
  "header_opcode c = cn_rbuf c ! 2"

definition header_user_id :: "connection \<Rightarrow> u32" where
  "header_user_id c = u32_from_le_bytes (slice 3 7 (cn_rbuf c))"

definition header_payload_len :: "connection \<Rightarrow> u16" where
  "header_payload_len c = u16_from_le_bytes (slice 7 9 (cn_rbuf c))"

definition expected_payload :: "u8 \<Rightarrow> u16 option" where
  "expected_payload opcode =
     (if opcode = OPCODE_PUSH then Some 17
      else if opcode = OPCODE_GET then Some 2
      else if opcode = OPCODE_DEL then Some 0
      else None)"

definition validate_header :: "connection \<Rightarrow> (u8 \<times> u32 \<times> u16) weloxs_result" where
  "validate_header c =
     (let magic = u16_from_le_bytes (slice 0 2 (cn_rbuf c))
      in if magic \<noteq> MAGIC_WIRE then Inl (Protocol (BadMagic magic))
         else let opcode = cn_rbuf c ! 2;
                  user_id = u32_from_le_bytes (slice 3 7 (cn_rbuf c));
                  payload_len = u16_from_le_bytes (slice 7 9 (cn_rbuf c))
              in case expected_payload opcode of
                   None \<Rightarrow> Inl (Protocol (UnknownOpcode opcode))
                 | Some e \<Rightarrow>
                     if payload_len \<noteq> e then Inl (Protocol (BadPayloadLen opcode e payload_len))
                     else Inr (opcode, user_id, payload_len))"

definition get_count_field :: "connection \<Rightarrow> u16" where
  "get_count_field c = u16_from_le_bytes (slice 9 11 (cn_rbuf c))"

definition validate_get_count :: "nat \<Rightarrow> connection \<Rightarrow> u16 weloxs_result" where
  "validate_get_count n c =
     (let count = get_count_field c
      in if count = 0 \<or> n < unat count then Inl (Protocol (BadGetCount count n)) else Inr count)"

definition write_response :: "connection \<Rightarrow> u8 \<Rightarrow> connection" where
  "write_response c status =
     (let w1 = blit (cn_wbuf c) 0 (u16_to_le_bytes MAGIC_WIRE);
          w2 = w1[2 := status];
          w3 = blit w2 3 (u16_to_le_bytes 0)
      in c\<lparr>cn_wbuf := w3, cn_wbuf_len := 5, cn_wbuf_pos := 0, cn_state := WriteResponse\<rparr>)"

definition write_ok_response :: "connection \<Rightarrow> connection" where
  "write_ok_response c = write_response c STATUS_OK"

definition write_not_found_response :: "connection \<Rightarrow> connection" where
  "write_not_found_response c = write_response c STATUS_NOT_FOUND"

section \<open>Request frames\<close>

text \<open>The nine header bytes of a request, as a client builds them.\<close>

definition request_header :: "u8 \<Rightarrow> u32 \<Rightarrow> u16 \<Rightarrow> bytes" where
  "request_header opcode uid len =
     u16_to_le_bytes MAGIC_WIRE @ [opcode] @ u32_to_le_bytes uid @ u16_to_le_bytes len"

lemma length_request_header [simp, codec_simps]: "length (request_header op uid len) = 9"
  by (simp add: request_header_def)

definition conn_sizes :: "nat \<Rightarrow> connection \<Rightarrow> bool" where
  "conn_sizes n c \<longleftrightarrow> length (cn_rbuf c) = 32 \<and> length (cn_wbuf c) = WBUF_SIZE n"

lemma conn_sizes_new: "conn_sizes n (connection_new n u fd)"
  by (simp add: conn_sizes_def connection_new_def const_defs)

lemma slice_take: "b \<le> k \<Longrightarrow> slice i b (take k xs) = slice i b xs"
  by (simp add: slice_drop_take min_absorb1)

text \<open>The header fields are determined by the first nine bytes of the read buffer.\<close>

lemma header_fields:
  assumes "take 9 (cn_rbuf c) = request_header op uid len"
  shows "slice 0 2 (cn_rbuf c) = u16_to_le_bytes MAGIC_WIRE"
    and "header_opcode c = op" and "header_user_id c = uid" and "header_payload_len c = len"
proof -
  have sl: "slice i j (cn_rbuf c) = slice i j (request_header op uid len)" if "j \<le> 9" for i j
    using slice_take [OF that, of i "cn_rbuf c"] by (simp add: assms)
  show "slice 0 2 (cn_rbuf c) = u16_to_le_bytes MAGIC_WIRE"
    by (simp add: sl) (simp add: request_header_def slice_def)
  have "cn_rbuf c ! 2 = take 9 (cn_rbuf c) ! 2" by simp
  then show "header_opcode c = op"
    by (simp only: assms header_opcode_def) (simp add: request_header_def nth_append)
  show "header_user_id c = uid" "header_payload_len c = len"
    by (simp_all add: header_user_id_def header_payload_len_def sl)
      (simp_all add: request_header_def slice_def)
qed

lemma request_header_split:
  assumes "9 \<le> length bs"
  shows "take 9 bs = slice 0 2 bs @ [bs ! 2] @ slice 3 7 bs @ slice 7 9 bs"
proof -
  have "take 9 bs = take 2 bs @ slice 2 3 bs @ slice 3 7 bs @ slice 7 9 bs"
    using take_slice_split [of 2 3 bs] take_slice_split [of 3 7 bs] take_slice_split [of 7 9 bs] by simp
  moreover have "slice 2 3 bs = [bs ! 2]"
    using assms by (intro nth_equalityI) (simp_all add: nth_slice)
  ultimately show ?thesis by (simp add: slice_zero)
qed

section \<open>What the checks accept\<close>

text \<open>The payload size of an opcode, as a client computes it.\<close>

lemma expected_payload_iff:
  "expected_payload opc = Some e \<longleftrightarrow>
     (opc = OPCODE_PUSH \<and> e = 17) \<or> (opc = OPCODE_GET \<and> e = 2) \<or> (opc = OPCODE_DEL \<and> e = 0)"
  by (auto simp: expected_payload_def const_defs)

lemma expected_payload_le: "expected_payload opc = Some e \<Longrightarrow> unat e \<le> 17"
  by (auto simp: expected_payload_iff)

lemma validate_header_request:
  assumes "take 9 (cn_rbuf c) = request_header opc uid len"
  shows "validate_header c =
     (case expected_payload opc of
        None \<Rightarrow> Inl (Protocol (UnknownOpcode opc))
      | Some e \<Rightarrow> if len = e then Inr (opc, uid, len) else Inl (Protocol (BadPayloadLen opc e len)))"
  using header_fields [OF assms]
  by (simp add: validate_header_def header_opcode_def header_user_id_def header_payload_len_def
      split: option.split)

text \<open>
  \<open>validate_header\<close> accepts a buffer exactly when its first nine bytes are a request header
  with a known opcode and that opcode's payload length.
\<close>

lemma validate_header_Inr:
  assumes "9 \<le> length (cn_rbuf c)"
  shows "validate_header c = Inr (opc, uid, len) \<longleftrightarrow>
     take 9 (cn_rbuf c) = request_header opc uid len \<and> expected_payload opc = Some len"
proof
  assume v: "validate_header c = Inr (opc, uid, len)"
  then have f: "u16_from_le_bytes (slice 0 2 (cn_rbuf c)) = MAGIC_WIRE" "cn_rbuf c ! 2 = opc"
    "u32_from_le_bytes (slice 3 7 (cn_rbuf c)) = uid" "u16_from_le_bytes (slice 7 9 (cn_rbuf c)) = len"
    and e: "expected_payload opc = Some len"
    by (auto simp: validate_header_def Let_def split: if_splits option.splits)
  have "slice 0 2 (cn_rbuf c) = u16_to_le_bytes MAGIC_WIRE" "slice 3 7 (cn_rbuf c) = u32_to_le_bytes uid"
    "slice 7 9 (cn_rbuf c) = u16_to_le_bytes len"
    using assms by (simp_all flip: f add: u16c.enc_dec u32c.enc_dec)
  with f(2) e show "take 9 (cn_rbuf c) = request_header opc uid len \<and> expected_payload opc = Some len"
    by (simp add: request_header_split [OF assms] request_header_def)
next
  assume "take 9 (cn_rbuf c) = request_header opc uid len \<and> expected_payload opc = Some len"
  then show "validate_header c = Inr (opc, uid, len)" by (simp add: validate_header_request)
qed

text \<open>The checks and the fields read the first nine bytes only.\<close>

lemma header_cong:
  assumes "take 9 (cn_rbuf c) = take 9 (cn_rbuf c')"
  shows "validate_header c = validate_header c'" and "header_payload_len c = header_payload_len c'"
    and "header_opcode c = header_opcode c'" and "header_user_id c = header_user_id c'"
proof -
  have sl: "slice i j (cn_rbuf c) = slice i j (cn_rbuf c')" if "j \<le> 9" for i j
    using slice_take [OF that, of i "cn_rbuf c"] slice_take [OF that, of i "cn_rbuf c'"] assms by simp
  have op: "cn_rbuf c ! 2 = cn_rbuf c' ! 2"
    using arg_cong [OF assms, of "\<lambda>xs. xs ! 2"] by simp
  show "validate_header c = validate_header c'"
    by (simp add: validate_header_def Let_def sl op)
  show "header_payload_len c = header_payload_len c'" "header_opcode c = header_opcode c'"
    "header_user_id c = header_user_id c'"
    by (simp_all add: header_payload_len_def header_opcode_def header_user_id_def sl op)
qed

lemma validate_header_fields:
  assumes "validate_header c = Inr (opc, uid, len)"
  shows "header_opcode c = opc" and "header_user_id c = uid" and "header_payload_len c = len"
    and "expected_payload opc = Some len" and "unat len \<le> 17"
proof -
  show "header_opcode c = opc" "header_user_id c = uid" "header_payload_len c = len"
    "expected_payload opc = Some len"
    using assms by (auto simp: validate_header_def header_opcode_def header_user_id_def
        header_payload_len_def Let_def split: if_splits option.splits)
  then show "unat len \<le> 17" by (simp add: expected_payload_le)
qed

section \<open>The fixed responses\<close>

definition response_frame :: "u8 \<Rightarrow> bytes \<Rightarrow> bytes" where
  "response_frame status payload =
     u16_to_le_bytes MAGIC_WIRE @ [status] @ u16_to_le_bytes (word_of_nat (length payload)) @ payload"

text \<open>The bytes a connection in state \<open>WriteResponse\<close> still has to send.\<close>

definition conn_output :: "connection \<Rightarrow> bytes" where
  "conn_output c = slice (cn_wbuf_pos c) (cn_wbuf_len c) (cn_wbuf c)"

lemma wbuf_magic_status:
  assumes "3 \<le> length w" and "length a = 2"
  shows "(blit w 0 a)[2 := st] = a @ [st] @ drop 3 w"
proof -
  have "drop 2 w = w ! 2 # drop 3 w" using assms Cons_nth_drop_Suc [of 2 w] by simp
  moreover have "blit w 0 a = a @ drop 2 w" using assms by (simp add: blit_def numeral_2_eq_2)
  ultimately show ?thesis using assms by (simp add: list_update_append)
qed

lemma write_response_frame:
  assumes "conn_sizes n c"
  shows "conn_sizes n (write_response c status)"
    and "conn_output (write_response c status) = response_frame status []"
proof -
  have l: "64 \<le> length (cn_wbuf c)" using assms WBUF_SIZE_min [of n] by (simp add: conn_sizes_def)
  then have w2: "(blit (cn_wbuf c) 0 (u16_to_le_bytes MAGIC_WIRE))[2 := status]
      = u16_to_le_bytes MAGIC_WIRE @ [status] @ drop 3 (cn_wbuf c)"
    by (intro wbuf_magic_status) simp_all
  show "conn_sizes n (write_response c status)"
    using assms l by (simp add: conn_sizes_def write_response_def Let_def)
  show "conn_output (write_response c status) = response_frame status []"
    using l unfolding write_response_def Let_def conn_output_def w2
    by (simp add: response_frame_def slice_def blit_def)
qed

lemma write_response_fields [simp]:
  "cn_state (write_response c status) = WriteResponse"
  "cn_rbuf (write_response c status) = cn_rbuf c"
  "cn_rbuf_pos (write_response c status) = cn_rbuf_pos c"
  "cn_fd (write_response c status) = cn_fd c"
  "cn_wbuf_pos (write_response c status) = 0"
  "cn_wbuf_len (write_response c status) = 5"
  by (simp_all add: write_response_def Let_def)

section \<open>Properties\<close>

text \<open>
  The header check accepts a read buffer exactly when its first nine bytes are the header of a
  request: the wire magic, a known opcode, any user id, and the payload length of that opcode.
\<close>

lemma header_accepted_iff:
  assumes "9 \<le> length (cn_rbuf c)"
  shows "validate_header c = Inr (opc, uid, len) \<longleftrightarrow>
     take 9 (cn_rbuf c) = u16_to_le_bytes MAGIC_WIRE @ [opc] @ u32_to_le_bytes uid @ u16_to_le_bytes len
     \<and> ((opc = OPCODE_PUSH \<and> len = 17) \<or> (opc = OPCODE_GET \<and> len = 2) \<or> (opc = OPCODE_DEL \<and> len = 0))"
  using validate_header_Inr [OF assms] by (simp add: request_header_def expected_payload_iff)

text \<open>A connection that has received the header of a DEL request for user 258.\<close>

definition sample_del_conn :: connection where
  "sample_del_conn = (connection_new 2 (\<lambda>_. 0) 5)
     \<lparr>cn_rbuf := [1, 0xAE, 3, 2, 1, 0, 0, 0, 0] @ replicate 23 0, cn_rbuf_pos := 9\<rparr>"

text \<open>
  The count check of GET accepts exactly the counts from 1 to the compiled capacity and reports
  the others.
\<close>

lemma get_count_accepted_iff:
  "validate_get_count n c =
     (if 1 \<le> unat (get_count_field c) \<and> unat (get_count_field c) \<le> n
      then Inr (get_count_field c)
      else Inl (Protocol (BadGetCount (get_count_field c) n)))"
proof -
  have "get_count_field c = 0 \<longleftrightarrow> \<not> 1 \<le> unat (get_count_field c)" by (simp add: unat_eq_0 not_less_eq_eq)
  then show ?thesis by (auto simp: validate_get_count_def Let_def)
qed

text \<open>
  The fixed responses put the five bytes magic, status and zero length into the write buffer,
  ready to be sent from the start, and leave the request bytes alone.
\<close>

lemma fixed_response_layout:
  assumes "conn_sizes n c"
  shows "conn_output (write_ok_response c) = u16_to_le_bytes MAGIC_WIRE @ [STATUS_OK] @ u16_to_le_bytes 0
     \<and> conn_output (write_not_found_response c) = u16_to_le_bytes MAGIC_WIRE @ [STATUS_NOT_FOUND] @ u16_to_le_bytes 0
     \<and> cn_state (write_ok_response c) = WriteResponse \<and> cn_rbuf (write_ok_response c) = cn_rbuf c"
  using write_response_frame(2) [OF assms]
  by (simp add: write_ok_response_def write_not_found_response_def response_frame_def)

end
