(* ===== verification/Conn_Io.thy ===== *)
theory Conn_Io
  imports Connection
begin

text \<open>
  The two loops of \<^verbatim>\<open>src/event_loop.rs\<close> that move bytes between a socket and a connection: the
  loop of \<open>handle_read\<close>, which collects one request, and the loop of \<open>handle_write\<close>, which sends
  one response. A socket is the bytes that have arrived and the bytes that were sent; how much a
  system call transfers, and when it would block or fails, is a script in the socket (an exhausted
  script means: as much as possible).

  The framing results do not depend on that script: no byte is lost, duplicated or reordered, the
  read position stays inside the 32-byte buffer, and a complete request is recognised however the
  network cut it.
\<close>

section \<open>The model\<close>

datatype read_event = RLimit nat | RInterrupted | RFail
datatype write_event = WLimit nat | WInterrupted | WFail

record socket =
  sk_in :: bytes
  sk_eof :: bool
  sk_reads :: "read_event list"
  sk_out :: bytes
  sk_writes :: "write_event list"

datatype read_answer = ReadBytes bytes | ReadAgain | ReadError
datatype write_answer = Wrote nat | WriteAgain | WriteError

text \<open>\<^verbatim>\<open>libc::read\<close> of at most \<open>k\<close> bytes: zero bytes at the end of the stream.\<close>

definition sock_take :: "nat \<Rightarrow> socket \<Rightarrow> read_answer \<times> socket" where
  "sock_take k sk =
     (if sk_in sk = [] then (if sk_eof sk then ReadBytes [] else ReadAgain, sk)
      else (ReadBytes (take k (sk_in sk)), sk\<lparr>sk_in := drop k (sk_in sk)\<rparr>))"

definition sock_read :: "nat \<Rightarrow> socket \<Rightarrow> read_answer \<times> socket" where
  "sock_read k sk =
     (case sk_reads sk of
        [] \<Rightarrow> sock_take k sk
      | RLimit c # rs \<Rightarrow> sock_take (min k (Suc c)) (sk\<lparr>sk_reads := rs\<rparr>)
      | RInterrupted # rs \<Rightarrow> (ReadAgain, sk\<lparr>sk_reads := rs\<rparr>)
      | RFail # rs \<Rightarrow> (ReadError, sk\<lparr>sk_reads := rs\<rparr>))"

definition sock_write :: "bytes \<Rightarrow> socket \<Rightarrow> write_answer \<times> socket" where
  "sock_write bs sk =
     (case sk_writes sk of
        [] \<Rightarrow> (Wrote (length bs), sk\<lparr>sk_out := sk_out sk @ bs\<rparr>)
      | WLimit c # ws \<Rightarrow>
          (Wrote (min (Suc c) (length bs)),
           sk\<lparr>sk_writes := ws, sk_out := sk_out sk @ take (Suc c) bs\<rparr>)
      | WInterrupted # ws \<Rightarrow> (WriteAgain, sk\<lparr>sk_writes := ws\<rparr>)
      | WFail # ws \<Rightarrow> (WriteError, sk\<lparr>sk_writes := ws\<rparr>))"

text \<open>How many bytes the state needs; \<open>None\<close> leaves the loop.\<close>

definition read_needed :: "connection \<Rightarrow> nat option" where
  "read_needed c =
     (case cn_state c of
        ReadHeader \<Rightarrow> Some 9
      | ReadPayload \<Rightarrow> Some (9 + unat (header_payload_len c))
      | Process \<Rightarrow> None
      | WriteResponse \<Rightarrow> None)"

text \<open>The match after a read that brought bytes; \<open>None\<close> closes the connection.\<close>

definition after_read :: "connection \<Rightarrow> connection option" where
  "after_read c =
     (case cn_state c of
        ReadHeader \<Rightarrow>
          if 9 \<le> cn_rbuf_pos c
          then (case validate_header c of
                  Inl e \<Rightarrow> None
                | Inr (opc, uid, payload_len) \<Rightarrow>
                    Some (c\<lparr>cn_state := (if payload_len = 0 then Process else ReadPayload)\<rparr>))
          else Some c
      | ReadPayload \<Rightarrow>
          let target = 9 + unat (header_payload_len c)
          in if target \<le> cn_rbuf_pos c then Some (c\<lparr>cn_state := Process\<rparr>) else Some c
      | _ \<Rightarrow> Some c)"

datatype read_result =
    ReadBreak connection socket
  | ReadReturn connection socket
  | ReadClose socket

function read_loop :: "connection \<Rightarrow> socket \<Rightarrow> read_result" where
  "read_loop c sk =
     (case read_needed c of
        None \<Rightarrow> ReadBreak c sk
      | Some needed \<Rightarrow>
          if needed \<le> cn_rbuf_pos c then ReadBreak c sk
          else (case sock_read (needed - cn_rbuf_pos c) sk of
                  (ReadAgain, sk') \<Rightarrow> ReadReturn c sk'
                | (ReadError, sk') \<Rightarrow> ReadClose sk'
                | (ReadBytes bs, sk') \<Rightarrow>
                    if bs = [] then ReadClose sk'
                    else (case after_read (c\<lparr>cn_rbuf := blit (cn_rbuf c) (cn_rbuf_pos c) bs,
                                            cn_rbuf_pos := cn_rbuf_pos c + length bs\<rparr>) of
                            None \<Rightarrow> ReadClose sk'
                          | Some c' \<Rightarrow> read_loop c' sk')))"
  by pat_completeness auto

text \<open>What a read moves, and why the loop ends: every round takes a byte from the socket.\<close>

lemma sock_read_bytes:
  assumes "sock_read k sk = (ReadBytes bs, sk')"
  shows "sk_in sk = bs @ sk_in sk'" and "length bs \<le> k" and "sk_eof sk' = sk_eof sk"
  using assms
  by (auto simp: sock_read_def sock_take_def split: list.splits read_event.splits if_splits)

lemma sock_read_other:
  assumes "sock_read k sk = (a, sk')" and "a = ReadAgain \<or> a = ReadError"
  shows "sk_in sk' = sk_in sk" and "sk_out sk' = sk_out sk"
  using assms
  by (auto simp: sock_read_def sock_take_def split: list.splits read_event.splits if_splits)

lemma sock_read_less:
  "sock_read k sk = (ReadBytes bs, sk') \<Longrightarrow> bs \<noteq> [] \<Longrightarrow> length (sk_in sk') < length (sk_in sk)"
  by (cases bs) (simp_all add: sock_read_bytes(1))

termination read_loop
  by (relation "measure (\<lambda>(c, sk). length (sk_in sk))") (auto dest!: sym [of "(ReadBytes _, _)"] sock_read_less)

declare read_loop.simps [simp del]

datatype write_loop_result =
    WriteComplete connection socket
  | WriteBreak connection socket
  | WriteReturn connection socket
  | WriteClose socket
  | WritePanic panic

text \<open>The slice of the write buffer is bounds-checked, and so is the subtraction before it.\<close>

function write_loop :: "connection \<Rightarrow> socket \<Rightarrow> write_loop_result" where
  "write_loop c sk =
     (if cn_state c \<noteq> WriteResponse then WriteBreak c sk
      else if cn_wbuf_len c < cn_wbuf_pos c then WritePanic (Panic ''subtract with overflow'')
      else let remaining = cn_wbuf_len c - cn_wbuf_pos c
           in if remaining = 0 then WriteBreak c sk
              else if length (cn_wbuf c) < cn_wbuf_len c then WritePanic (Panic ''range out of bounds'')
              else (case sock_write (slice (cn_wbuf_pos c) (cn_wbuf_len c) (cn_wbuf c)) sk of
                      (WriteAgain, sk') \<Rightarrow> WriteReturn c sk'
                    | (WriteError, sk') \<Rightarrow> WriteClose sk'
                    | (Wrote k, sk') \<Rightarrow>
                        let c1 = c\<lparr>cn_wbuf_pos := cn_wbuf_pos c + k\<rparr>
                        in if cn_wbuf_pos c1 = cn_wbuf_len c1
                           then WriteComplete
                                  (c1\<lparr>cn_state := ReadHeader, cn_rbuf_pos := 0, cn_wbuf_pos := 0,
                                      cn_wbuf_len := 0\<rparr>) sk'
                           else write_loop c1 sk'))"
  by pat_completeness auto

lemma sock_write_wrote:
  assumes "sock_write bs sk = (Wrote k, sk')"
  shows "k \<le> length bs" and "bs \<noteq> [] \<Longrightarrow> 0 < k" and "sk_out sk' = sk_out sk @ take k bs"
    and "sk_in sk' = sk_in sk"
  using assms by (auto simp: sock_write_def min_def split: list.splits write_event.splits)

lemma sock_write_other:
  assumes "sock_write bs sk = (a, sk')" and "a = WriteAgain \<or> a = WriteError"
  shows "sk_out sk' = sk_out sk" and "sk_in sk' = sk_in sk"
  using assms by (auto simp: sock_write_def split: list.splits write_event.splits)

lemma sock_write_pos:
  assumes "sock_write (slice a b xs) sk = (Wrote k, sk')" and "a < b" and "b \<le> length xs"
  shows "0 < k"
proof -
  have "length (slice a b xs) \<noteq> 0" using assms(2,3) by simp
  then show ?thesis using sock_write_wrote(2) [OF assms(1)] by (metis list.size(3))
qed

termination write_loop
  by (relation "measure (\<lambda>(c, sk). cn_wbuf_len c - cn_wbuf_pos c)")
    (auto dest!: sym [of "(Wrote _, _)"] sock_write_pos)

declare write_loop.simps [simp del]

section \<open>The invariant of a connection\<close>

definition conn_inv :: "nat \<Rightarrow> connection \<Rightarrow> bool" where
  "conn_inv n c \<longleftrightarrow> conn_sizes n c \<and>
     (case cn_state c of
        ReadHeader \<Rightarrow> cn_rbuf_pos c < 9
      | ReadPayload \<Rightarrow> \<not> isl (validate_header c) \<and> 9 \<le> cn_rbuf_pos c
                       \<and> cn_rbuf_pos c < 9 + unat (header_payload_len c)
      | Process \<Rightarrow> \<not> isl (validate_header c) \<and> cn_rbuf_pos c = 9 + unat (header_payload_len c)
      | WriteResponse \<Rightarrow> cn_wbuf_pos c < cn_wbuf_len c \<and> cn_wbuf_len c \<le> length (cn_wbuf c))"

text \<open>The part of the request that has been received.\<close>

definition received :: "connection \<Rightarrow> bytes" where
  "received c = take (cn_rbuf_pos c) (cn_rbuf c)"

lemma conn_inv_new: "conn_inv n (connection_new n u fd)"
  using conn_sizes_new [of n u fd] by (simp add: conn_inv_def connection_new_def)

lemma payload_len_le: "\<not> isl (validate_header c) \<Longrightarrow> unat (header_payload_len c) \<le> 17"
  by (cases "validate_header c") (auto dest: validate_header_fields)

text \<open>No read goes past byte 26 of the 32-byte buffer.\<close>

lemma read_needed_bound: "conn_inv n c \<Longrightarrow> read_needed c = Some k \<Longrightarrow> k \<le> 26"
  using payload_len_le [of c]
  by (auto simp: conn_inv_def read_needed_def split: conn_state.splits)

lemma after_read_fields:
  assumes "after_read c = Some c'"
  shows "cn_rbuf c' = cn_rbuf c" and "cn_rbuf_pos c' = cn_rbuf_pos c" and "cn_wbuf c' = cn_wbuf c"
    and "cn_wbuf_pos c' = cn_wbuf_pos c" and "cn_wbuf_len c' = cn_wbuf_len c" and "cn_fd c' = cn_fd c"
  using assms by (auto simp: after_read_def Let_def split: conn_state.splits if_splits sum.splits)

lemma fill_step:
  fixes c bs
  defines "c1 \<equiv> c\<lparr>cn_rbuf := blit (cn_rbuf c) (cn_rbuf_pos c) bs, cn_rbuf_pos := cn_rbuf_pos c + length bs\<rparr>"
  assumes inv: "conn_inv n c" and need: "read_needed c = Some k" and lt: "cn_rbuf_pos c < k"
    and bs: "length bs \<le> k - cn_rbuf_pos c"
  shows "received c1 = received c @ bs" and "conn_sizes n c1"
    and "cn_state c = ReadPayload \<Longrightarrow> take 9 (cn_rbuf c1) = take 9 (cn_rbuf c)"
proof -
  have k: "k \<le> 26" by (rule read_needed_bound [OF inv need])
  have len: "length (cn_rbuf c) = 32" using inv by (simp add: conn_inv_def conn_sizes_def)
  show "received c1 = received c @ bs"
    using k lt bs len take_blit_same [of "cn_rbuf_pos c" bs "cn_rbuf c"]
    by (simp add: received_def c1_def)
  show "conn_sizes n c1"
    using inv k lt bs len by (simp add: conn_inv_def conn_sizes_def c1_def)
  show "take 9 (cn_rbuf c1) = take 9 (cn_rbuf c)" if "cn_state c = ReadPayload"
    using inv that k lt len by (simp add: conn_inv_def c1_def)
qed

lemma after_read_inv:
  fixes c bs
  defines "c1 \<equiv> c\<lparr>cn_rbuf := blit (cn_rbuf c) (cn_rbuf_pos c) bs, cn_rbuf_pos := cn_rbuf_pos c + length bs\<rparr>"
  assumes inv: "conn_inv n c" and need: "read_needed c = Some k" and lt: "cn_rbuf_pos c < k"
    and bs: "length bs \<le> k - cn_rbuf_pos c" and ar: "after_read c1 = Some c'"
  shows "conn_inv n c'" and "received c' = received c @ bs"
    and "cn_state c' \<in> {ReadHeader, ReadPayload, Process}"
proof -
  note fs = fill_step [OF inv need lt bs, folded c1_def] and af = after_read_fields [OF ar]
  have st: "cn_state c1 = cn_state c" and pos: "cn_rbuf_pos c1 \<le> k"
    using bs lt by (simp_all add: c1_def)
  show "received c' = received c @ bs" using fs(1) af by (simp add: received_def)
  have hc: "validate_header c' = validate_header c1" "header_payload_len c' = header_payload_len c1"
    using header_cong(1,2) [of c' c1] af(1) by simp_all
  have sz: "conn_sizes n c'" using fs(2) af by (simp add: conn_sizes_def)
  consider "cn_state c = ReadHeader" "k = 9" | "cn_state c = ReadPayload" "k = 9 + unat (header_payload_len c)"
    using need by (cases "cn_state c") (auto simp: read_needed_def)
  then have "conn_inv n c' \<and> cn_state c' \<in> {ReadHeader, ReadPayload, Process}"
  proof cases
    case 1
    have "cn_state c' = ReadHeader" "cn_rbuf_pos c' < 9" if "cn_rbuf_pos c1 < 9"
      using ar that st 1 by (auto simp: after_read_def)
    moreover have "conn_inv n c' \<and> cn_state c' \<in> {ReadPayload, Process}" if p: "\<not> cn_rbuf_pos c1 < 9"
    proof -
      from p pos 1 have "cn_rbuf_pos c1 = 9" by simp
      with ar st 1 obtain opc uid len where v: "validate_header c1 = Inr (opc, uid, len)"
        and c': "c' = c1\<lparr>cn_state := (if len = 0 then Process else ReadPayload)\<rparr>"
        by (auto simp: after_read_def split: sum.splits)
      have "0 < unat len" if "len \<noteq> 0" using that by (simp add: unat_gt_0)
      then show ?thesis
        using sz hc v validate_header_fields(3) [OF v] \<open>cn_rbuf_pos c1 = 9\<close>
        by (auto simp: conn_inv_def c')
    qed
    ultimately show ?thesis using sz by (cases "cn_rbuf_pos c1 < 9") (auto simp: conn_inv_def)
  next
    case 2
    have h: "validate_header c1 = validate_header c" "header_payload_len c1 = header_payload_len c"
      using header_cong(1,2) [OF fs(3) [OF 2(1)]] by simp_all
    have v: "\<not> isl (validate_header c)" and "9 \<le> cn_rbuf_pos c1"
      using inv 2 by (simp_all add: conn_inv_def c1_def)
    moreover have "cn_rbuf_pos c1 \<le> 9 + unat (header_payload_len c1)" using pos 2 h by simp
    moreover have "cn_state c' = (if 9 + unat (header_payload_len c1) \<le> cn_rbuf_pos c1 then Process else ReadPayload)"
      using ar st 2(1) by (auto simp: after_read_def Let_def split: if_splits)
    ultimately show ?thesis
      using sz hc h(1) af(2) by (simp add: conn_inv_def)
  qed
  then show "conn_inv n c'" "cn_state c' \<in> {ReadHeader, ReadPayload, Process}" by auto
qed

section \<open>Reading\<close>

lemma read_needed_iff: "(\<exists>k. read_needed c = Some k) \<longleftrightarrow> cn_state c \<in> {ReadHeader, ReadPayload}"
  by (cases "cn_state c") (simp_all add: read_needed_def)

lemma conn_inv_needed: "conn_inv n c \<Longrightarrow> read_needed c = Some k \<Longrightarrow> cn_rbuf_pos c < k"
  by (auto simp: conn_inv_def read_needed_def split: conn_state.splits)

text \<open>
  No byte is lost, duplicated or reordered, and the loop is left by \<open>break\<close> only with a complete
  request.
\<close>

definition read_ok :: "nat \<Rightarrow> bytes \<Rightarrow> read_result \<Rightarrow> bool" where
  "read_ok n all r \<longleftrightarrow>
     (case r of
        ReadBreak c sk \<Rightarrow> conn_inv n c \<and> cn_state c = Process \<and> received c @ sk_in sk = all
      | ReadReturn c sk \<Rightarrow> conn_inv n c \<and> cn_state c \<in> {ReadHeader, ReadPayload} \<and> received c @ sk_in sk = all
      | ReadClose sk \<Rightarrow> True)"

lemma read_loop_ok:
  assumes "conn_inv n c" and "cn_state c \<in> {ReadHeader, ReadPayload, Process}"
  shows "read_ok n (received c @ sk_in sk) (read_loop c sk)"
  using assms
proof (induction c sk rule: read_loop.induct)
  case (1 c sk)
  show ?case
  proof (cases "read_needed c")
    case None
    with 1 read_needed_iff [of c] show ?thesis
      by (subst read_loop.simps) (auto simp: read_ok_def)
  next
    case (Some k)
    note lt = conn_inv_needed [OF 1(2) Some]
    obtain a sk' where rd: "sock_read (k - cn_rbuf_pos c) sk = (a, sk')" by fastforce
    have st: "cn_state c \<in> {ReadHeader, ReadPayload}" using Some read_needed_iff by blast
    show ?thesis
    proof (cases a)
      case (ReadBytes bs)
      note b = sock_read_bytes [OF rd [unfolded ReadBytes]]
      let ?c1 = "c\<lparr>cn_rbuf := blit (cn_rbuf c) (cn_rbuf_pos c) bs, cn_rbuf_pos := cn_rbuf_pos c + length bs\<rparr>"
      show ?thesis
      proof (cases "bs = [] \<or> after_read ?c1 = None")
        case True
        then show ?thesis using lt
          by (subst read_loop.simps) (auto simp: Some rd ReadBytes read_ok_def)
      next
        case False
        then obtain c' where ar: "after_read ?c1 = Some c'" by auto
        note ai = after_read_inv [OF 1(2) Some lt b(2) ar]
        have eq: "read_loop c sk = read_loop c' sk'"
          using lt False ar by (subst read_loop.simps) (simp add: Some rd ReadBytes)
        have "read_ok n (received c' @ sk_in sk') (read_loop c' sk')"
          using 1(1) [OF Some _ rd [symmetric] ReadBytes _ ar] lt False ai by auto
        then show ?thesis using ai(2) b(1) by (simp add: eq)
      qed
    next
      case ReadAgain
      with sock_read_other [OF rd] 1(2) lt st show ?thesis
        by (subst read_loop.simps) (simp add: Some rd read_ok_def)
    next
      case ReadError
      with lt show ?thesis by (subst read_loop.simps) (simp add: Some rd read_ok_def)
    qed
  qed
qed

subsection \<open>Complete requests\<close>

text \<open>A well-formed request: header and payload of the announced size.\<close>

definition request_frame :: "u8 \<Rightarrow> u32 \<Rightarrow> bytes \<Rightarrow> bytes" where
  "request_frame opc uid payload = request_header opc uid (word_of_nat (length payload)) @ payload"

definition payload_ok :: "u8 \<Rightarrow> bytes \<Rightarrow> bool" where
  "payload_ok opc payload \<longleftrightarrow> expected_payload opc = Some (word_of_nat (length payload)) \<and> length payload \<le> 17"

definition reads_flow :: "socket \<Rightarrow> bool" where
  "reads_flow sk \<longleftrightarrow> (\<forall>e \<in> set (sk_reads sk). e \<noteq> RInterrupted \<and> e \<noteq> RFail)"

lemma sock_read_flow:
  assumes "reads_flow sk" and "sk_in sk \<noteq> []" and "0 < k"
  obtains bs sk' where "sock_read k sk = (ReadBytes bs, sk')" and "bs \<noteq> []" and "reads_flow sk'"
proof (cases "sk_reads sk")
  case Nil
  with assms that show ?thesis by (auto simp: sock_read_def sock_take_def reads_flow_def)
next
  case (Cons e rs)
  with assms obtain l where "e = RLimit l" by (cases e) (auto simp: reads_flow_def)
  with assms Cons that show ?thesis by (auto simp: sock_read_def sock_take_def reads_flow_def)
qed

lemma length_request_frame [simp]: "length (request_frame opc uid payload) = 9 + length payload"
  by (simp add: request_frame_def)

lemma payload_ok_len: "payload_ok opc payload \<Longrightarrow> unat (word_of_nat (length payload) :: u16) = length payload"
  by (simp add: payload_ok_def unat_of_nat)

lemma received_header:
  assumes "received c @ zs = request_frame opc uid payload @ rest" and "9 \<le> cn_rbuf_pos c"
    and "length (cn_rbuf c) = 32"
  shows "take 9 (cn_rbuf c) = request_header opc uid (word_of_nat (length payload))"
proof -
  have "take 9 (received c @ zs) = request_header opc uid (word_of_nat (length payload))"
    by (simp only: assms(1)) (simp add: request_frame_def)
  then show ?thesis using assms(2,3) by (simp add: received_def min_def)
qed

lemma received_length: "conn_inv n c \<Longrightarrow> cn_state c \<noteq> WriteResponse \<Longrightarrow> length (received c) = cn_rbuf_pos c"
  using payload_len_le [of c]
  by (auto simp: conn_inv_def conn_sizes_def received_def split: conn_state.splits)

lemma frame_validates:
  assumes "payload_ok opc payload" and "take 9 (cn_rbuf c) = request_header opc uid (word_of_nat (length payload))"
  shows "validate_header c = Inr (opc, uid, word_of_nat (length payload))"
    and "unat (header_payload_len c) = length payload"
  using assms validate_header_request [OF assms(2)] header_fields(4) [OF assms(2)] payload_ok_len [OF assms(1)]
  by (simp_all add: payload_ok_def)

lemma after_read_frame:
  assumes "payload_ok opc payload" and "length (cn_rbuf c) = 32"
    and "received c @ zs = request_frame opc uid payload @ rest"
  shows "\<exists>c'. after_read c = Some c'"
  using frame_validates(1) [OF assms(1), of c uid] received_header [OF assms(3) _ assms(2)]
  by (cases "cn_state c") (auto simp: after_read_def Let_def)

lemma read_loop_break:
  assumes "conn_inv n c" and "cn_state c \<in> {ReadHeader, ReadPayload, Process}" and "reads_flow sk"
    and "received c @ sk_in sk = request_frame opc uid payload @ rest" and "payload_ok opc payload"
  shows "\<exists>c' sk'. read_loop c sk = ReadBreak c' sk'"
  using assms
proof (induction c sk rule: read_loop.induct)
  case (1 c sk)
  note prems = 1(2-6)
  show ?case
  proof (cases "read_needed c")
    case None
    then show ?thesis by (subst read_loop.simps) simp
  next
    case (Some k)
    have lt: "cn_rbuf_pos c < k" using conn_inv_needed [OF prems(1) Some] .
    have st: "cn_state c \<in> {ReadHeader, ReadPayload}" using Some read_needed_iff by blast
    have l32: "length (cn_rbuf c) = 32" using prems(1) by (simp add: conn_inv_def conn_sizes_def)
    have "k \<le> 9 + length payload"
      using Some prems(1) frame_validates(2) [OF prems(5) received_header [OF prems(4) _ l32]]
      by (auto simp: read_needed_def conn_inv_def split: conn_state.splits)
    moreover have "length (received c) = cn_rbuf_pos c" using prems(1) st by (intro received_length) auto
    ultimately have "length (received c) < length (request_frame opc uid payload @ rest)" using lt by simp
    then have ne: "sk_in sk \<noteq> []" using prems(4) by (metis append_Nil2 less_irrefl)
    from lt have "0 < k - cn_rbuf_pos c" by simp
    from sock_read_flow [OF prems(3) ne this] obtain bs sk' where
      rd: "sock_read (k - cn_rbuf_pos c) sk = (ReadBytes bs, sk')" "bs \<noteq> []" "reads_flow sk'" by blast
    note b = sock_read_bytes [OF rd(1)]
    let ?c1 = "c\<lparr>cn_rbuf := blit (cn_rbuf c) (cn_rbuf_pos c) bs, cn_rbuf_pos := cn_rbuf_pos c + length bs\<rparr>"
    note fs = fill_step [OF prems(1) Some lt b(2)]
    have "received ?c1 @ sk_in sk' = request_frame opc uid payload @ rest"
      using fs(1) b(1) prems(4) by simp
    moreover have "length (cn_rbuf ?c1) = 32" using fs(2) by (simp add: conn_sizes_def)
    ultimately obtain c' where ar: "after_read ?c1 = Some c'" using after_read_frame [OF prems(5)] by blast
    note ai = after_read_inv [OF prems(1) Some lt b(2) ar]
    have "read_loop c sk = read_loop c' sk'"
      using lt rd ar by (subst read_loop.simps) (simp add: Some)
    moreover have "received c' @ sk_in sk' = request_frame opc uid payload @ rest"
      using ai(2) b(1) prems(4) by simp
    ultimately show ?thesis
      using 1(1) [OF Some _ rd(1) [symmetric] refl rd(2) ar ai(1) _ rd(3) _ prems(5)] lt ai(3) by auto
  qed
qed

text \<open>However the bytes of a request are cut, the loop delivers exactly that request.\<close>

lemma read_loop_complete:
  assumes "conn_inv n c" and "cn_state c \<in> {ReadHeader, ReadPayload}" and "reads_flow sk"
    and "received c @ sk_in sk = request_frame opc uid payload @ rest" and "payload_ok opc payload"
  shows "\<exists>c' sk'. read_loop c sk = ReadBreak c' sk' \<and> conn_inv n c' \<and> cn_state c' = Process
     \<and> received c' = request_frame opc uid payload \<and> sk_in sk' = rest"
proof -
  from read_loop_break [OF assms(1) _ assms(3-5)] assms(2) obtain c' sk' where
    r: "read_loop c sk = ReadBreak c' sk'" by blast
  have ok: "conn_inv n c'" "cn_state c' = Process" "received c' @ sk_in sk' = request_frame opc uid payload @ rest"
    using read_loop_ok [OF assms(1), of sk] assms(2,4) by (auto simp: r read_ok_def)
  have l32: "length (cn_rbuf c') = 32" and p9: "9 \<le> cn_rbuf_pos c'"
    using ok(1,2) by (auto simp: conn_inv_def conn_sizes_def)
  have "unat (header_payload_len c') = length payload"
    by (rule frame_validates(2) [OF assms(5) received_header [OF ok(3) p9 l32]])
  then have "length (received c') = length (request_frame opc uid payload)"
    using ok(1,2) received_length [OF ok(1)] by (simp add: conn_inv_def)
  with ok r show ?thesis by simp
qed

section \<open>Writing\<close>

text \<open>
  The bytes sent so far and the bytes still in the buffer always make up the same stream; the
  loop completes only when the whole response is sent.
\<close>

definition write_ok :: "nat \<Rightarrow> bytes \<Rightarrow> write_loop_result \<Rightarrow> bool" where
  "write_ok n all r \<longleftrightarrow>
     (case r of
        WriteComplete c sk \<Rightarrow> conn_inv n c \<and> cn_state c = ReadHeader \<and> cn_rbuf_pos c = 0 \<and> sk_out sk = all
      | WriteReturn c sk \<Rightarrow> conn_inv n c \<and> cn_state c = WriteResponse \<and> sk_out sk @ conn_output c = all
      | WriteClose sk \<Rightarrow> \<exists>lost. sk_out sk @ lost = all
      | WriteBreak c sk \<Rightarrow> False
      | WritePanic p \<Rightarrow> False)"

lemma conn_output_advance:
  "k \<le> length (conn_output c) \<Longrightarrow>
   conn_output (c\<lparr>cn_wbuf_pos := cn_wbuf_pos c + k\<rparr>) = drop k (conn_output c)"
  by (simp add: conn_output_def slice_drop_take add.commute)

lemma write_loop_ok:
  assumes "conn_inv n c" and "cn_state c = WriteResponse"
  shows "write_ok n (sk_out sk @ conn_output c) (write_loop c sk)"
  using assms
proof (induction c sk rule: write_loop.induct)
  case (1 c sk)
  have w: "cn_wbuf_pos c < cn_wbuf_len c" "cn_wbuf_len c \<le> length (cn_wbuf c)"
    using 1(2,3) by (simp_all add: conn_inv_def)
  have len: "length (conn_output c) = cn_wbuf_len c - cn_wbuf_pos c"
    using w by (simp add: conn_output_def)
  obtain a sk' where wr: "sock_write (conn_output c) sk = (a, sk')" by fastforce
  note unf = write_loop.simps [of c sk, folded conn_output_def]
  show ?case
  proof (cases a)
    case (Wrote k)
    note ww = sock_write_wrote [OF wr [unfolded Wrote]]
    have k: "0 < k" "k \<le> cn_wbuf_len c - cn_wbuf_pos c"
      using ww(1) len w by (auto intro!: ww(2))
    let ?c1 = "c\<lparr>cn_wbuf_pos := cn_wbuf_pos c + k\<rparr>"
    show ?thesis
    proof (cases "cn_wbuf_pos c + k = cn_wbuf_len c")
      case True
      with len have "take k (conn_output c) = conn_output c" by simp
      with True w 1(2,3) wr Wrote ww(3) show ?thesis
        by (simp add: unf write_ok_def conn_inv_def conn_sizes_def)
    next
      case False
      have eq: "write_loop c sk = write_loop ?c1 sk'"
        using False w 1(3) wr Wrote by (simp add: unf)
      have inv1: "conn_inv n ?c1" using 1(2,3) k False w by (simp add: conn_inv_def conn_sizes_def)
      have out: "sk_out sk' @ conn_output ?c1 = sk_out sk @ conn_output c"
        using k len by (simp add: ww(3) conn_output_advance)
      have "write_ok n (sk_out sk' @ conn_output ?c1) (write_loop ?c1 sk')"
        using 1(1) [OF _ _ refl _ _ wr [unfolded conn_output_def, symmetric] Wrote refl] inv1 1(3) w False
        by simp
      then show ?thesis by (simp only: eq out)
    qed
  next
    case WriteAgain
    with wr w 1(2,3) sock_write_other [OF wr] show ?thesis by (simp add: unf write_ok_def)
  next
    case WriteError
    with wr w 1(3) sock_write_other [OF wr] show ?thesis by (simp add: unf write_ok_def)
  qed
qed

section \<open>The number of system calls\<close>

text \<open>Every call of \<^verbatim>\<open>read\<close> or \<^verbatim>\<open>write\<close> takes one answer from the script of the socket.\<close>

fun read_sock :: "read_result \<Rightarrow> socket" where
  "read_sock (ReadBreak c sk) = sk"
| "read_sock (ReadReturn c sk) = sk"
| "read_sock (ReadClose sk) = sk"

fun write_sock :: "write_loop_result \<Rightarrow> socket option" where
  "write_sock (WriteComplete c sk) = Some sk"
| "write_sock (WriteBreak c sk) = Some sk"
| "write_sock (WriteReturn c sk) = Some sk"
| "write_sock (WriteClose sk) = Some sk"
| "write_sock (WritePanic p) = None"

lemma sock_read_script: "sock_read k sk = (a, sk') \<Longrightarrow> length (sk_reads sk) \<le> Suc (length (sk_reads sk'))"
  by (auto simp: sock_read_def sock_take_def split: list.splits read_event.splits if_splits)

lemma sock_write_script: "sock_write bs sk = (a, sk') \<Longrightarrow> length (sk_writes sk) \<le> Suc (length (sk_writes sk'))"
  by (auto simp: sock_write_def split: list.splits write_event.splits)

lemma read_loop_calls:
  assumes "conn_inv n c" and "cn_state c \<in> {ReadHeader, ReadPayload, Process}"
  shows "length (sk_reads sk) \<le> length (sk_reads (read_sock (read_loop c sk))) + (26 - cn_rbuf_pos c)"
  using assms
proof (induction c sk rule: read_loop.induct)
  case (1 c sk)
  show ?case
  proof (cases "read_needed c")
    case None
    then show ?thesis by (subst read_loop.simps) simp
  next
    case (Some k)
    note lt = conn_inv_needed [OF 1(2) Some] and le = read_needed_bound [OF 1(2) Some]
    obtain a sk' where rd: "sock_read (k - cn_rbuf_pos c) sk = (a, sk')" by fastforce
    note sc = sock_read_script [OF rd]
    show ?thesis
    proof (cases "\<exists>bs c'. a = ReadBytes bs \<and> bs \<noteq> []
        \<and> after_read (c\<lparr>cn_rbuf := blit (cn_rbuf c) (cn_rbuf_pos c) bs, cn_rbuf_pos := cn_rbuf_pos c + length bs\<rparr>) = Some c'")
      case True
      then obtain bs c' where b: "a = ReadBytes bs" "bs \<noteq> []"
        "after_read (c\<lparr>cn_rbuf := blit (cn_rbuf c) (cn_rbuf_pos c) bs, cn_rbuf_pos := cn_rbuf_pos c + length bs\<rparr>) = Some c'"
        by blast
      note bl = sock_read_bytes(2) [OF rd [unfolded b(1)]]
      note ai = after_read_inv [OF 1(2) Some lt bl b(3)]
      have pos: "cn_rbuf_pos c' = cn_rbuf_pos c + length bs" using after_read_fields [OF b(3)] by simp
      have "read_loop c sk = read_loop c' sk'" using lt b by (subst read_loop.simps) (simp add: Some rd)
      moreover have "length (sk_reads sk') \<le> length (sk_reads (read_sock (read_loop c' sk'))) + (26 - cn_rbuf_pos c')"
        using 1(1) [OF Some _ rd [symmetric] b(1,2,3)] lt ai by auto
      moreover have "0 < length bs" using b(2) by simp
      moreover have "cn_rbuf_pos c + length bs \<le> 26" using bl le lt by linarith
      ultimately show ?thesis using sc pos by (simp only:)
    next
      case False
      then have "read_sock (read_loop c sk) = sk'"
        using lt by (subst read_loop.simps) (auto simp: Some rd split: read_answer.split option.split)
      then show ?thesis using sc lt le by simp
    qed
  qed
qed

lemma write_loop_calls:
  assumes "cn_wbuf_pos c \<le> cn_wbuf_len c" and "cn_wbuf_len c \<le> length (cn_wbuf c)"
  shows "\<exists>sk'. write_sock (write_loop c sk) = Some sk'
     \<and> length (sk_writes sk) \<le> length (sk_writes sk') + (cn_wbuf_len c - cn_wbuf_pos c)"
  using assms
proof (induction c sk rule: write_loop.induct)
  case (1 c sk)
  let ?out = "slice (cn_wbuf_pos c) (cn_wbuf_len c) (cn_wbuf c)"
  obtain a sk' where wr: "sock_write ?out sk = (a, sk')" by fastforce
  note sc = sock_write_script [OF wr]
  show ?case
  proof (cases "cn_state c = WriteResponse \<and> cn_wbuf_pos c < cn_wbuf_len c")
    case False
    then show ?thesis using 1(2) by (subst write_loop.simps) (auto simp: Let_def)
  next
    case True
    show ?thesis
    proof (cases "\<exists>k. a = Wrote k \<and> cn_wbuf_pos c + k \<noteq> cn_wbuf_len c")
      case again: True
      then obtain k where k: "a = Wrote k" "cn_wbuf_pos c + k \<noteq> cn_wbuf_len c" by blast
      let ?c1 = "c\<lparr>cn_wbuf_pos := cn_wbuf_pos c + k\<rparr>"
      have k0: "0 < k" using sock_write_pos [OF wr [unfolded k(1)]] True 1(3) by simp
      have kl: "cn_wbuf_pos c + k \<le> cn_wbuf_len c"
        using sock_write_wrote(1) [OF wr [unfolded k(1)]] True 1(3) by (simp add: le_diff_conv2)
      have eq: "write_loop c sk = write_loop ?c1 sk'"
        using True k wr 1(3) by (subst write_loop.simps) (simp add: Let_def)
      from 1(1) [OF _ _ refl _ _ wr [symmetric] k(1) refl] True k kl 1(3) obtain sk2 where
        "write_sock (write_loop ?c1 sk') = Some sk2"
        "length (sk_writes sk') \<le> length (sk_writes sk2) + (cn_wbuf_len c - (cn_wbuf_pos c + k))" by auto
      then show ?thesis using sc k0 kl unfolding eq by auto
    next
      case False
      then have "write_sock (write_loop c sk) = Some sk'"
        using True wr 1(3) by (subst write_loop.simps) (auto simp: Let_def split: write_answer.split)
      moreover have "Suc 0 \<le> cn_wbuf_len c - cn_wbuf_pos c" using True by linarith
      ultimately show ?thesis using sc by (intro exI [of _ sk'] conjI) (assumption, linarith)
    qed
  qed
qed

section \<open>Properties\<close>

text \<open>A DEL request that the network delivers in three pieces.\<close>

definition sample_socket :: socket where
  "sample_socket = \<lparr>sk_in = request_frame OPCODE_DEL 258 [] @ [9, 9], sk_eof = False,
     sk_reads = [RLimit 3, RLimit 0, RLimit 6], sk_out = [], sk_writes = [WLimit 1, WInterrupted]\<rparr>"

text \<open>
  C20: a complete request is recognised however the network cuts it, also when part of it arrived
  earlier: the read loop ends with exactly that request in the buffer, ready to be processed, and
  the bytes of the next request still in the socket.
\<close>

theorem request_framing:
  assumes "conn_inv n c" and "cn_state c \<in> {ReadHeader, ReadPayload}" and "reads_flow sk"
    and "received c @ sk_in sk = request_frame opc uid payload @ rest" and "payload_ok opc payload"
  shows "\<exists>c' sk'. read_loop c sk = ReadBreak c' sk' \<and> cn_state c' = Process
     \<and> received c' = request_frame opc uid payload \<and> sk_in sk' = rest"
  using read_loop_complete [OF assms] by blast

theorem request_framing_witness:
  "\<exists>c' sk'. read_loop (connection_new 2 (\<lambda>_. 0) 5) sample_socket = ReadBreak c' sk'
     \<and> received c' = request_frame OPCODE_DEL 258 [] \<and> sk_in sk' = [9, 9]"
proof -
  let ?c = "connection_new 2 (\<lambda>_. 0) 5"
  have "cn_state ?c \<in> {ReadHeader, ReadPayload}" "received ?c = []" "reads_flow sample_socket"
    "payload_ok OPCODE_DEL []"
    by (simp_all add: connection_new_def received_def reads_flow_def sample_socket_def payload_ok_def
        expected_payload_def const_defs)
  then show ?thesis
    using request_framing [OF conn_inv_new [of 2 "\<lambda>_. 0" 5], of sample_socket OPCODE_DEL 258 "[]" "[9, 9]"]
    by (auto simp: sample_socket_def)
qed

text \<open>
  C22: reading never loses, duplicates or reorders bytes and never writes beyond byte 26 of the
  32-byte read buffer: whatever the socket answers, the bytes received so far followed by the bytes
  still in the socket are the same stream before and after, unless the connection is closed.
\<close>

theorem reading_keeps_stream:
  assumes "conn_inv n c" and "cn_state c \<in> {ReadHeader, ReadPayload}"
  shows "(\<forall>k. read_needed c = Some k \<longrightarrow> cn_rbuf_pos c < k \<and> k \<le> 26 \<and> k \<le> length (cn_rbuf c))
     \<and> (case read_loop c sk of
          ReadBreak c' sk' \<Rightarrow> conn_inv n c' \<and> cn_state c' = Process
            \<and> received c' @ sk_in sk' = received c @ sk_in sk
        | ReadReturn c' sk' \<Rightarrow> conn_inv n c' \<and> received c' @ sk_in sk' = received c @ sk_in sk
        | ReadClose sk' \<Rightarrow> True)"
proof -
  have "length (cn_rbuf c) = 32" using assms(1) by (simp add: conn_inv_def conn_sizes_def)
  then have "\<forall>k. read_needed c = Some k \<longrightarrow> cn_rbuf_pos c < k \<and> k \<le> 26 \<and> k \<le> length (cn_rbuf c)"
    using conn_inv_needed [OF assms(1)] read_needed_bound [OF assms(1)] by fastforce
  moreover have "read_ok n (received c @ sk_in sk) (read_loop c sk)"
    using assms by (intro read_loop_ok) auto
  ultimately show ?thesis by (auto simp: read_ok_def split: read_result.splits)
qed

theorem reading_keeps_stream_witness:
  "read_needed (connection_new 2 (\<lambda>_. 0) 5) = Some 9 \<and> (9 :: nat) \<le> length (cn_rbuf (connection_new 2 (\<lambda>_. 0) 5))"
  using reading_keeps_stream [OF conn_inv_new [of 2 "\<lambda>_. 0" 5], of sample_socket]
  by (simp add: connection_new_def read_needed_def)

text \<open>
  C21: sending a response never loses, duplicates or reorders bytes and never panics: when the loop
  completes, the socket got exactly the rest of the response and the connection waits for the next
  request; when the socket blocks, sent and unsent bytes together are still the response.
\<close>

theorem response_delivery:
  assumes "conn_inv n c" and "cn_state c = WriteResponse"
  shows "(case write_loop c sk of
            WriteComplete c' sk' \<Rightarrow> sk_out sk' = sk_out sk @ conn_output c \<and> cn_state c' = ReadHeader
              \<and> conn_inv n c' \<and> received c' = []
          | WriteReturn c' sk' \<Rightarrow> sk_out sk' @ conn_output c' = sk_out sk @ conn_output c \<and> conn_inv n c'
          | WriteClose sk' \<Rightarrow> \<exists>lost. sk_out sk' @ lost = sk_out sk @ conn_output c
          | WriteBreak c' sk' \<Rightarrow> False
          | WritePanic p \<Rightarrow> False)"
  using write_loop_ok [OF assms, of sk] by (auto simp: write_ok_def received_def split: write_loop_result.splits)

theorem response_delivery_witness:
  "case write_loop (write_ok_response (connection_new 2 (\<lambda>_. 0) 5)) sample_socket of
     WriteReturn c' sk' \<Rightarrow> sk_out sk' @ conn_output c' = response_frame STATUS_OK [] | _ \<Rightarrow> False"
proof -
  let ?c = "write_ok_response (connection_new 2 (\<lambda>_. 0) 5)"
  note wr = write_response_frame [OF conn_sizes_new [of 2 "\<lambda>_. 0" 5], of STATUS_OK]
  have inv: "conn_inv 2 ?c" and st: "cn_state ?c = WriteResponse"
    using wr WBUF_SIZE_min [of 2] by (auto simp: conn_inv_def write_ok_response_def conn_sizes_def)
  have out: "conn_output ?c = response_frame STATUS_OK []" using wr(2) by (simp add: write_ok_response_def)
  have len: "length (response_frame STATUS_OK []) = 5" by (simp add: response_frame_def)
  have "\<exists>c' sk'. write_loop ?c sample_socket = WriteReturn c' sk'"
    using inv st out len
    by (simp add: write_loop.simps [of ?c sample_socket, folded conn_output_def] conn_inv_def write_loop.simps
        sock_write_def sample_socket_def write_ok_response_def write_response_def Let_def)
  then obtain c' sk' where "write_loop ?c sample_socket = WriteReturn c' sk'" by blast
  with response_delivery [OF inv st, of sample_socket] out show ?thesis by (simp add: sample_socket_def)
qed

text \<open>
  C23: the loops end after a bounded number of system calls, whatever the socket answers: reading a
  request takes at most 26 calls of \<^verbatim>\<open>read\<close>, one for each byte still missing in the worst case, and
  sending a response at most one call of \<^verbatim>\<open>write\<close> for each byte, without a panic.
\<close>

theorem io_loops_bounded:
  assumes "conn_inv n c"
  shows "(cn_state c \<in> {ReadHeader, ReadPayload} \<longrightarrow>
           length (sk_reads sk) \<le> length (sk_reads (read_sock (read_loop c sk))) + (26 - cn_rbuf_pos c))
     \<and> (cn_state c = WriteResponse \<longrightarrow>
           (\<exists>sk'. write_sock (write_loop c sk) = Some sk'
              \<and> length (sk_writes sk) \<le> length (sk_writes sk') + (cn_wbuf_len c - cn_wbuf_pos c)))"
proof (intro conjI impI)
  show "length (sk_reads sk) \<le> length (sk_reads (read_sock (read_loop c sk))) + (26 - cn_rbuf_pos c)"
    if "cn_state c \<in> {ReadHeader, ReadPayload}" using read_loop_calls [OF assms] that by auto
  show "\<exists>sk'. write_sock (write_loop c sk) = Some sk'
      \<and> length (sk_writes sk) \<le> length (sk_writes sk') + (cn_wbuf_len c - cn_wbuf_pos c)"
    if "cn_state c = WriteResponse"
    using write_loop_calls [of c sk] assms that by (simp add: conn_inv_def)
qed

theorem io_loops_bounded_witness:
  "74 \<le> length (sk_reads (read_sock (read_loop (connection_new 2 (\<lambda>_. 0) 5)
      (sample_socket\<lparr>sk_reads := replicate 100 (RLimit 0)\<rparr>))))"
proof -
  have "cn_state (connection_new 2 (\<lambda>_. 0) 5) = ReadHeader" "cn_rbuf_pos (connection_new 2 (\<lambda>_. 0) 5) = 0"
    by (simp_all add: connection_new_def)
  then show ?thesis
    using io_loops_bounded [OF conn_inv_new [of 2 "\<lambda>_. 0" 5], of "sample_socket\<lparr>sk_reads := replicate 100 (RLimit 0)\<rparr>"]
    by simp
qed

end
