(* ===== verification/Record_Wire.thy ===== *)
theory Record_Wire
  imports Prelude
begin

text \<open>
  The event record of \<^verbatim>\<open>src/record.rs\<close>: a packed struct of 17 bytes whose memory image is its
  wire format. The \<^verbatim>\<open>transmute\<close> calls between \<^verbatim>\<open>Record\<close> and \<^verbatim>\<open>[u8; 17]\<close> in
  commands, AOF, snapshot and recovery are the two functions of the codec below, on the
  little-endian target that the specification fixes.
\<close>

record event_record =
  event_type :: u8
  timestamp :: u64
  url_hash :: u64

definition record_size :: nat where
  "record_size = 17"

definition record_to_bytes :: "event_record \<Rightarrow> bytes" where
  "record_to_bytes r =
     [event_type r] @ u64_to_le_bytes (timestamp r) @ u64_to_le_bytes (url_hash r)"

definition record_from_bytes :: "bytes \<Rightarrow> event_record" where
  "record_from_bytes bs =
     \<lparr>event_type = bs ! 0,
      timestamp = u64_from_le_bytes (slice 1 9 bs),
      url_hash = u64_from_le_bytes (slice 9 17 bs)\<rparr>"

definition default_record :: event_record where
  "default_record = \<lparr>event_type = 0, timestamp = 0, url_hash = 0\<rparr>"

lemma record_roundtrip: "record_from_bytes (record_to_bytes r) = r"
  by (simp add: record_from_bytes_def record_to_bytes_def slice_def)

lemma record_split:
  assumes "length bs = 17"
  shows "bs = [bs ! 0] @ slice 1 9 bs @ slice 9 17 bs"
proof -
  have "bs = take 1 bs @ slice 1 9 bs @ slice 9 17 bs"
    using assms take_slice_split [of 1 9 bs] take_slice_split [of 9 17 bs] by simp
  moreover have "take 1 bs = [bs ! 0]"
    using assms by (cases bs) simp_all
  ultimately show ?thesis by simp
qed

lemma record_roundtrip_bytes:
  assumes "length bs = 17"
  shows "record_to_bytes (record_from_bytes bs) = bs"
  using assms record_split [OF assms]
  by (simp add: record_from_bytes_def record_to_bytes_def u64c.enc_dec)

interpretation recc: fixed_codec record_to_bytes record_from_bytes 17
proof unfold_locales
  fix r show "length (record_to_bytes r) = 17"
    by (simp add: record_to_bytes_def)
qed (simp_all add: record_roundtrip record_roundtrip_bytes)

lemmas record_codec [simp, codec_simps] = recc.length_enc recc.dec_enc

section \<open>Slices of records over byte buffers\<close>

text \<open>
  \<^verbatim>\<open>slice::from_raw_parts_mut(ptr as *mut Record, k)\<close>: the bytes of a buffer seen as \<open>k\<close>
  packed records, and back.
\<close>

primrec bytes_as_records :: "nat \<Rightarrow> bytes \<Rightarrow> event_record list" where
  "bytes_as_records 0 bs = []"
| "bytes_as_records (Suc k) bs = record_from_bytes (take 17 bs) # bytes_as_records k (drop 17 bs)"

definition records_as_bytes :: "event_record list \<Rightarrow> bytes" where
  "records_as_bytes rs = concat (map record_to_bytes rs)"

lemma length_bytes_as_records [simp]: "length (bytes_as_records k bs) = k"
  by (induction k arbitrary: bs) simp_all

lemma length_records_as_bytes [simp, codec_simps]:
  "length (records_as_bytes rs) = 17 * length rs"
  by (simp add: records_as_bytes_def recc.length_concat_enc)

lemma bytes_as_records_roundtrip:
  "bytes_as_records (length rs) (records_as_bytes rs @ rest) = rs"
  by (induction rs) (simp_all add: records_as_bytes_def)

section \<open>Properties\<close>

text \<open>
  The memory image of a record is a bijection with the byte strings of length 17: converting a
  record to bytes and back, and 17 bytes to a record and back, changes nothing.
\<close>

lemma record_codec_bijective:
  assumes "length bs = 17"
  shows "record_to_bytes (record_from_bytes bs) = bs \<and> record_from_bytes (record_to_bytes r) = r
     \<and> length (record_to_bytes r) = record_size"
  by (simp add: recc.enc_dec [OF assms] record_size_def)

end
