(* ===== verification/Memory.thy ===== *)
theory Memory
  imports Record_Wire
begin

text \<open>
  The raw memory behind the \<^verbatim>\<open>unsafe\<close> code. Slots of the slab and of the memory pool, the
  free-list links inside free slots and the records inside live slots share one byte-addressed
  memory; pointers are addresses and the null pointer is 0. The lemmas are the frame rules:
  a read sees the last overlapping write and no other.
\<close>

type_synonym mem = "addr \<Rightarrow> u8"

definition read_bytes :: "mem \<Rightarrow> addr \<Rightarrow> nat \<Rightarrow> bytes" where
  "read_bytes m a n = map (\<lambda>i. m (a + i)) [0..<n]"

definition write_bytes :: "mem \<Rightarrow> addr \<Rightarrow> bytes \<Rightarrow> mem" where
  "write_bytes m a bs = (\<lambda>x. if a \<le> x \<and> x < a + length bs then bs ! (x - a) else m x)"

text \<open>Two byte ranges that do not meet.\<close>

definition disjoint_ranges :: "addr \<Rightarrow> nat \<Rightarrow> addr \<Rightarrow> nat \<Rightarrow> bool" where
  "disjoint_ranges a n b k \<longleftrightarrow> a + n \<le> b \<or> b + k \<le> a"

lemma disjoint_ranges_mono:
  "disjoint_ranges a n b k \<Longrightarrow> n' \<le> n \<Longrightarrow> k' \<le> k \<Longrightarrow> disjoint_ranges a n' b k'"
  by (auto simp: disjoint_ranges_def)

lemma length_read_bytes [simp, mem_simps]: "length (read_bytes m a n) = n"
  by (simp add: read_bytes_def)

lemma read_write_same [mem_simps]: "read_bytes (write_bytes m a bs) a (length bs) = bs"
  by (rule nth_equalityI) (simp_all add: read_bytes_def write_bytes_def)

lemma read_write_disjoint [mem_simps]:
  assumes "disjoint_ranges a n b (length bs)"
  shows "read_bytes (write_bytes m b bs) a n = read_bytes m a n"
  using assms by (auto simp: read_bytes_def write_bytes_def disjoint_ranges_def)

lemma write_bytes_outside:
  "x < a \<or> a + length bs \<le> x \<Longrightarrow> write_bytes m a bs x = m x"
  by (auto simp: write_bytes_def)

section \<open>Pointers and records in memory\<close>

definition write_ptr :: "mem \<Rightarrow> addr \<Rightarrow> addr \<Rightarrow> mem" where
  "write_ptr m a p = write_bytes m a (to_le 8 p)"

definition read_ptr :: "mem \<Rightarrow> addr \<Rightarrow> addr" where
  "read_ptr m a = from_le (read_bytes m a 8)"

definition write_record :: "mem \<Rightarrow> addr \<Rightarrow> event_record \<Rightarrow> mem" where
  "write_record m a r = write_bytes m a (record_to_bytes r)"

definition read_record :: "mem \<Rightarrow> addr \<Rightarrow> event_record" where
  "read_record m a = record_from_bytes (read_bytes m a 17)"

lemma read_write_ptr [mem_simps]: "p < 2 ^ 64 \<Longrightarrow> read_ptr (write_ptr m a p) a = p"
  using read_write_same [of m a "to_le 8 p"]
  by (simp add: read_ptr_def write_ptr_def from_le_to_le)

lemma read_ptr_write_ptr_disjoint [mem_simps]:
  "disjoint_ranges a 8 b 8 \<Longrightarrow> read_ptr (write_ptr m b p) a = read_ptr m a"
  by (simp add: read_ptr_def write_ptr_def read_write_disjoint)

lemma read_ptr_write_record_disjoint [mem_simps]:
  "disjoint_ranges a 8 b 17 \<Longrightarrow> read_ptr (write_record m b r) a = read_ptr m a"
  by (simp add: read_ptr_def write_record_def read_write_disjoint)

lemma read_record_write_ptr_disjoint [mem_simps]:
  "disjoint_ranges a 17 b 8 \<Longrightarrow> read_record (write_ptr m b p) a = read_record m a"
  by (simp add: read_record_def write_ptr_def read_write_disjoint)

lemma read_write_record [mem_simps]: "read_record (write_record m a r) a = r"
  using read_write_same [of m a "record_to_bytes r"]
  by (simp add: read_record_def write_record_def)

lemma read_write_record_disjoint [mem_simps]:
  "disjoint_ranges a 17 b 17 \<Longrightarrow> read_record (write_record m b r) a = read_record m a"
  by (simp add: read_record_def write_record_def read_write_disjoint)

text \<open>Agreement of two memories on a byte range.\<close>

definition same_range :: "mem \<Rightarrow> mem \<Rightarrow> addr \<Rightarrow> nat \<Rightarrow> bool" where
  "same_range m m' a n \<longleftrightarrow> read_bytes m a n = read_bytes m' a n"

lemma same_range_iff: "same_range m m' a n \<longleftrightarrow> (\<forall>x. a \<le> x \<and> x < a + n \<longrightarrow> m x = m' x)"
proof
  assume h: "same_range m m' a n"
  show "\<forall>x. a \<le> x \<and> x < a + n \<longrightarrow> m x = m' x"
  proof (intro allI impI)
    fix x assume x: "a \<le> x \<and> x < a + n"
    from h have "read_bytes m a n ! (x - a) = read_bytes m' a n ! (x - a)"
      by (simp add: same_range_def)
    moreover from x have "x - a < n" by linarith
    ultimately show "m x = m' x" using x by (simp add: read_bytes_def)
  qed
next
  assume "\<forall>x. a \<le> x \<and> x < a + n \<longrightarrow> m x = m' x"
  then show "same_range m m' a n" by (simp add: same_range_def read_bytes_def)
qed

lemma same_range_refl [simp]: "same_range m m a n"
  by (simp add: same_range_def)

lemma same_range_write_bytes:
  "disjoint_ranges a n b (length bs) \<Longrightarrow> same_range (write_bytes m b bs) m a n"
  by (simp add: same_range_def read_write_disjoint)

lemma same_range_read_ptr: "same_range m m' a n \<Longrightarrow> 8 \<le> n \<Longrightarrow> read_ptr m a = read_ptr m' a"
  by (auto simp: same_range_iff read_ptr_def read_bytes_def intro!: arg_cong [of _ _ from_le])

lemma same_range_read_record:
  assumes "same_range m m' a n" and "a \<le> b" and "b + 17 \<le> a + n"
  shows "read_record m b = read_record m' b"
proof -
  have "read_bytes m b 17 = read_bytes m' b 17"
    using assms by (auto simp: same_range_iff read_bytes_def)
  then show ?thesis by (simp add: read_record_def)
qed

end
