(* ===== verification/Memory_Pool.thy ===== *)
theory Memory_Pool
  imports Memory
begin

text \<open>
  \<^verbatim>\<open>src/memory_pool.rs\<close>: the pre-allocated pool with an intrusive free list. The links of
  the list live in the first 8 bytes of the free slots, so the list is a chain through the
  byte memory.

  The locale \<open>slot_allocator\<close> is what the store relies on: slots are disjoint, an allocation
  pops the free list, a release pushes on it and touches only the released slot, and writes
  outside the free slots leave the list alone. Its client lemmas are about the partition of the
  slots into free and live ones. The pool interprets it here; the store's own allocator
  interprets it in theory \<open>Store_Alloc\<close>.
\<close>

section \<open>The free list in memory\<close>

text \<open>
  The loop that links the slots, common to \<^verbatim>\<open>MemoryPool::new\<close> and to the slab branch of
  \<^verbatim>\<open>StoreAlloc::new\<close>: slot \<open>i\<close> stores the address of slot \<open>i + 1\<close>, the last one null.
\<close>

primrec build_free_list :: "addr \<Rightarrow> nat \<Rightarrow> nat \<Rightarrow> nat \<Rightarrow> mem \<Rightarrow> mem" where
  "build_free_list base slot_size total_slots 0 m = m"
| "build_free_list base slot_size total_slots (Suc i) m =
     write_ptr (build_free_list base slot_size total_slots i m) (base + i * slot_size)
       (if i + 1 < total_slots then base + (i + 1) * slot_size else 0)"

text \<open>\<open>fl_chain m p as\<close>: following the links from \<open>p\<close> visits the slots \<open>as\<close> and ends in null.\<close>

primrec fl_chain :: "mem \<Rightarrow> addr \<Rightarrow> addr list \<Rightarrow> bool" where
  "fl_chain m p [] \<longleftrightarrow> p = 0"
| "fl_chain m p (a # as) \<longleftrightarrow> p = a \<and> a \<noteq> 0 \<and> fl_chain m (read_ptr m a) as"

definition slot_addrs :: "addr \<Rightarrow> nat \<Rightarrow> nat \<Rightarrow> addr list" where
  "slot_addrs base slot_size total_slots = map (\<lambda>i. base + i * slot_size) [0..<total_slots]"

text \<open>What the allocation call of the operating system guarantees of the region it returns.\<close>

definition region_ok :: "addr \<Rightarrow> nat \<Rightarrow> nat \<Rightarrow> bool" where
  "region_ok base slot_size total_slots \<longleftrightarrow> 0 < base \<and> 8 \<le> slot_size \<and> base + total_slots * slot_size \<le> 2 ^ 64"

lemma slot_addrs_apart:
  assumes "a \<in> set (slot_addrs base w t)" and "b \<in> set (slot_addrs base w t)" and "a \<noteq> b"
  shows "disjoint_ranges a w b w"
proof -
  from assms obtain i j where ij: "a = base + i * w" "b = base + j * w" "i \<noteq> j"
    by (auto simp: slot_addrs_def)
  show ?thesis
  proof (cases "i < j")
    case True
    then have "(i + 1) * w \<le> j * w" by (intro mult_le_mono1) simp
    with ij show ?thesis by (simp add: disjoint_ranges_def)
  next
    case False
    with ij have "(j + 1) * w \<le> i * w" by (intro mult_le_mono1) simp
    with ij show ?thesis by (simp add: disjoint_ranges_def)
  qed
qed

lemma slot_addrs_range:
  assumes "a \<in> set (slot_addrs base w t)"
  shows "base \<le> a" and "a + w \<le> base + t * w"
proof -
  from assms have "a \<in> (\<lambda>i. base + i * w) ` {0..<t}" by (simp add: slot_addrs_def)
  then obtain i where "a = base + i * w" and "i \<in> {0..<t}" by blast
  then have i: "a = base + i * w" "i < t" by simp_all
  then have "(i + 1) * w \<le> t * w" by (intro mult_le_mono1) simp
  with i show "base \<le> a" and "a + w \<le> base + t * w" by simp_all
qed

lemma distinct_slot_addrs: "0 < w \<Longrightarrow> distinct (slot_addrs base w t)"
  by (simp add: slot_addrs_def distinct_map inj_on_def)

lemma slot_addrs_less:
  "region_ok base w t \<Longrightarrow> a \<in> set (slot_addrs base w t) \<Longrightarrow> 0 < a \<and> a < 2 ^ 64"
  using slot_addrs_range [of a base w t] by (auto simp: region_ok_def)

lemma fl_chain_nonzero: "fl_chain m p as \<Longrightarrow> a \<in> set as \<Longrightarrow> a \<noteq> 0"
  by (induction as arbitrary: p) auto

lemma fl_chain_frame:
  "fl_chain m p as \<Longrightarrow> (\<And>a. a \<in> set as \<Longrightarrow> read_ptr m' a = read_ptr m a) \<Longrightarrow> fl_chain m' p as"
  by (induction as arbitrary: p) auto

section \<open>What the initial loop builds\<close>

lemma build_free_list_read:
  assumes "region_ok base w t" and "i < k" and "k \<le> t"
  shows "read_ptr (build_free_list base w t k m) (base + i * w)
       = (if i + 1 < t then base + (i + 1) * w else 0)"
  using assms(2,3)
proof (induction k)
  case 0
  then show ?case by simp
next
  case (Suc k)
  have addr: "base + j * w \<in> set (slot_addrs base w t)" if "j < t" for j
    using that by (auto simp: slot_addrs_def)
  show ?case
  proof (cases "i = k")
    case True
    have "(if k + 1 < t then base + (k + 1) * w else 0) < 2 ^ 64"
      using slot_addrs_less [OF assms(1) addr [of "k + 1"]] by auto
    with True show ?thesis by (simp only: build_free_list.simps read_write_ptr)
  next
    case False
    then have "base + i * w \<noteq> base + k * w"
      using assms(1) by (auto simp: region_ok_def)
    then have "disjoint_ranges (base + i * w) w (base + k * w) w"
      using Suc.prems by (intro slot_addrs_apart [of _ base w t] addr) auto
    then have "disjoint_ranges (base + i * w) 8 (base + k * w) 8"
      using assms(1) by (auto simp: region_ok_def intro: disjoint_ranges_mono)
    with False Suc show ?thesis by (simp add: read_ptr_write_ptr_disjoint)
  qed
qed

lemma build_free_list_chain_from:
  assumes "region_ok base w t" and "i \<le> t"
  shows "fl_chain (build_free_list base w t t m) (if i < t then base + i * w else 0)
           (map (\<lambda>j. base + j * w) [i..<t])"
  using assms(2)
proof (induction "t - i" arbitrary: i)
  case 0
  then show ?case by simp
next
  case (Suc d)
  then have i: "i < t" by simp
  have "d = t - Suc i" using Suc.hyps(2) by simp
  then have "fl_chain (build_free_list base w t t m)
      (if Suc i < t then base + Suc i * w else 0) (map (\<lambda>j. base + j * w) [Suc i..<t])"
    using i by (intro Suc.hyps(1)) auto
  then have "fl_chain (build_free_list base w t t m)
      (read_ptr (build_free_list base w t t m) (base + i * w)) (map (\<lambda>j. base + j * w) [Suc i..<t])"
    using build_free_list_read [OF assms(1) i order_refl, of m] by (cases "Suc i < t") simp_all
  moreover have "base + i * w \<noteq> 0" using assms(1) by (simp add: region_ok_def)
  ultimately show ?case using i by (simp add: upt_conv_Cons)
qed

lemma build_free_list_chain:
  assumes "region_ok base w t" and "0 < t"
  shows "fl_chain (build_free_list base w t t m) base (slot_addrs base w t)"
  using build_free_list_chain_from [OF assms(1), of 0 m] assms(2)
  by (simp add: slot_addrs_def)

lemma build_free_list_frame:
  assumes "k \<le> t" and "8 \<le> w" and "x < base \<or> base + t * w \<le> x"
  shows "build_free_list base w t k m x = m x"
  using assms(1)
proof (induction k)
  case 0
  then show ?case by simp
next
  case (Suc k)
  have "base + k * w \<in> set (slot_addrs base w t)"
    using Suc.prems by (auto simp: slot_addrs_def)
  from slot_addrs_range [OF this] assms(2,3) have "x < base + k * w \<or> base + k * w + 8 \<le> x"
    by auto
  with Suc show ?case by (simp add: write_ptr_def write_bytes_outside)
qed

section \<open>The contract of a slot allocator\<close>

locale slot_allocator =
  fixes alloc :: "mem \<Rightarrow> 'p \<Rightarrow> panic + addr \<times> 'p"
    and free :: "mem \<Rightarrow> 'p \<Rightarrow> addr \<Rightarrow> mem \<times> 'p"
    and free_list :: "mem \<Rightarrow> 'p \<Rightarrow> addr list \<Rightarrow> bool"
    and slots :: "'p \<Rightarrow> addr list"
    and width :: nat
  assumes list_slots: "free_list m p fl \<Longrightarrow> set fl \<subseteq> set (slots p) \<and> distinct fl"
    and slots_distinct: "free_list m p fl \<Longrightarrow> distinct (slots p)"
    and slots_apart: "free_list m p fl \<Longrightarrow> a \<in> set (slots p) \<Longrightarrow> b \<in> set (slots p) \<Longrightarrow> a \<noteq> b
      \<Longrightarrow> disjoint_ranges a width b width"
    and alloc_Cons: "free_list m p (a # fl)
      \<Longrightarrow> \<exists>p'. alloc m p = Inr (a, p') \<and> free_list m p' fl \<and> slots p' = slots p"
    and alloc_Nil: "free_list m p [] \<Longrightarrow> \<exists>e. alloc m p = Inl e"
    and free_Cons: "free_list m p fl \<Longrightarrow> a \<in> set (slots p) \<Longrightarrow> a \<notin> set fl
      \<Longrightarrow> free m p a = (m', p') \<Longrightarrow> free_list m' p' (a # fl) \<and> slots p' = slots p"
    and free_frame: "free_list m p fl \<Longrightarrow> free m p a = (m', p')
      \<Longrightarrow> x < a \<or> a + width \<le> x \<Longrightarrow> m' x = m x"
    and list_frame: "free_list m p fl \<Longrightarrow> (\<And>a. a \<in> set fl \<Longrightarrow> same_range m m' a width)
      \<Longrightarrow> free_list m' p fl"
begin

text \<open>Every slot is either on the free list or live.\<close>

definition slot_partition :: "mem \<Rightarrow> 'p \<Rightarrow> addr list \<Rightarrow> addr set \<Rightarrow> bool" where
  "slot_partition m p fl live \<longleftrightarrow>
     free_list m p fl \<and> set fl \<inter> live = {} \<and> set fl \<union> live = set (slots p)"

lemma partition_alloc:
  assumes "slot_partition m p (a # fl) live"
  obtains p' where "alloc m p = Inr (a, p')" and "slot_partition m p' fl (insert a live)"
    and "slots p' = slots p" and "a \<notin> live" and "a \<in> set (slots p)"
proof -
  from assms have fl: "free_list m p (a # fl)" by (simp add: slot_partition_def)
  from alloc_Cons [OF fl] obtain p'
    where p': "alloc m p = Inr (a, p')" "free_list m p' fl" "slots p' = slots p" by blast
  moreover from list_slots [OF fl] assms p' have "slot_partition m p' fl (insert a live)"
    by (auto simp: slot_partition_def)
  ultimately show ?thesis using that assms by (auto simp: slot_partition_def)
qed

lemma partition_full:
  assumes "slot_partition m p [] live"
  shows "\<exists>e. alloc m p = Inl e" and "live = set (slots p)"
  using assms alloc_Nil by (auto simp: slot_partition_def)

lemma partition_free:
  assumes part: "slot_partition m p fl live" and a: "a \<in> live" and fr: "free m p a = (m', p')"
  shows "slot_partition m' p' (a # fl) (live - {a})" and "slots p' = slots p"
    and "b \<in> live \<Longrightarrow> b \<noteq> a \<Longrightarrow> same_range m' m b width"
proof -
  from part have fl: "free_list m p fl" by (simp add: slot_partition_def)
  from part a have mem: "a \<in> set (slots p)" "a \<notin> set fl" by (auto simp: slot_partition_def)
  from free_Cons [OF fl mem fr] have res: "free_list m' p' (a # fl)" "slots p' = slots p" by auto
  show "slots p' = slots p" by (rule res)
  show "slot_partition m' p' (a # fl) (live - {a})"
    using part a res by (auto simp: slot_partition_def)
  assume b: "b \<in> live" "b \<noteq> a"
  then have "disjoint_ranges b width a width"
    using part mem fl by (intro slots_apart [OF fl]) (auto simp: slot_partition_def)
  then show "same_range m' m b width"
    by (auto simp: same_range_iff disjoint_ranges_def intro!: free_frame [OF fl fr])
qed

text \<open>A write inside a live slot keeps the free list and every other live slot.\<close>

lemma partition_write:
  assumes part: "slot_partition m p fl live" and a: "a \<in> live"
    and w: "\<And>x. x < a \<or> a + width \<le> x \<Longrightarrow> m' x = m x"
  shows "slot_partition m' p fl live" and "b \<in> live \<Longrightarrow> b \<noteq> a \<Longrightarrow> same_range m' m b width"
proof -
  from part have fl: "free_list m p fl" by (simp add: slot_partition_def)
  have same: "same_range m' m b width" if "b \<in> set (slots p)" "b \<noteq> a" for b
  proof -
    have "a \<in> set (slots p)" using part a by (auto simp: slot_partition_def)
    with that have "disjoint_ranges b width a width" by (intro slots_apart [OF fl])
    then show ?thesis by (auto simp: same_range_iff disjoint_ranges_def intro!: w)
  qed
  have "free_list m' p fl"
  proof (rule list_frame [OF fl])
    fix b assume "b \<in> set fl"
    then have "b \<in> set (slots p)" "b \<noteq> a" using part a by (auto simp: slot_partition_def)
    then show "same_range m m' b width" using same by (simp add: same_range_def)
  qed
  then show "slot_partition m' p fl live" using part by (simp add: slot_partition_def)
  assume "b \<in> live" "b \<noteq> a"
  then show "same_range m' m b width" using part by (intro same) (auto simp: slot_partition_def)
qed

lemma partition_card:
  assumes "slot_partition m p fl live"
  shows "length fl + card live = length (slots p)" and "finite live"
proof -
  from assms have fl: "free_list m p fl" and parts: "set fl \<inter> live = {}" "set fl \<union> live = set (slots p)"
    by (simp_all add: slot_partition_def)
  from parts(2) show fin: "finite live" by (metis List.finite_set finite_Un)
  have "card (set fl \<union> live) = card (set fl) + card live"
    using parts(1) fin by (intro card_Un_disjoint) auto
  then show "length fl + card live = length (slots p)"
    using parts(2) list_slots [OF fl] slots_distinct [OF fl] by (simp add: distinct_card)
qed

text \<open>Release then allocate hands back the same slot (the list is last-in first-out).\<close>

lemma alloc_after_free:
  assumes "slot_partition m p fl live" and "a \<in> live" and "free m p a = (m', p')"
  shows "\<exists>p''. alloc m' p' = Inr (a, p'')"
  using partition_alloc [OF partition_free(1) [OF assms]] by metis

end

section \<open>MemoryPool\<close>

record memory_pool =
  mp_base :: addr
  mp_slot_size :: nat
  mp_total_slots :: nat
  mp_free_list :: addr

text \<open>
  \<^verbatim>\<open>MemoryPool::new\<close>: \<open>mmap\<close> is the address that the call returned, \<open>None\<close> for
  \<^verbatim>\<open>MAP_FAILED\<close>.
\<close>

definition memory_pool_new ::
  "nat \<Rightarrow> nat \<Rightarrow> addr option \<Rightarrow> mem \<Rightarrow> panic + mem \<times> memory_pool" where
  "memory_pool_new total_slots slot_size mmap m =
     (if \<not> 8 \<le> slot_size then Inl (Panic ''slot_size must be >= pointer size for free list'')
      else if \<not> 0 < total_slots then Inl (Panic ''total_slots must be > 0'')
      else case mmap of
        None \<Rightarrow> Inl (Panic ''mmap failed'')
      | Some base \<Rightarrow>
          Inr (build_free_list base slot_size total_slots total_slots m,
               \<lparr>mp_base = base, mp_slot_size = slot_size, mp_total_slots = total_slots,
                mp_free_list = base\<rparr>))"

definition alloc_slot :: "mem \<Rightarrow> memory_pool \<Rightarrow> panic + addr \<times> memory_pool" where
  "alloc_slot m p =
     (if mp_free_list p = 0
      then Inl (Panic ''MemoryPool exhausted -- increase memory_pool_slots in config'')
      else let ptr = mp_free_list p in Inr (ptr, p\<lparr>mp_free_list := read_ptr m ptr\<rparr>))"

definition free_slot :: "mem \<Rightarrow> memory_pool \<Rightarrow> addr \<Rightarrow> mem \<times> memory_pool" where
  "free_slot m p ptr = (write_ptr m ptr (mp_free_list p), p\<lparr>mp_free_list := ptr\<rparr>)"

text \<open>\<^verbatim>\<open>Drop\<close>: the address and length passed to \<^verbatim>\<open>munmap\<close>.\<close>

definition memory_pool_drop :: "memory_pool \<Rightarrow> addr \<times> nat" where
  "memory_pool_drop p = (mp_base p, mp_total_slots p * mp_slot_size p)"

definition pool_slots :: "memory_pool \<Rightarrow> addr list" where
  "pool_slots p = slot_addrs (mp_base p) (mp_slot_size p) (mp_total_slots p)"

definition pool_free_list :: "nat \<Rightarrow> mem \<Rightarrow> memory_pool \<Rightarrow> addr list \<Rightarrow> bool" where
  "pool_free_list w m p fl \<longleftrightarrow>
     mp_slot_size p = w \<and> region_ok (mp_base p) w (mp_total_slots p)
     \<and> fl_chain m (mp_free_list p) fl \<and> distinct fl \<and> set fl \<subseteq> set (pool_slots p)"

text \<open>The two facts about chains that both allocators share.\<close>

lemma chain_after_release:
  assumes "fl_chain m p fl" and "p < 2 ^ 64" and "a \<noteq> 0" and "8 \<le> w"
    and "\<And>b. b \<in> set fl \<Longrightarrow> disjoint_ranges b w a w"
  shows "fl_chain (write_ptr m a p) a (a # fl)"
proof -
  have "read_ptr (write_ptr m a p) b = read_ptr m b" if "b \<in> set fl" for b
    by (intro read_ptr_write_ptr_disjoint disjoint_ranges_mono [OF assms(5) [OF that]] assms(4))
  then have "fl_chain (write_ptr m a p) p fl" by (rule fl_chain_frame [OF assms(1)])
  with assms(2,3) show ?thesis by (simp add: read_write_ptr)
qed

lemma chain_head_less:
  assumes "fl_chain m p fl" and "\<And>a. a \<in> set fl \<Longrightarrow> a < 2 ^ 64"
  shows "p < 2 ^ 64"
  using assms by (cases fl) auto

lemma chain_same_range:
  assumes "fl_chain m p fl" and "8 \<le> w" and "\<And>a. a \<in> set fl \<Longrightarrow> same_range m m' a w"
  shows "fl_chain m' p fl"
  by (rule fl_chain_frame [OF assms(1)]) (metis assms(2,3) same_range_read_ptr)

lemma pool_free_slot_list:
  assumes fl: "pool_free_list w m p fl" and a: "a \<in> set (pool_slots p)" "a \<notin> set fl"
    and fr: "free_slot m p a = (m', p')"
  shows "pool_free_list w m' p' (a # fl)"
proof -
  let ?S = "slot_addrs (mp_base p) w (mp_total_slots p)"
  from fl have ok: "region_ok (mp_base p) w (mp_total_slots p)" and sub: "set fl \<subseteq> set ?S"
    and ch: "fl_chain m (mp_free_list p) fl" and aS: "a \<in> set ?S"
    using a by (auto simp: pool_free_list_def pool_slots_def)
  have less: "b < 2 ^ 64" if "b \<in> set fl" for b
    using slot_addrs_less [OF ok] sub that by blast
  have apart: "disjoint_ranges b w a w" if "b \<in> set fl" for b
    using slot_addrs_apart [OF _ aS, of b] sub a(2) that by blast
  have "fl_chain (write_ptr m a (mp_free_list p)) a (a # fl)"
    using ok slot_addrs_less [OF ok aS] chain_head_less [OF ch less]
    by (intro chain_after_release [OF ch _ _ _ apart]) (auto simp: region_ok_def)
  moreover have "m' = write_ptr m a (mp_free_list p)" "p' = p\<lparr>mp_free_list := a\<rparr>"
    using fr by (auto simp: free_slot_def)
  ultimately show ?thesis
    using fl a by (auto simp: pool_free_list_def pool_slots_def)
qed

interpretation pool: slot_allocator alloc_slot free_slot "pool_free_list w" pool_slots w for w
proof unfold_locales
  fix m m' :: mem and p p' :: memory_pool and fl :: "addr list" and a b x :: addr
  show "set fl \<subseteq> set (pool_slots p) \<and> distinct fl" if "pool_free_list w m p fl"
    using that by (simp add: pool_free_list_def)
  show "distinct (pool_slots p)" if "pool_free_list w m p fl"
    using that by (auto simp: pool_free_list_def pool_slots_def region_ok_def intro!: distinct_slot_addrs)
  show "disjoint_ranges a w b w" if "pool_free_list w m p fl"
    "a \<in> set (pool_slots p)" "b \<in> set (pool_slots p)" "a \<noteq> b"
    using that by (auto simp: pool_free_list_def pool_slots_def intro: slot_addrs_apart)
  show "\<exists>p'. alloc_slot m p = Inr (a, p') \<and> pool_free_list w m p' fl \<and> pool_slots p' = pool_slots p"
    if "pool_free_list w m p (a # fl)"
    using that by (auto simp: alloc_slot_def pool_free_list_def pool_slots_def Let_def)
  show "\<exists>e. alloc_slot m p = Inl e" if "pool_free_list w m p []"
    using that by (simp add: alloc_slot_def pool_free_list_def)
  show "pool_free_list w m' p' (a # fl) \<and> pool_slots p' = pool_slots p"
    if "pool_free_list w m p fl" "a \<in> set (pool_slots p)" "a \<notin> set fl" "free_slot m p a = (m', p')"
    using that pool_free_slot_list [OF that] by (auto simp: free_slot_def pool_slots_def)
  show "m' x = m x" if "pool_free_list w m p fl" "free_slot m p a = (m', p')" "x < a \<or> a + w \<le> x"
    using that by (auto simp: free_slot_def write_ptr_def pool_free_list_def region_ok_def
        intro!: write_bytes_outside)
  show "pool_free_list w m' p fl"
    if "pool_free_list w m p fl" "\<And>a. a \<in> set fl \<Longrightarrow> same_range m m' a w"
    using that chain_same_range [of m "mp_free_list p" fl w m']
    by (auto simp: pool_free_list_def region_ok_def)
qed

lemma memory_pool_new_free_list:
  assumes "region_ok base w t" and "0 < t" and "memory_pool_new t w (Some base) m = Inr (m', p)"
  shows "pool_free_list w m' p (slot_addrs base w t)" and "pool_slots p = slot_addrs base w t"
proof -
  have eq: "m' = build_free_list base w t t m"
    "p = \<lparr>mp_base = base, mp_slot_size = w, mp_total_slots = t, mp_free_list = base\<rparr>"
    using assms by (auto simp: memory_pool_new_def region_ok_def split: if_splits)
  then show "pool_slots p = slot_addrs base w t" by (simp add: pool_slots_def)
  show "pool_free_list w m' p (slot_addrs base w t)"
    using assms(1) build_free_list_chain [OF assms(1,2), of m] distinct_slot_addrs [of w base t]
    by (simp add: pool_free_list_def pool_slots_def eq region_ok_def)
qed

section \<open>Properties\<close>

text \<open>A pool of three 16-byte slots, used to instantiate the properties.\<close>

definition sample_pool :: "mem \<times> memory_pool" where
  "sample_pool = projr (memory_pool_new 3 16 (Some 64) (\<lambda>_. 0))"

lemma sample_pool_partition:
  "pool.slot_partition 16 (fst sample_pool) (snd sample_pool) [64, 80, 96] {}"
proof -
  have "memory_pool_new 3 16 (Some 64) (\<lambda>_. 0) = Inr (fst sample_pool, snd sample_pool)"
    by (simp add: sample_pool_def memory_pool_new_def)
  from memory_pool_new_free_list [OF _ _ this] have "pool_free_list 16 (fst sample_pool) (snd sample_pool) (slot_addrs 64 16 3)"
    "pool_slots (snd sample_pool) = slot_addrs 64 16 3" by (simp_all add: region_ok_def)
  then show ?thesis by (simp add: pool.slot_partition_def slot_addrs_def upt_rec)
qed

text \<open>
  C25: the pool hands out a slot exactly when one is free; the slot it hands out is one of its slots,
  was not in use, does not overlap any slot in use, and the bookkeeping stays consistent.
\<close>

theorem pool_alloc_spec:
  assumes "pool.slot_partition w m p fl live"
  shows "(case alloc_slot m p of
            Inl e \<Rightarrow> fl = [] \<and> live = set (pool_slots p)
          | Inr (a, p') \<Rightarrow> a \<in> set (pool_slots p) \<and> a \<notin> live
              \<and> (\<forall>b \<in> live. disjoint_ranges a w b w)
              \<and> pool.slot_partition w m p' (tl fl) (insert a live))"
proof (cases fl)
  case Nil
  with assms pool.partition_full [of w m p live] show ?thesis by auto
next
  case (Cons a fl')
  from pool.partition_alloc [OF assms [unfolded Cons]] obtain p' where
    p': "alloc_slot m p = Inr (a, p')" "pool.slot_partition w m p' fl' (insert a live)"
    "a \<notin> live" "a \<in> set (pool_slots p)" by blast
  have "disjoint_ranges a w b w" if "b \<in> live" for b
    using assms that p'(3,4) by (intro pool.slots_apart [of w m p fl]) (auto simp: pool.slot_partition_def)
  with p' Cons show ?thesis by simp
qed

theorem pool_alloc_spec_witness:
  "\<exists>a p'. alloc_slot (fst sample_pool) (snd sample_pool) = Inr (a, p') \<and> a \<in> set (pool_slots (snd sample_pool))"
  using pool_alloc_spec [OF sample_pool_partition] by (auto split: sum.splits)

text \<open>
  Releasing a slot makes it free again without touching any other slot in use, and the next
  allocation returns that same slot.
\<close>

lemma pool_free_reuse:
  assumes "pool.slot_partition w m p fl live" and "a \<in> live" and "free_slot m p a = (m', p')"
  shows "pool.slot_partition w m' p' (a # fl) (live - {a})
     \<and> (\<forall>b \<in> live - {a}. same_range m' m b w) \<and> (\<exists>p''. alloc_slot m' p' = Inr (a, p''))"
  using pool.partition_free [OF assms] pool.alloc_after_free [OF assms] by blast

end
