(* ===== verification/Store_Alloc.thy ===== *)
theory Store_Alloc
  imports Memory_Pool Constants
begin

text \<open>
  \<^verbatim>\<open>StoreAlloc\<close> of \<^verbatim>\<open>src/store.rs\<close>: a heap slab for capacities up to 200 records
  and a \<^verbatim>\<open>MemoryPool\<close> above, both with the intrusive free list of theory
  \<open>Memory_Pool\<close>. The allocator is shown to satisfy the contract \<open>slot_allocator\<close>, so what the
  store needs of its memory does not depend on the variant.
\<close>

section \<open>The model\<close>

datatype store_alloc =
    Slab (slab_base: addr) (slab_layout_size: nat) (slab_free_list: addr)
  | Pool memory_pool

definition next_multiple_of :: "nat \<Rightarrow> nat \<Rightarrow> nat" where
  "next_multiple_of x k = ((x + (k - 1)) div k) * k"

definition sa_slot_size :: "u16 \<Rightarrow> nat" where
  "sa_slot_size capacity =
     (let record_bytes = unat capacity * 17 in next_multiple_of (max record_bytes 8) 8)"

text \<open>
  \<^verbatim>\<open>StoreAlloc::new\<close>: \<open>os\<close> is the address returned by \<^verbatim>\<open>alloc\<close> or
  \<^verbatim>\<open>mmap\<close>, \<open>None\<close> when it failed. \<^verbatim>\<open>Layout::from_size_align\<close> refuses sizes beyond
  \<^verbatim>\<open>isize::MAX\<close>.
\<close>

definition store_alloc_new ::
  "u16 \<Rightarrow> u32 \<Rightarrow> addr option \<Rightarrow> mem \<Rightarrow> panic + mem \<times> store_alloc" where
  "store_alloc_new capacity total_slots os m =
     (let slot_size = sa_slot_size capacity;
          t = unat total_slots
      in if unat capacity \<le> 200
         then if \<not> t * slot_size \<le> 2 ^ 63 - 8 then Inl (Panic ''invalid slab layout'')
              else case os of
                None \<Rightarrow> Inl (Panic ''slab allocation failed'')
              | Some base \<Rightarrow>
                  Inr (build_free_list base slot_size t t m, Slab base (t * slot_size) base)
         else case memory_pool_new t slot_size os m of
                Inl e \<Rightarrow> Inl e
              | Inr (m', p) \<Rightarrow> Inr (m', Pool p))"

fun sa_alloc :: "mem \<Rightarrow> store_alloc \<Rightarrow> panic + addr \<times> store_alloc" where
  "sa_alloc m (Slab base layout free_list) =
     (if free_list = 0 then Inl (Panic ''slab exhausted -- increase memory_pool_slots'')
      else Inr (free_list, Slab base layout (read_ptr m free_list)))"
| "sa_alloc m (Pool p) =
     (case alloc_slot m p of Inl e \<Rightarrow> Inl e | Inr (ptr, p') \<Rightarrow> Inr (ptr, Pool p'))"

text \<open>\<^verbatim>\<open>Drop\<close>: the region that is given back, by \<^verbatim>\<open>dealloc\<close> or by the drop of the pool.\<close>

fun sa_drop :: "store_alloc \<Rightarrow> addr \<times> nat" where
  "sa_drop (Slab base layout free_list) = (base, layout)"
| "sa_drop (Pool p) = memory_pool_drop p"

fun sa_free :: "mem \<Rightarrow> store_alloc \<Rightarrow> addr \<Rightarrow> mem \<times> store_alloc" where
  "sa_free m (Slab base layout free_list) ptr = (write_ptr m ptr free_list, Slab base layout ptr)"
| "sa_free m (Pool p) ptr = (case free_slot m p ptr of (m', p') \<Rightarrow> (m', Pool p'))"

fun_cases sa_alloc_SlabE: "sa_alloc m (Slab b n f) = r"
fun_cases sa_alloc_PoolE: "sa_alloc m (Pool p) = r"

section \<open>Slot geometry\<close>

lemma next_multiple_of_ge: "0 < k \<Longrightarrow> x \<le> next_multiple_of x k"
  using div_mult_mod_eq [of "x + (k - 1)" k] mod_less_divisor [of k "x + (k - 1)"]
  unfolding next_multiple_of_def by linarith

lemma next_multiple_of_dvd: "k dvd next_multiple_of x k"
  by (simp add: next_multiple_of_def)

lemma sa_slot_size_ge: "8 \<le> sa_slot_size c" and sa_slot_size_records: "unat c * 17 \<le> sa_slot_size c"
  using next_multiple_of_ge [of 8 "max (unat c * 17) 8"] by (simp_all add: sa_slot_size_def Let_def)

text \<open>The free-list links are aligned when the region is.\<close>

lemma sa_slots_aligned:
  assumes "8 dvd base" and "a \<in> set (slot_addrs base (sa_slot_size c) t)"
  shows "8 dvd a"
  using assms next_multiple_of_dvd [of 8] by (auto simp: slot_addrs_def sa_slot_size_def Let_def)

section \<open>The slab and the allocator satisfy the contract\<close>

fun sa_slots :: "nat \<Rightarrow> store_alloc \<Rightarrow> addr list" where
  "sa_slots w (Slab base layout free_list) = slot_addrs base w (layout div w)"
| "sa_slots w (Pool p) = pool_slots p"

text \<open>A slab is viewed as a pool with the same geometry.\<close>

definition slab_view :: "nat \<Rightarrow> addr \<Rightarrow> nat \<Rightarrow> addr \<Rightarrow> memory_pool" where
  "slab_view w base layout free_list =
     \<lparr>mp_base = base, mp_slot_size = w, mp_total_slots = layout div w, mp_free_list = free_list\<rparr>"

fun sa_pool :: "nat \<Rightarrow> store_alloc \<Rightarrow> memory_pool" where
  "sa_pool w (Slab base layout free_list) = slab_view w base layout free_list"
| "sa_pool w (Pool p) = p"

definition sa_free_list :: "nat \<Rightarrow> mem \<Rightarrow> store_alloc \<Rightarrow> addr list \<Rightarrow> bool" where
  "sa_free_list w m a fl \<longleftrightarrow> pool_free_list w m (sa_pool w a) fl"

lemma sa_slots_pool: "sa_slots w a = pool_slots (sa_pool w a)"
  by (cases a) (simp_all add: slab_view_def pool_slots_def)

text \<open>Both variants run the pool's code.\<close>

lemma sa_alloc_sim:
  "(case sa_alloc m a of Inl _ \<Rightarrow> None | Inr (ptr, a') \<Rightarrow> Some (ptr, sa_pool w a'))
   = (case alloc_slot m (sa_pool w a) of Inl _ \<Rightarrow> None | Inr r \<Rightarrow> Some r)"
  by (cases a) (auto simp: slab_view_def alloc_slot_def Let_def split: sum.splits)

lemma sa_free_sim:
  "sa_free m a ptr = (m', a') \<Longrightarrow> free_slot m (sa_pool w a) ptr = (m', sa_pool w a')"
  by (cases a) (auto simp: slab_view_def free_slot_def)

lemma sa_alloc_Inr_sim:
  assumes "alloc_slot m (sa_pool w a) = Inr (ptr, p)"
  obtains a' where "sa_alloc m a = Inr (ptr, a')" and "sa_pool w a' = p"
  using sa_alloc_sim [of w m a] assms by (auto split: sum.splits prod.splits)

lemma sa_alloc_Inl_sim: "alloc_slot m (sa_pool w a) = Inl e \<Longrightarrow> \<exists>e'. sa_alloc m a = Inl e'"
  using sa_alloc_sim [of w m a] by (auto split: sum.splits prod.splits)

interpretation sal: slot_allocator sa_alloc sa_free "sa_free_list w" "sa_slots w" w for w
proof unfold_locales
  fix m m' :: mem and p p' :: store_alloc and fl :: "addr list" and a b x :: addr
  show "set fl \<subseteq> set (sa_slots w p) \<and> distinct fl" if "sa_free_list w m p fl"
    using that pool.list_slots by (simp add: sa_free_list_def sa_slots_pool)
  show "distinct (sa_slots w p)" if "sa_free_list w m p fl"
    using that pool.slots_distinct by (simp add: sa_free_list_def sa_slots_pool)
  show "disjoint_ranges a w b w" if "sa_free_list w m p fl"
    "a \<in> set (sa_slots w p)" "b \<in> set (sa_slots w p)" "a \<noteq> b"
    using that pool.slots_apart [of w m "sa_pool w p" fl a b]
    by (simp add: sa_free_list_def sa_slots_pool)
  show "\<exists>p'. sa_alloc m p = Inr (a, p') \<and> sa_free_list w m p' fl \<and> sa_slots w p' = sa_slots w p"
    if "sa_free_list w m p (a # fl)"
    using that pool.alloc_Cons [of w m "sa_pool w p" a fl]
    by (auto simp: sa_free_list_def sa_slots_pool elim!: sa_alloc_Inr_sim)
  show "\<exists>e. sa_alloc m p = Inl e" if "sa_free_list w m p []"
    using that pool.alloc_Nil [of w m "sa_pool w p"] by (auto simp: sa_free_list_def dest: sa_alloc_Inl_sim)
  show "sa_free_list w m' p' (a # fl) \<and> sa_slots w p' = sa_slots w p"
    if "sa_free_list w m p fl" "a \<in> set (sa_slots w p)" "a \<notin> set fl" "sa_free m p a = (m', p')"
    using that pool.free_Cons [OF _ _ _ sa_free_sim [OF that(4)]]
    by (simp add: sa_free_list_def sa_slots_pool)
  show "m' x = m x" if "sa_free_list w m p fl" "sa_free m p a = (m', p')" "x < a \<or> a + w \<le> x"
    using that pool.free_frame [OF _ sa_free_sim [OF that(2)]] by (simp add: sa_free_list_def)
  show "sa_free_list w m' p fl"
    if "sa_free_list w m p fl" "\<And>a. a \<in> set fl \<Longrightarrow> same_range m m' a w"
    using that pool.list_frame [of w m "sa_pool w p" fl m'] by (simp add: sa_free_list_def)
qed

text \<open>A fresh allocator has every slot free.\<close>

lemma store_alloc_new_free_list:
  assumes reg: "region_ok base (sa_slot_size c) (unat t)" and t: "0 < t"
    and new: "store_alloc_new c t (Some base) m = Inr (m', a)"
  shows "sa_free_list (sa_slot_size c) m' a (slot_addrs base (sa_slot_size c) (unat t))"
    and "sa_slots (sa_slot_size c) a = slot_addrs base (sa_slot_size c) (unat t)"
proof -
  let ?w = "sa_slot_size c" and ?t = "unat t"
  have t0: "0 < ?t" using t by (simp add: word_less_nat_alt)
  have w0: "0 < ?w" using sa_slot_size_ge [of c] by linarith
  have pn: "memory_pool_new ?t ?w (Some base) m
      = Inr (build_free_list base ?w ?t ?t m, slab_view ?w base (?t * ?w) base)"
    using t0 w0 sa_slot_size_ge [of c] by (simp add: memory_pool_new_def slab_view_def)
  have "m' = build_free_list base ?w ?t ?t m \<and> sa_pool ?w a = slab_view ?w base (?t * ?w) base"
    using new pn by (auto simp: store_alloc_new_def Let_def split: if_splits)
  then show "sa_free_list ?w m' a (slot_addrs base ?w ?t)" "sa_slots ?w a = slot_addrs base ?w ?t"
    using memory_pool_new_free_list [OF reg t0 pn] by (simp_all add: sa_free_list_def sa_slots_pool)
qed

end
