(* ===== verification/Ring_Buffer.thy ===== *)
theory Ring_Buffer
  imports Memory
begin

text \<open>
  \<^verbatim>\<open>src/ring_buffer.rs\<close>: the per-user ring buffer over a slot of raw memory. The abstract
  view of a buffer is its history \<open>rb_contents\<close>, newest record first. \<open>push\<close> is shown to be
  "cons and truncate to the capacity", \<open>get_last\<close> to copy a prefix of the history, and the
  locale \<open>recent_history\<close> lifts the one-step law to any sequence of pushes.
\<close>

section \<open>The model\<close>

record ring_buffer =
  rb_data :: addr
  rb_capacity :: u16
  rb_head :: u16
  rb_count :: u16
  rb_last_write_ts :: u64

definition rb_push :: "mem \<Rightarrow> ring_buffer \<Rightarrow> event_record \<Rightarrow> u64 \<Rightarrow> mem \<times> ring_buffer" where
  "rb_push m b r write_ts =
     (let m' = write_record m (rb_data b + unat (rb_head b) * 17) r;
          b1 = b\<lparr>rb_head := (rb_head b + 1) mod rb_capacity b\<rparr>;
          b2 = (if rb_count b1 < rb_capacity b1 then b1\<lparr>rb_count := rb_count b1 + 1\<rparr> else b1)
      in (m', b2\<lparr>rb_last_write_ts := write_ts\<rparr>))"

text \<open>The slot read by iteration \<open>i\<close> of \<open>get_last\<close>.\<close>

definition rb_index :: "ring_buffer \<Rightarrow> nat \<Rightarrow> nat" where
  "rb_index b i =
     (unat (rb_head b) + unat (rb_capacity b) - 1 - i) mod unat (rb_capacity b)"

text \<open>
  The loop of \<open>get_last\<close>: \<^verbatim>\<open>out[i] = ...\<close> is bounds-checked, so a slice that is too short
  panics, which is \<open>None\<close>.
\<close>

primrec get_last_loop ::
  "mem \<Rightarrow> ring_buffer \<Rightarrow> nat \<Rightarrow> event_record list \<Rightarrow> event_record list option" where
  "get_last_loop m b 0 out = Some out"
| "get_last_loop m b (Suc i) out =
     (case get_last_loop m b i out of
        None \<Rightarrow> None
      | Some out' \<Rightarrow>
          if i < length out'
          then Some (out'[i := read_record m (rb_data b + rb_index b i * 17)])
          else None)"

definition rb_get_last ::
  "mem \<Rightarrow> ring_buffer \<Rightarrow> u16 \<Rightarrow> event_record list \<Rightarrow> (event_record list \<times> u16) option" where
  "rb_get_last m b n out =
     (let actual = min n (rb_count b)
      in map_option (\<lambda>out'. (out', actual)) (get_last_loop m b (unat actual) out))"

section \<open>Invariant and abstract view\<close>

definition rb_inv :: "ring_buffer \<Rightarrow> bool" where
  "rb_inv b \<longleftrightarrow> rb_head b < rb_capacity b \<and> rb_count b \<le> rb_capacity b"

definition rb_contents :: "mem \<Rightarrow> ring_buffer \<Rightarrow> event_record list" where
  "rb_contents m b =
     map (\<lambda>i. read_record m (rb_data b + rb_index b i * 17)) [0..<unat (rb_count b)]"

lemma length_rb_contents [simp]: "length (rb_contents m b) = unat (rb_count b)"
  by (simp add: rb_contents_def)

lemma unat_succ_less:
  fixes a b :: "'a::len word"
  assumes "a < b"
  shows "unat (a + 1) = unat a + 1"
proof -
  have "unat b < 2 ^ LENGTH('a)" by simp
  moreover from assms have "unat a < unat b" by (simp add: word_less_nat_alt)
  ultimately have "unat a + 1 < 2 ^ LENGTH('a)" by linarith
  then show ?thesis by (simp add: unat_word_ariths)
qed

section \<open>Index arithmetic\<close>

text \<open>The position read \<open>i\<close> steps behind the head, for head \<open>h\<close> in a ring of size \<open>c\<close>.\<close>

lemma back_index_new: "h < c \<Longrightarrow> ((h + 1) mod c + c - 1) mod c = (h :: nat)"
proof (cases "h + 1 = c")
  case True
  then show ?thesis by (cases c) auto
next
  case False
  assume "h < c"
  with False have "h + 1 < c" by simp
  then have "(h + 1) mod c + c - 1 = h + c" by simp
  with \<open>h < c\<close> show ?thesis by simp
qed

lemma back_index_shift:
  assumes "h < c" and "Suc i < c"
  shows "((h + 1) mod c + c - 1 - Suc i) mod c = (h + c - 1 - i) mod (c :: nat)"
proof (cases "h + 1 = c")
  case True
  with assms have "h + c - 1 - i = c + (c - 1 - Suc i)" by simp
  then have "(h + c - 1 - i) mod c = (c - 1 - Suc i) mod c"
    by (simp only: mod_add_self1)
  then show ?thesis using True by simp
next
  case False
  with assms have "h + 1 < c" by simp
  then show ?thesis by simp
qed

lemma back_index_other:
  assumes "h < c" and "Suc i < c"
  shows "(h + c - 1 - i) mod c \<noteq> (h :: nat)"
proof (cases "i < h")
  case True
  with assms have "h + c - 1 - i = c + (h - 1 - i)" by simp
  then have "(h + c - 1 - i) mod c = (h - 1 - i) mod c"
    by (simp only: mod_add_self1)
  with True assms(1) show ?thesis by simp
next
  case False
  with assms have "h + c - 1 - i < c" by linarith
  then have "(h + c - 1 - i) mod c = h + c - 1 - i" by simp
  with assms show ?thesis by linarith
qed

lemma record_slots_disjoint:
  "(i :: nat) \<noteq> j \<Longrightarrow> disjoint_ranges (d + i * 17) 17 (d + j * 17) 17"
  by (cases "i < j") (auto simp: disjoint_ranges_def)

lemma rb_index_less: "rb_inv b \<Longrightarrow> rb_index b i < unat (rb_capacity b)"
  by (auto simp: rb_inv_def rb_index_def word_less_nat_alt intro!: mod_less_divisor)

section \<open>push\<close>

lemma rb_push_simps:
  assumes "rb_push m b r ts = (m', b')"
  shows "m' = write_record m (rb_data b + unat (rb_head b) * 17) r"
    and "rb_data b' = rb_data b"
    and "rb_capacity b' = rb_capacity b"
    and "rb_head b' = (rb_head b + 1) mod rb_capacity b"
    and "rb_count b' = (if rb_count b < rb_capacity b then rb_count b + 1 else rb_count b)"
    and "rb_last_write_ts b' = ts"
  using assms by (auto simp: rb_push_def Let_def)

lemma rb_push_head:
  assumes "rb_inv b" and "rb_push m b r ts = (m', b')"
  shows "unat (rb_head b') = (unat (rb_head b) + 1) mod unat (rb_capacity b)"
  using assms unat_succ_less [of "rb_head b" "rb_capacity b"]
  by (simp add: rb_inv_def rb_push_simps unat_mod)

lemma rb_push_count:
  assumes "rb_inv b" and "rb_push m b r ts = (m', b')"
  shows "unat (rb_count b') = min (unat (rb_capacity b)) (unat (rb_count b) + 1)"
  using assms unat_succ_less [of "rb_count b" "rb_capacity b"]
  by (auto simp: rb_inv_def rb_push_simps word_less_nat_alt word_le_nat_alt min_def)

lemma rb_push_inv:
  assumes "rb_inv b" and "rb_push m b r ts = (m', b')"
  shows "rb_inv b'"
  using assms rb_push_head [OF assms] rb_push_count [OF assms]
  by (auto simp: rb_inv_def word_less_nat_alt word_le_nat_alt rb_push_simps(3))

lemma rb_push_nth:
  assumes inv: "rb_inv b" and push: "rb_push m b r ts = (m', b')"
    and i: "i < unat (rb_count b')"
  shows "rb_contents m' b' ! i = (r # rb_contents m b) ! i"
proof -
  let ?c = "unat (rb_capacity b)" and ?h = "unat (rb_head b)" and ?d = "rb_data b"
  from inv have h: "?h < ?c" by (simp add: rb_inv_def word_less_nat_alt)
  from i rb_push_count [OF inv push] have ic: "i < ?c" "i \<le> unat (rb_count b)" by auto
  have idx: "rb_index b' i = ((?h + 1) mod ?c + ?c - 1 - i) mod ?c"
    by (simp add: rb_index_def rb_push_head [OF inv push] rb_push_simps(3) [OF push])
  have lhs: "rb_contents m' b' ! i = read_record m' (?d + rb_index b' i * 17)"
    using i by (simp add: rb_contents_def rb_push_simps(2) [OF push])
  show ?thesis
  proof (cases i)
    case 0
    with idx back_index_new [OF h] have "rb_index b' i = ?h" by simp
    with lhs 0 show ?thesis by (simp add: rb_push_simps(1) [OF push] read_write_record)
  next
    case (Suc k)
    with ic have k: "Suc k < ?c" "k < unat (rb_count b)" by auto
    from idx Suc k h have eq: "rb_index b' i = rb_index b k"
      using back_index_shift [OF h k(1)] by (simp add: rb_index_def [of b])
    have "rb_index b k \<noteq> ?h"
      using back_index_other [OF h k(1)] by (simp add: rb_index_def)
    then have "read_record m' (?d + rb_index b k * 17) = read_record m (?d + rb_index b k * 17)"
      by (simp add: rb_push_simps(1) [OF push] read_write_record_disjoint record_slots_disjoint)
    with lhs eq Suc k show ?thesis by (simp add: rb_contents_def)
  qed
qed

lemma rb_push_contents:
  assumes "rb_inv b" and "rb_push m b r ts = (m', b')"
  shows "rb_contents m' b' = take (unat (rb_capacity b)) (r # rb_contents m b)"
proof (rule nth_equalityI)
  show "length (rb_contents m' b') = length (take (unat (rb_capacity b)) (r # rb_contents m b))"
    by (simp add: rb_push_count [OF assms])
next
  fix i assume "i < length (rb_contents m' b')"
  then have "i < unat (rb_count b')" and "i < unat (rb_capacity b)"
    by (simp_all add: rb_push_count [OF assms])
  then show "rb_contents m' b' ! i = take (unat (rb_capacity b)) (r # rb_contents m b) ! i"
    by (simp only: rb_push_nth [OF assms] nth_take)
qed

text \<open>Frame: a push writes only inside the buffer's own slot.\<close>

lemma rb_push_frame:
  assumes "rb_inv b" and "rb_push m b r ts = (m', b')"
    and "x < rb_data b \<or> rb_data b + unat (rb_capacity b) * 17 \<le> x"
  shows "m' x = m x"
proof -
  have "unat (rb_head b) + 1 \<le> unat (rb_capacity b)"
    using assms(1) by (simp add: rb_inv_def word_less_nat_alt)
  then have "unat (rb_head b) * 17 + 17 \<le> unat (rb_capacity b) * 17" by linarith
  with assms(3) show ?thesis
    unfolding rb_push_simps(1) [OF assms(2)] write_record_def
    by (intro write_bytes_outside) auto
qed

section \<open>get\_last\<close>

lemma get_last_loop_eq:
  "k \<le> length out \<Longrightarrow>
   get_last_loop m b k out =
     Some (map (\<lambda>i. read_record m (rb_data b + rb_index b i * 17)) [0..<k] @ drop k out)"
proof (induction k)
  case 0
  then show ?case by simp
next
  case (Suc k)
  let ?f = "\<lambda>i. read_record m (rb_data b + rb_index b i * 17)"
  have "drop k out = out ! k # drop (Suc k) out"
    using Suc.prems by (simp add: Cons_nth_drop_Suc)
  then have "(map ?f [0..<k] @ drop k out)[k := ?f k] = map ?f [0..<Suc k] @ drop (Suc k) out"
    by (simp add: list_update_append)
  with Suc show ?case by simp
qed

lemma get_last_loop_short: "length out < k \<Longrightarrow> get_last_loop m b k out = None"
proof (induction k)
  case (Suc k)
  show ?case
  proof (cases "length out = k")
    case True
    then show ?thesis by (simp add: get_last_loop_eq)
  next
    case False
    with Suc show ?thesis by simp
  qed
qed simp

lemma take_rb_contents:
  "k \<le> unat (rb_count b) \<Longrightarrow>
   take k (rb_contents m b) = map (\<lambda>i. read_record m (rb_data b + rb_index b i * 17)) [0..<k]"
  by (simp add: rb_contents_def take_map)

lemma rb_get_last_eq:
  assumes "unat (min n (rb_count b)) \<le> length out"
  shows "rb_get_last m b n out =
           Some (take (unat n) (rb_contents m b) @ drop (unat (min n (rb_count b))) out,
                 min n (rb_count b))"
proof -
  have k: "unat (min n (rb_count b)) = min (unat n) (unat (rb_count b))"
    by (simp add: min_def word_le_nat_alt)
  have "take (unat n) (rb_contents m b) = take (unat (min n (rb_count b))) (rb_contents m b)"
    by (simp add: k min_def word_le_nat_alt)
  then show ?thesis
    using assms k by (simp add: rb_get_last_def Let_def get_last_loop_eq take_rb_contents)
qed

section \<open>Histories\<close>

text \<open>
  The contract of a bounded history: adding an event conses its item and drops what exceeds
  the capacity. The client lemma is the effect of a whole sequence of events.
\<close>

locale recent_history =
  fixes add :: "'s \<Rightarrow> 'e \<Rightarrow> 's"
    and item :: "'e \<Rightarrow> 'a"
    and hist :: "'s \<Rightarrow> 'a list"
    and cap :: "'s \<Rightarrow> nat"
    and ok :: "'s \<Rightarrow> bool"
  assumes ok_add: "ok s \<Longrightarrow> ok (add s e)"
    and cap_add: "ok s \<Longrightarrow> cap (add s e) = cap s"
    and hist_add: "ok s \<Longrightarrow> hist (add s e) = take (cap s) (item e # hist s)"
begin

lemma ok_foldl: "ok s \<Longrightarrow> ok (foldl add s es)"
  by (induction es arbitrary: s) (simp_all add: ok_add)

lemma cap_foldl: "ok s \<Longrightarrow> cap (foldl add s es) = cap s"
  by (induction es arbitrary: s) (simp_all add: ok_add cap_add)

lemma take_snoc_take: "take c (xs @ take c (y # ys)) = take c (xs @ y # ys)"
  by (simp only: take_append take_take min.absorb1 [OF diff_le_self])

lemma hist_foldl:
  assumes "ok s" and "length (hist s) \<le> cap s"
  shows "hist (foldl add s es) = take (cap s) (rev (map item es) @ hist s)"
  using assms
proof (induction es arbitrary: s)
  case Nil
  then show ?case by simp
next
  case (Cons e es)
  have "length (hist (add s e)) \<le> cap (add s e)"
    using Cons.prems by (simp add: hist_add cap_add)
  then have "hist (foldl add (add s e) es)
      = take (cap s) (rev (map item es) @ take (cap s) (item e # hist s))"
    using Cons.IH [of "add s e"] Cons.prems by (simp add: ok_add cap_add hist_add)
  then show ?case by (simp add: take_snoc_take)
qed

lemma hist_foldl_fits:
  assumes "ok s" and "hist s = []" and "length es \<le> cap s"
  shows "hist (foldl add s es) = rev (map item es)"
  using assms by (simp add: hist_foldl)

end

definition rb_add :: "mem \<times> ring_buffer \<Rightarrow> event_record \<times> u64 \<Rightarrow> mem \<times> ring_buffer" where
  "rb_add s e = rb_push (fst s) (snd s) (fst e) (snd e)"

interpretation rbh: recent_history rb_add fst "\<lambda>s. rb_contents (fst s) (snd s)"
  "\<lambda>s. unat (rb_capacity (snd s))" "\<lambda>s. rb_inv (snd s)"
proof unfold_locales
  fix s :: "mem \<times> ring_buffer" and e :: "event_record \<times> u64"
  assume inv: "rb_inv (snd s)"
  have push: "rb_push (fst s) (snd s) (fst e) (snd e) = (fst (rb_add s e), snd (rb_add s e))"
    by (simp add: rb_add_def)
  show "rb_inv (snd (rb_add s e))" by (rule rb_push_inv [OF inv push])
  show "unat (rb_capacity (snd (rb_add s e))) = unat (rb_capacity (snd s))"
    by (simp add: rb_push_simps(3) [OF push])
  show "rb_contents (fst (rb_add s e)) (snd (rb_add s e))
      = take (unat (rb_capacity (snd s))) (fst e # rb_contents (fst s) (snd s))"
    by (rule rb_push_contents [OF inv push])
qed

lemma rb_contents_le_capacity: "rb_inv b \<Longrightarrow> length (rb_contents m b) \<le> unat (rb_capacity b)"
  by (simp add: rb_inv_def word_le_nat_alt)

section \<open>Properties\<close>

text \<open>A buffer of capacity 2 with one record, used to instantiate the properties.\<close>

definition sample_buffer :: ring_buffer where
  "sample_buffer = \<lparr>rb_data = 64, rb_capacity = 2, rb_head = 1, rb_count = 1, rb_last_write_ts = 5\<rparr>"

lemma sample_buffer_inv: "rb_inv sample_buffer"
  by (simp add: sample_buffer_def rb_inv_def)

text \<open>
  After any sequence of pushes a buffer holds the most recent records, newest first, up to its
  capacity, and stays well formed.
\<close>

lemma push_sequence_history:
  assumes "rb_inv b"
  shows "rb_contents (fst (foldl rb_add (m, b) es)) (snd (foldl rb_add (m, b) es))
           = take (unat (rb_capacity b)) (rev (map fst es) @ rb_contents m b)
     \<and> rb_inv (snd (foldl rb_add (m, b) es))"
  using rbh.hist_foldl [of "(m, b)" es] rbh.ok_foldl [of "(m, b)" es] assms rb_contents_le_capacity [OF assms]
  by simp

text \<open>
  \<open>get_last\<close> copies the newest \<open>min n count\<close> records, newest first, to the front of the output
  slice, leaves the rest of the slice alone and returns their number; it panics exactly when the
  slice is too short for them.
\<close>

lemma get_last_behaviour:
  "rb_get_last m b n out =
     (if unat (min n (rb_count b)) \<le> length out
      then Some (take (unat n) (rb_contents m b) @ drop (unat (min n (rb_count b))) out, min n (rb_count b))
      else None)"
  by (simp add: rb_get_last_eq) (simp add: rb_get_last_def get_last_loop_short Let_def)

text \<open>
  C26: a push writes only to the bytes of the buffer's own slot, so the memory outside it (other
  users' slots, the free-list links) is unchanged.
\<close>

theorem push_stays_in_slot:
  assumes "rb_inv b" and "x < rb_data b \<or> rb_data b + unat (rb_capacity b) * 17 \<le> x"
  shows "fst (rb_push m b r ts) x = m x"
  by (rule rb_push_frame [OF assms(1) surjective_pairing assms(2)])

theorem push_stays_in_slot_witness: "fst (rb_push (\<lambda>_. 7) sample_buffer default_record 1) 98 = 7"
  using push_stays_in_slot [OF sample_buffer_inv, of 98 "\<lambda>_. 7" default_record 1] by (simp add: sample_buffer_def)

end
