(* ===== verification/Event_Log.thy ===== *)
theory Event_Log
  imports Record_Wire
begin

text \<open>
  The abstract specification of the event store: a partial map from user ids to a history
  (records newest first, and the server time of the last write). The write-ahead log, the
  snapshot, recovery and the commands are all related to this map.

  The locale \<open>event_store\<close> is the contract between the concrete store and its clients (command
  handlers and recovery): pushing conses and truncates, erasing removes, and a push fails only
  when a new key finds every slot taken. Its client lemma \<open>run_view\<close> turns a whole sequence of
  logged operations into the abstract replay.
\<close>

type_synonym history = "event_record list \<times> u64"
type_synonym event_map = "u32 \<rightharpoonup> history"

text \<open>The two operations that reach the log, with their server timestamps.\<close>

datatype log_op = LPush u32 event_record u64 | LDel u32 u64

fun op_uid :: "log_op \<Rightarrow> u32" where
  "op_uid (LPush uid r ts) = uid"
| "op_uid (LDel uid ts) = uid"

fun op_ts :: "log_op \<Rightarrow> u64" where
  "op_ts (LPush uid r ts) = ts"
| "op_ts (LDel uid ts) = ts"

definition hist_records :: "event_map \<Rightarrow> u32 \<Rightarrow> event_record list" where
  "hist_records A uid = (case A uid of None \<Rightarrow> [] | Some (h, ts) \<Rightarrow> h)"

definition abs_push :: "nat \<Rightarrow> event_map \<Rightarrow> u32 \<Rightarrow> event_record \<Rightarrow> u64 \<Rightarrow> event_map" where
  "abs_push cap A uid r ts = A(uid \<mapsto> (take cap (r # hist_records A uid), ts))"

definition abs_erase :: "event_map \<Rightarrow> u32 \<Rightarrow> event_map" where
  "abs_erase A uid = A(uid := None)"

fun abs_apply :: "nat \<Rightarrow> event_map \<Rightarrow> log_op \<Rightarrow> event_map" where
  "abs_apply cap A (LPush uid r ts) = abs_push cap A uid r ts"
| "abs_apply cap A (LDel uid ts) = abs_erase A uid"

definition abs_replay :: "nat \<Rightarrow> event_map \<Rightarrow> log_op list \<Rightarrow> event_map" where
  "abs_replay cap A ops = foldl (abs_apply cap) A ops"

lemma abs_replay_simps [simp]:
  "abs_replay cap A [] = A"
  "abs_replay cap A (x # xs) = abs_replay cap (abs_apply cap A x) xs"
  "abs_replay cap A (xs @ ys) = abs_replay cap (abs_replay cap A xs) ys"
  by (simp_all add: abs_replay_def)

lemma abs_push_at: "abs_push cap A uid r ts uid = Some (take cap (r # hist_records A uid), ts)"
  by (simp add: abs_push_def)

lemma abs_push_other: "v \<noteq> uid \<Longrightarrow> abs_push cap A uid r ts v = A v"
  by (simp add: abs_push_def)

lemma abs_erase_at [simp]: "abs_erase A uid uid = None"
  and abs_erase_other: "v \<noteq> uid \<Longrightarrow> abs_erase A uid v = A v"
  by (simp_all add: abs_erase_def)

lemma dom_abs_push: "dom (abs_push cap A uid r ts) = insert uid (dom A)"
  by (auto simp: abs_push_def)

lemma dom_abs_erase: "dom (abs_erase A uid) = dom A - {uid}"
  by (auto simp: abs_erase_def)

lemma dom_abs_apply: "dom (abs_apply cap A x) \<subseteq> insert (op_uid x) (dom A)"
  by (cases x) (auto simp: dom_abs_push dom_abs_erase)

lemma dom_abs_replay: "dom (abs_replay cap A ops) \<subseteq> dom A \<union> op_uid ` set ops"
proof (induction ops arbitrary: A)
  case Nil
  then show ?case by simp
next
  case (Cons x xs)
  from Cons [of "abs_apply cap A x"] dom_abs_apply [of cap A x] show ?case by auto
qed

text \<open>Operations on other keys do not change a key, and a key depends on its own operations only.\<close>

lemma abs_replay_other:
  "uid \<notin> op_uid ` set ops \<Longrightarrow> abs_replay cap A ops uid = A uid"
proof (induction ops arbitrary: A)
  case Nil
  then show ?case by simp
next
  case (Cons x xs)
  then have "abs_apply cap A x uid = A uid"
    by (cases x) (auto simp: abs_push_other abs_erase_other)
  with Cons show ?case by simp
qed

text \<open>The pushes of one key, as a history: the last \<open>cap\<close> of them, newest first.\<close>

lemma abs_replay_pushes:
  assumes "\<And>x. x \<in> set ps \<Longrightarrow> \<exists>r ts. x = LPush uid r ts" and "ps \<noteq> []"
    and "length (hist_records A uid) \<le> cap"
  shows "hist_records (abs_replay cap A ps) uid
       = take cap (rev (map (\<lambda>x. case x of LPush u r ts \<Rightarrow> r | LDel u ts \<Rightarrow> default_record) ps)
           @ hist_records A uid)"
  using assms
proof (induction ps arbitrary: A)
  case Nil
  then show ?case by simp
next
  case (Cons x xs)
  from Cons.prems(1) [of x] obtain r ts where x: "x = LPush uid r ts" by auto
  have h: "hist_records (abs_push cap A uid r ts) uid = take cap (r # hist_records A uid)"
    by (simp add: hist_records_def abs_push_def)
  show ?case
  proof (cases "xs = []")
    case True
    with x h show ?thesis by simp
  next
    case False
    let ?f = "\<lambda>x. case x of LPush u r ts \<Rightarrow> r | LDel u ts \<Rightarrow> default_record"
    have "hist_records (abs_replay cap (abs_push cap A uid r ts) xs) uid
        = take cap (rev (map ?f xs) @ take cap (r # hist_records A uid))"
      using Cons.IH [of "abs_push cap A uid r ts"] Cons.prems False h by simp
    moreover have "take cap (ys @ take cap zs) = take cap (ys @ zs)" for ys zs :: "event_record list"
      by (simp only: take_append take_take min.absorb1 [OF diff_le_self])
    ultimately show ?thesis using x by simp
  qed
qed

text \<open>Loading a history by pushing it oldest first with one timestamp.\<close>

abbreviation pushes_of :: "u32 \<Rightarrow> u64 \<Rightarrow> event_record list \<Rightarrow> log_op list" where
  "pushes_of uid ts rs \<equiv> map (\<lambda>r. LPush uid r ts) rs"

lemma abs_replay_load:
  assumes "h \<noteq> []" and "length h \<le> cap" and "hist_records A uid = []"
  shows "abs_replay cap A (pushes_of uid ts (rev h)) = A(uid \<mapsto> (h, ts))"
proof
  fix v
  show "abs_replay cap A (pushes_of uid ts (rev h)) v = (A(uid \<mapsto> (h, ts))) v"
  proof (cases "v = uid")
    case False
    then show ?thesis by (subst abs_replay_other) auto
  next
    case True
    let ?B = "abs_replay cap A (pushes_of uid ts (rev h))"
    have "hist_records ?B uid = h"
      using abs_replay_pushes [of "pushes_of uid ts (rev h)" uid A cap] assms by (simp add: o_def) force
    moreover have "\<exists>h'. ?B uid = Some (h', ts)"
      using assms(1) by (cases h) (simp_all add: abs_push_at)
    ultimately show ?thesis using True by (auto simp: hist_records_def)
  qed
qed

section \<open>Histories with evictions\<close>

text \<open>Everything that changes the live map: logged operations, and evictions, which are not logged.\<close>

datatype store_event = Logged log_op | Evicted u32

fun abs_event :: "nat \<Rightarrow> event_map \<Rightarrow> store_event \<Rightarrow> event_map" where
  "abs_event cap A (Logged x) = abs_apply cap A x"
| "abs_event cap A (Evicted uid) = abs_erase A uid"

definition abs_run :: "nat \<Rightarrow> event_map \<Rightarrow> store_event list \<Rightarrow> event_map" where
  "abs_run cap A evs = foldl (abs_event cap) A evs"

fun logged :: "store_event list \<Rightarrow> log_op list" where
  "logged [] = []"
| "logged (Logged x # evs) = x # logged evs"
| "logged (Evicted uid # evs) = logged evs"

lemma abs_run_simps [simp]:
  "abs_run cap A [] = A"
  "abs_run cap A (e # evs) = abs_run cap (abs_event cap A e) evs"
  "abs_run cap A (xs @ ys) = abs_run cap (abs_run cap A xs) ys"
  by (simp_all add: abs_run_def)

lemma dom_abs_run: "dom (abs_run cap A evs) \<subseteq> dom A \<union> op_uid ` set (logged evs)"
proof (induction evs arbitrary: A)
  case (Cons e evs)
  show ?case
  proof (cases e)
    case (Logged x)
    then show ?thesis using Cons [of "abs_apply cap A x"] dom_abs_apply [of cap A x] by auto
  next
    case (Evicted uid)
    then show ?thesis using Cons [of "abs_erase A uid"] by (auto simp: dom_abs_erase)
  qed
qed simp

lemma logged_append [simp]: "logged (xs @ ys) = logged xs @ logged ys"
  by (induction xs rule: logged.induct) simp_all

lemma logged_map_Logged [simp]: "logged (map Logged xs) = xs"
  by (induction xs) simp_all

lemma abs_run_Logged: "abs_run cap A (map Logged xs) = abs_replay cap A xs"
  by (induction xs arbitrary: A) simp_all

lemma abs_apply_cong: "A uid = B uid \<Longrightarrow> abs_apply cap A x uid = abs_apply cap B x uid"
  by (cases x) (auto simp: abs_push_def abs_erase_def hist_records_def)

text \<open>A key that was never evicted has the history that the logged operations alone give it.\<close>

lemma abs_run_not_evicted:
  assumes "Evicted uid \<notin> set evs" and "A uid = B uid"
  shows "abs_run cap A evs uid = abs_replay cap B (logged evs) uid"
  using assms
proof (induction evs arbitrary: A B rule: logged.induct)
  case 1
  then show ?case by simp
next
  case (2 x evs)
  then have "abs_apply cap A x uid = abs_apply cap B x uid" by (intro abs_apply_cong) simp
  with 2 show ?case by simp
next
  case (3 u evs)
  then have "abs_erase A u uid = B uid" by (auto simp: abs_erase_def)
  with 3 show ?case by simp
qed

section \<open>The contract of an event store\<close>

locale event_store =
  fixes push :: "'s \<Rightarrow> u32 \<Rightarrow> event_record \<Rightarrow> u64 \<Rightarrow> panic + 's"
    and erase :: "'s \<Rightarrow> u32 \<Rightarrow> 's"
    and view :: "'s \<Rightarrow> event_map"
    and ok :: "'s \<Rightarrow> bool"
    and cap :: "'s \<Rightarrow> nat"
    and slots :: "'s \<Rightarrow> nat"
  assumes push_room: "ok s \<Longrightarrow> uid \<in> dom (view s) \<or> card (dom (view s)) < slots s
      \<Longrightarrow> \<exists>s'. push s uid r ts = Inr s' \<and> ok s' \<and> view s' = abs_push (cap s) (view s) uid r ts
             \<and> cap s' = cap s \<and> slots s' = slots s"
    and push_full: "ok s \<Longrightarrow> uid \<notin> dom (view s) \<Longrightarrow> card (dom (view s)) = slots s
      \<Longrightarrow> \<exists>e. push s uid r ts = Inl e"
    and erase_ok: "ok s \<Longrightarrow> ok (erase s uid) \<and> view (erase s uid) = abs_erase (view s) uid
             \<and> cap (erase s uid) = cap s \<and> slots (erase s uid) = slots s"
    and view_bound: "ok s \<Longrightarrow> finite (dom (view s)) \<and> card (dom (view s)) \<le> slots s"
begin

text \<open>Running logged operations against the store, stopping at the first panic.\<close>

fun apply_op :: "'s \<Rightarrow> log_op \<Rightarrow> panic + 's" where
  "apply_op s (LPush uid r ts) = push s uid r ts"
| "apply_op s (LDel uid ts) = Inr (erase s uid)"

fun run :: "'s \<Rightarrow> log_op list \<Rightarrow> panic + 's" where
  "run s [] = Inr s"
| "run s (x # xs) = (case apply_op s x of Inl e \<Rightarrow> Inl e | Inr s' \<Rightarrow> run s' xs)"

lemma apply_op_view:
  assumes "ok s" and "finite K" and "dom (view s) \<subseteq> K" and "op_uid x \<in> K" and "card K \<le> slots s"
  obtains s' where "apply_op s x = Inr s'" and "ok s'" and "view s' = abs_apply (cap s) (view s) x"
    and "cap s' = cap s" and "slots s' = slots s"
proof (cases x)
  case (LPush uid r ts)
  have "uid \<in> dom (view s) \<or> card (dom (view s)) < slots s"
  proof (cases "uid \<in> dom (view s)")
    case False
    with assms LPush have "dom (view s) \<subset> K" by auto
    then have "card (dom (view s)) < card K" using assms(2) by (rule psubset_card_mono [rotated])
    with assms(5) show ?thesis by simp
  qed simp
  from push_room [OF assms(1) this] LPush that show ?thesis by auto
next
  case (LDel uid ts)
  with erase_ok [OF assms(1), of uid] that show ?thesis by auto
qed

lemma run_view:
  assumes "ok s" and "finite K" and "dom (view s) \<union> op_uid ` set ops \<subseteq> K" and "card K \<le> slots s"
  shows "\<exists>s'. run s ops = Inr s' \<and> ok s' \<and> view s' = abs_replay (cap s) (view s) ops
            \<and> cap s' = cap s \<and> slots s' = slots s"
  using assms
proof (induction ops arbitrary: s)
  case Nil
  then show ?case by simp
next
  case (Cons x xs)
  then obtain s1 where s1: "apply_op s x = Inr s1" "ok s1" "view s1 = abs_apply (cap s) (view s) x"
    "cap s1 = cap s" "slots s1 = slots s"
    using apply_op_view [of s K x] by auto
  have "dom (view s1) \<union> op_uid ` set xs \<subseteq> K"
    using Cons.prems(3) dom_abs_apply [of "cap s" "view s" x] s1(3) by auto
  with Cons.IH [OF s1(2) Cons.prems(2)] Cons.prems(4) s1 show ?case by auto
qed

text \<open>
  Without a condition on the slots: a run panics exactly when the abstract replay of one of its first
  parts has more keys than there are slots.
\<close>

lemma apply_op_cases:
  assumes "ok s"
  shows "case apply_op s x of
      Inl e \<Rightarrow> slots s < card (dom (abs_apply (cap s) (view s) x))
    | Inr s' \<Rightarrow> ok s' \<and> view s' = abs_apply (cap s) (view s) x \<and> cap s' = cap s \<and> slots s' = slots s"
proof (cases x)
  case (LPush uid r ts)
  show ?thesis
  proof (cases "uid \<in> dom (view s) \<or> card (dom (view s)) < slots s")
    case True
    from push_room [OF assms True, of r ts] LPush show ?thesis by auto
  next
    case False
    with view_bound [OF assms] have full: "uid \<notin> dom (view s)" "card (dom (view s)) = slots s" "finite (dom (view s))" by auto
    then have "card (dom (abs_push (cap s) (view s) uid r ts)) = Suc (slots s)" by (simp add: dom_abs_push)
    with push_full [OF assms full(1,2), of r ts] LPush show ?thesis by auto
  qed
next
  case (LDel uid ts)
  with erase_ok [OF assms, of uid] show ?thesis by simp
qed

lemma run_fails_iff:
  assumes "ok s"
  shows "(\<exists>e. run s ops = Inl e) \<longleftrightarrow> (\<exists>j. slots s < card (dom (abs_replay (cap s) (view s) (take j ops))))"
  using assms
proof (induction ops arbitrary: s)
  case Nil
  then show ?case using view_bound [of s] by (simp add: not_less)
next
  case (Cons x xs)
  note c = apply_op_cases [OF Cons.prems, of x]
  show ?case
  proof (cases "apply_op s x")
    case (Inl e)
    with c have "slots s < card (dom (abs_replay (cap s) (view s) (take (Suc 0) (x # xs))))" by simp
    with Inl show ?thesis by (simp del: take_Suc_Cons abs_replay_simps) blast
  next
    case (Inr s1)
    with c have s1: "ok s1" "view s1 = abs_apply (cap s) (view s) x" "cap s1 = cap s" "slots s1 = slots s" by simp_all
    have "(\<exists>j. slots s < card (dom (abs_replay (cap s) (view s) (take j (x # xs)))))
        \<longleftrightarrow> (\<exists>j. slots s < card (dom (abs_replay (cap s) (view s1) (take j xs))))" (is "(\<exists>j. ?P j) \<longleftrightarrow> (\<exists>j. ?Q j)")
    proof -
      have "\<not> ?P 0" using view_bound [OF Cons.prems] by (simp add: not_less)
      moreover have "?P (Suc j) \<longleftrightarrow> ?Q j" for j by (simp add: s1(2))
      ultimately show ?thesis by (metis not0_implies_Suc)
    qed
    with Cons.IH [OF s1(1)] s1 Inr show ?thesis by simp
  qed
qed

end

end
