(* ===== verification/Store.thy ===== *)
theory Store
  imports Store_Alloc Ring_Buffer Event_Log
begin

text \<open>
  \<^verbatim>\<open>Store\<close> of \<^verbatim>\<open>src/store.rs\<close>: the map from user ids to ring buffers over the slots of
  its allocator. The hash map is a partial map; \<open>for_each\<close> takes the order in which the hash
  map iterates as an argument, since the library fixes none. A raw pointer returned by
  \<open>get_or_create\<close> or \<open>get\<close> is represented by the key it was obtained for.

  The invariant \<open>store_inv\<close> says that live buffers own disjoint slots of the allocator, that
  the rest of the slots are on its free list, and that every buffer is well formed; it is kept
  by every operation, and under it the store implements the contract \<open>event_store\<close>.
\<close>

section \<open>The model\<close>

record store =
  st_map :: "u32 \<rightharpoonup> ring_buffer"
  st_alloc :: store_alloc
  st_capacity :: u16
  st_mem :: mem

definition with_pool_slots :: "nat \<Rightarrow> u32 \<Rightarrow> addr option \<Rightarrow> mem \<Rightarrow> panic + store" where
  "with_pool_slots n n_slots os m =
     (let capacity = word_of_nat n
      in case store_alloc_new capacity n_slots os m of
           Inl e \<Rightarrow> Inl e
         | Inr (m', a) \<Rightarrow>
             Inr \<lparr>st_map = Map.empty, st_alloc = a, st_capacity = capacity, st_mem = m'\<rparr>)"

definition store_new :: "nat \<Rightarrow> addr option \<Rightarrow> mem \<Rightarrow> panic + store" where
  "store_new n os m = with_pool_slots n MEMORY_POOL_SLOTS_DEFAULT os m"

definition get_or_create :: "store \<Rightarrow> u32 \<Rightarrow> panic + store" where
  "get_or_create s uid =
     (case st_map s uid of
        Some b \<Rightarrow> Inr s
      | None \<Rightarrow>
          (case sa_alloc (st_mem s) (st_alloc s) of
             Inl e \<Rightarrow> Inl e
           | Inr (data, a') \<Rightarrow>
               Inr (s\<lparr>st_alloc := a',
                      st_map := (st_map s)(uid \<mapsto>
                        \<lparr>rb_data = data, rb_capacity = st_capacity s, rb_head = 0, rb_count = 0,
                         rb_last_write_ts = 0\<rparr>)\<rparr>)))"

definition store_get :: "store \<Rightarrow> u32 \<Rightarrow> ring_buffer option" where
  "store_get s uid = st_map s uid"

definition store_erase :: "store \<Rightarrow> u32 \<Rightarrow> store" where
  "store_erase s uid =
     (case st_map s uid of
        None \<Rightarrow> s
      | Some b \<Rightarrow>
          let s1 = s\<lparr>st_map := (st_map s)(uid := None)\<rparr>
          in case sa_free (st_mem s1) (st_alloc s1) (rb_data b) of
               (m', a') \<Rightarrow> s1\<lparr>st_mem := m', st_alloc := a'\<rparr>)"

text \<open>The iteration order of the hash map: every key once.\<close>

definition hash_order :: "(u32 \<rightharpoonup> 'v) \<Rightarrow> u32 list \<Rightarrow> bool" where
  "hash_order m order \<longleftrightarrow> distinct order \<and> set order = dom m"

definition store_for_each ::
  "u32 list \<Rightarrow> store \<Rightarrow> (u32 \<Rightarrow> ring_buffer \<Rightarrow> 'b \<Rightarrow> 'b) \<Rightarrow> 'b \<Rightarrow> 'b" where
  "store_for_each order s f acc =
     fold (\<lambda>uid acc. case st_map s uid of None \<Rightarrow> acc | Some b \<Rightarrow> f uid b acc) order acc"

definition store_len :: "store \<Rightarrow> nat" where
  "store_len s = card (dom (st_map s))"

definition store_is_empty :: "store \<Rightarrow> bool" where
  "store_is_empty s \<longleftrightarrow> store_len s = 0"

text \<open>\<^verbatim>\<open>(*buf).push(rec, ts)\<close> through the pointer of a key that is in the map.\<close>

definition buf_push :: "store \<Rightarrow> u32 \<Rightarrow> event_record \<Rightarrow> u64 \<Rightarrow> store" where
  "buf_push s uid r ts =
     (case st_map s uid of
        None \<Rightarrow> s
      | Some b \<Rightarrow>
          (case rb_push (st_mem s) b r ts of
             (m', b') \<Rightarrow> s\<lparr>st_mem := m', st_map := (st_map s)(uid \<mapsto> b')\<rparr>))"

text \<open>The pair of lines that PUSH and the replay share: \<open>get_or_create\<close>, then \<open>push\<close>.\<close>

definition store_push :: "store \<Rightarrow> u32 \<Rightarrow> event_record \<Rightarrow> u64 \<Rightarrow> panic + store" where
  "store_push s uid r ts =
     (case get_or_create s uid of Inl e \<Rightarrow> Inl e | Inr s1 \<Rightarrow> Inr (buf_push s1 uid r ts))"

section \<open>Invariant and abstract view\<close>

abbreviation st_width :: "store \<Rightarrow> nat" where
  "st_width s \<equiv> sa_slot_size (st_capacity s)"

definition live_slots :: "store \<Rightarrow> addr set" where
  "live_slots s = rb_data ` ran (st_map s)"

definition store_bufs_ok :: "store \<Rightarrow> bool" where
  "store_bufs_ok s \<longleftrightarrow>
     (\<forall>uid b. st_map s uid = Some b \<longrightarrow> rb_inv b \<and> rb_capacity b = st_capacity s)
     \<and> (\<forall>u v b c. st_map s u = Some b \<and> st_map s v = Some c \<and> rb_data b = rb_data c \<longrightarrow> u = v)"

definition store_inv :: "store \<Rightarrow> bool" where
  "store_inv s \<longleftrightarrow>
     0 < st_capacity s \<and> store_bufs_ok s
     \<and> (\<exists>fl. sal.slot_partition (st_width s) (st_mem s) (st_alloc s) fl (live_slots s))"

definition store_view :: "store \<Rightarrow> event_map" where
  "store_view s uid = map_option (\<lambda>b. (rb_contents (st_mem s) b, rb_last_write_ts b)) (st_map s uid)"

definition store_slots :: "store \<Rightarrow> nat" where
  "store_slots s = length (sa_slots (st_width s) (st_alloc s))"

lemma dom_store_view [simp]: "dom (store_view s) = dom (st_map s)"
  by (auto simp: store_view_def)

lemma store_bufs_okD:
  assumes "store_bufs_ok s" and "st_map s uid = Some b"
  shows "rb_inv b" and "rb_capacity b = st_capacity s"
  using assms by (auto simp: store_bufs_ok_def)

lemma store_bufs_ok_inj:
  "store_bufs_ok s \<Longrightarrow> st_map s u = Some b \<Longrightarrow> st_map s v = Some c \<Longrightarrow> rb_data b = rb_data c \<Longrightarrow> u = v"
  by (auto simp: store_bufs_ok_def)

lemma live_slotsI: "st_map s uid = Some b \<Longrightarrow> rb_data b \<in> live_slots s"
  by (auto simp: live_slots_def ran_def)

text \<open>The slot of a key, and the live slots as its image.\<close>

abbreviation slot_of :: "store \<Rightarrow> u32 \<Rightarrow> addr" where
  "slot_of s u \<equiv> rb_data (the (st_map s u))"

lemma live_slots_image: "live_slots s = slot_of s ` dom (st_map s)"
  by (force simp: live_slots_def ran_def)

lemma inj_slot_of: "store_bufs_ok s \<Longrightarrow> inj_on (slot_of s) (dom (st_map s))"
  using store_bufs_ok_inj by (fastforce simp: inj_on_def)

lemma card_live_slots: "store_bufs_ok s \<Longrightarrow> card (live_slots s) = card (dom (st_map s))"
  by (simp add: live_slots_image card_image inj_slot_of)

lemma live_slots_update:
  assumes "st_map s uid = Some b" and "st_map s' = (st_map s)(uid \<mapsto> b')" and "rb_data b' = rb_data b"
  shows "live_slots s' = live_slots s"
  unfolding live_slots_image
  by (rule image_cong) (use assms in \<open>auto split: if_splits\<close>)

lemma live_slots_remove:
  assumes "store_bufs_ok s" and "st_map s uid = Some b" and "st_map s' = (st_map s)(uid := None)"
  shows "live_slots s' = live_slots s - {rb_data b}"
proof -
  have "live_slots s' = slot_of s ` (dom (st_map s) - {uid})"
    unfolding live_slots_image by (rule image_cong) (use assms(3) in auto)
  also have "\<dots> = slot_of s ` dom (st_map s) - slot_of s ` {uid}"
    using assms(2) by (intro inj_on_image_set_diff [OF inj_slot_of [OF assms(1)]]) auto
  finally show ?thesis using assms(2) by (simp add: live_slots_image)
qed

lemma rb_contents_same_range:
  assumes "rb_inv b" and "same_range m m' (rb_data b) (sa_slot_size (rb_capacity b))"
  shows "rb_contents m b = rb_contents m' b"
proof -
  have "read_record m (rb_data b + rb_index b i * 17) = read_record m' (rb_data b + rb_index b i * 17)" for i
  proof (rule same_range_read_record [OF assms(2)])
    have "rb_index b i + 1 \<le> unat (rb_capacity b)" using rb_index_less [OF assms(1), of i] by simp
    then have "(rb_index b i + 1) * 17 \<le> unat (rb_capacity b) * 17" by (rule mult_le_mono1)
    with sa_slot_size_records [of "rb_capacity b"]
    show "rb_data b + rb_index b i * 17 + 17 \<le> rb_data b + sa_slot_size (rb_capacity b)" by simp
  qed simp
  then show ?thesis by (simp add: rb_contents_def)
qed

section \<open>Every operation keeps the invariant\<close>

subsection \<open>Construction\<close>

lemma with_pool_slots_inv:
  assumes "0 < (word_of_nat n :: u16)" and "0 < slots"
    and "region_ok base (sa_slot_size (word_of_nat n)) (unat slots)"
    and "with_pool_slots n slots (Some base) m = Inr s"
  shows "store_inv s" and "store_view s = Map.empty" and "store_slots s = unat slots"
    and "st_capacity s = word_of_nat n"
proof -
  from assms(4) obtain m' a where new: "store_alloc_new (word_of_nat n) slots (Some base) m = Inr (m', a)"
    and s: "s = \<lparr>st_map = Map.empty, st_alloc = a, st_capacity = word_of_nat n, st_mem = m'\<rparr>"
    by (auto simp: with_pool_slots_def Let_def split: sum.splits)
  note fl = store_alloc_new_free_list [OF assms(3,2) new]
  show "store_inv s"
    using assms(1) fl by (auto simp: store_inv_def s store_bufs_ok_def live_slots_def sal.slot_partition_def)
  show "store_view s = Map.empty" by (auto simp: store_view_def s)
  show "store_slots s = unat slots" by (simp add: store_slots_def s fl(2)) (simp add: slot_addrs_def)
  show "st_capacity s = word_of_nat n" by (simp add: s)
qed

subsection \<open>get\_or\_create\<close>

lemma get_or_create_old: "st_map s uid = Some b \<Longrightarrow> get_or_create s uid = Inr s"
  by (simp add: get_or_create_def)

lemma get_or_create_new:
  assumes inv: "store_inv s" and new: "st_map s uid = None"
    and room: "card (dom (st_map s)) < store_slots s"
  obtains s' where "get_or_create s uid = Inr s'" and "store_inv s'"
    and "store_view s' = (store_view s)(uid \<mapsto> ([], 0))"
    and "st_capacity s' = st_capacity s" and "store_slots s' = store_slots s"
    and "uid \<in> dom (st_map s')"
proof -
  from inv obtain fl where bufs: "store_bufs_ok s" and cap: "0 < st_capacity s"
    and part: "sal.slot_partition (st_width s) (st_mem s) (st_alloc s) fl (live_slots s)"
    by (auto simp: store_inv_def)
  have "length fl + card (live_slots s) = store_slots s"
    using sal.partition_card(1) [OF part] by (simp add: store_slots_def)
  with room card_live_slots [OF bufs] obtain d fl' where fl: "fl = d # fl'"
    by (cases fl) auto
  from sal.partition_alloc [OF part [unfolded fl]] obtain a'
    where al: "sa_alloc (st_mem s) (st_alloc s) = Inr (d, a')"
      and part': "sal.slot_partition (st_width s) (st_mem s) a' fl' (insert d (live_slots s))"
      and sl: "sa_slots (st_width s) a' = sa_slots (st_width s) (st_alloc s)" and d: "d \<notin> live_slots s"
    by blast
  let ?b = "\<lparr>rb_data = d, rb_capacity = st_capacity s, rb_head = 0, rb_count = 0, rb_last_write_ts = 0\<rparr>"
  let ?s = "s\<lparr>st_alloc := a', st_map := (st_map s)(uid \<mapsto> ?b)\<rparr>"
  have live: "live_slots ?s = insert d (live_slots s)"
    using new by (simp add: live_slots_def)
  have "store_bufs_ok ?s"
    using bufs cap d live_slotsI [of s] by (fastforce simp: store_bufs_ok_def rb_inv_def)
  with part' live cap have "store_inv ?s" by (auto simp: store_inv_def)
  moreover have "store_view ?s = (store_view s)(uid \<mapsto> ([], 0))"
    by (auto simp: store_view_def rb_contents_def)
  ultimately show ?thesis
    using that [of ?s] al new sl by (simp add: get_or_create_def store_slots_def)
qed

lemma get_or_create_full:
  assumes inv: "store_inv s" and new: "st_map s uid = None"
    and full: "card (dom (st_map s)) = store_slots s"
  shows "\<exists>e. get_or_create s uid = Inl e"
proof -
  from inv obtain fl where bufs: "store_bufs_ok s"
    and part: "sal.slot_partition (st_width s) (st_mem s) (st_alloc s) fl (live_slots s)"
    by (auto simp: store_inv_def)
  have "length fl + card (live_slots s) = store_slots s"
    using sal.partition_card(1) [OF part] by (simp add: store_slots_def)
  with full card_live_slots [OF bufs] have "fl = []" by simp
  with sal.partition_full(1) part new show ?thesis by (fastforce simp: get_or_create_def)
qed

subsection \<open>push through a buffer pointer\<close>

lemma buf_push_ok:
  assumes inv: "store_inv s" and b: "st_map s uid = Some b"
  shows "store_inv (buf_push s uid r ts)"
    and "store_view (buf_push s uid r ts) = abs_push (unat (st_capacity s)) (store_view s) uid r ts"
    and "st_capacity (buf_push s uid r ts) = st_capacity s"
    and "store_slots (buf_push s uid r ts) = store_slots s"
proof -
  obtain m' b' where push: "rb_push (st_mem s) b r ts = (m', b')" by fastforce
  let ?s = "s\<lparr>st_mem := m', st_map := (st_map s)(uid \<mapsto> b')\<rparr>"
  have eq: "buf_push s uid r ts = ?s" by (simp add: buf_push_def b push)
  from inv obtain fl where bufs: "store_bufs_ok s"
    and part: "sal.slot_partition (st_width s) (st_mem s) (st_alloc s) fl (live_slots s)"
    by (auto simp: store_inv_def)
  note bok = store_bufs_okD [OF bufs b] and live = live_slotsI [OF b]
  have fr: "m' x = st_mem s x" if "x < rb_data b \<or> rb_data b + st_width s \<le> x" for x
    using that sa_slot_size_records [of "st_capacity s"] bok(2)
    by (intro rb_push_frame [OF bok(1) push]) auto
  have wr1: "sal.slot_partition (st_width s) m' (st_alloc s) fl (live_slots s)"
    by (rule sal.partition_write(1) [OF part live fr])
  have wr2: "same_range m' (st_mem s) d (st_width s)" if "d \<in> live_slots s" "d \<noteq> rb_data b" for d
    by (rule sal.partition_write(2) [OF part live fr that])
  have live': "live_slots ?s = live_slots s"
    by (rule live_slots_update [OF b _ rb_push_simps(2) [OF push]]) simp
  have bufs': "store_bufs_ok ?s"
    using bufs bok rb_push_inv [OF bok(1) push] rb_push_simps(2,3) [OF push] store_bufs_ok_inj [OF bufs] b
    by (auto simp: store_bufs_ok_def)
  with bufs' live' wr1 inv show "store_inv (buf_push s uid r ts)"
    unfolding eq by (auto simp: store_inv_def)
  have "rb_contents m' c = rb_contents (st_mem s) c" if c: "st_map s v = Some c" and ne: "v \<noteq> uid" for v c
  proof -
    have "rb_data c \<noteq> rb_data b" using store_bufs_ok_inj [OF bufs c b] ne by blast
    then show ?thesis
      using wr2 [OF live_slotsI [OF c]] store_bufs_okD [OF bufs c] by (intro rb_contents_same_range) auto
  qed
  then show "store_view (buf_push s uid r ts) = abs_push (unat (st_capacity s)) (store_view s) uid r ts"
    unfolding eq using b bok rb_push_contents [OF bok(1) push] rb_push_simps(6) [OF push]
    by (auto simp: fun_eq_iff store_view_def abs_push_def hist_records_def intro!: option.map_cong)
  show "st_capacity (buf_push s uid r ts) = st_capacity s" "store_slots (buf_push s uid r ts) = store_slots s"
    unfolding eq by (simp_all add: store_slots_def)
qed

subsection \<open>erase\<close>

lemma store_erase_ok:
  assumes inv: "store_inv s"
  shows "store_inv (store_erase s uid)"
    and "store_view (store_erase s uid) = abs_erase (store_view s) uid"
    and "st_capacity (store_erase s uid) = st_capacity s"
    and "store_slots (store_erase s uid) = store_slots s"
proof -
  have "store_inv (store_erase s uid)
      \<and> store_view (store_erase s uid) = abs_erase (store_view s) uid
      \<and> st_capacity (store_erase s uid) = st_capacity s
      \<and> store_slots (store_erase s uid) = store_slots s"
  proof (cases "st_map s uid")
    case None
    then show ?thesis using inv by (auto simp: store_erase_def abs_erase_def store_view_def)
  next
    case (Some b)
    obtain m' a' where fr: "sa_free (st_mem s) (st_alloc s) (rb_data b) = (m', a')" by fastforce
    let ?s = "s\<lparr>st_map := (st_map s)(uid := None), st_mem := m', st_alloc := a'\<rparr>"
    have eq: "store_erase s uid = ?s" by (simp add: store_erase_def Some fr)
    from inv obtain fl where bufs: "store_bufs_ok s"
      and part: "sal.slot_partition (st_width s) (st_mem s) (st_alloc s) fl (live_slots s)"
      by (auto simp: store_inv_def)
    note pf = sal.partition_free [OF part live_slotsI [OF Some] fr]
    have live': "live_slots ?s = live_slots s - {rb_data b}"
      by (rule live_slots_remove [OF bufs Some]) simp
    have bufs': "store_bufs_ok ?s" using bufs by (auto simp: store_bufs_ok_def split: if_splits)
      with pf(1) live' bufs' inv have "store_inv ?s" by (auto simp: store_inv_def)
    moreover have "rb_contents m' c = rb_contents (st_mem s) c"
      if c: "st_map s v = Some c" and ne: "v \<noteq> uid" for v c
      using pf(3) [OF live_slotsI [OF c]] store_bufs_ok_inj [OF bufs c Some] ne store_bufs_okD [OF bufs c]
      by (intro rb_contents_same_range) auto
    then have "store_view ?s = abs_erase (store_view s) uid"
      by (auto simp: fun_eq_iff store_view_def abs_erase_def intro: option.map_cong)
    ultimately show ?thesis unfolding eq using pf(2) by (simp add: store_slots_def)
  qed
  then show "store_inv (store_erase s uid)"
    "store_view (store_erase s uid) = abs_erase (store_view s) uid"
    "st_capacity (store_erase s uid) = st_capacity s"
    "store_slots (store_erase s uid) = store_slots s" by auto
qed

section \<open>The store implements the contract\<close>

lemma abs_push_fresh:
  "A uid = None \<Longrightarrow> abs_push cap (A(uid \<mapsto> ([], 0))) uid r ts = abs_push cap A uid r ts"
  by (simp add: abs_push_def hist_records_def)

lemma store_push_room:
  assumes inv: "store_inv s" and room: "uid \<in> dom (st_map s) \<or> card (dom (st_map s)) < store_slots s"
  shows "\<exists>s'. store_push s uid r ts = Inr s' \<and> store_inv s'
      \<and> store_view s' = abs_push (unat (st_capacity s)) (store_view s) uid r ts
      \<and> st_capacity s' = st_capacity s \<and> store_slots s' = store_slots s"
proof (cases "st_map s uid")
  case (Some b)
  then show ?thesis using buf_push_ok [OF inv Some] by (simp add: store_push_def get_or_create_old)
next
  case None
  with room have "card (dom (st_map s)) < store_slots s" by auto
  from get_or_create_new [OF inv None this] obtain s1 where
    s1: "get_or_create s uid = Inr s1" "store_inv s1" "store_view s1 = (store_view s)(uid \<mapsto> ([], 0))"
    "st_capacity s1 = st_capacity s" "store_slots s1 = store_slots s" "uid \<in> dom (st_map s1)" by metis
  then obtain b where b: "st_map s1 uid = Some b" by auto
  have "store_view s uid = None" using None by (simp add: store_view_def)
  then show ?thesis
    using buf_push_ok [OF s1(2) b, of r ts] s1 by (simp add: store_push_def abs_push_fresh)
qed

lemma store_push_full:
  assumes "store_inv s" and "uid \<notin> dom (st_map s)" and "card (dom (st_map s)) = store_slots s"
  shows "\<exists>e. store_push s uid r ts = Inl e"
  using get_or_create_full [OF assms(1) _ assms(3), of uid] assms(2)
  by (auto simp: store_push_def domIff)

lemma store_inv_card: "store_inv s \<Longrightarrow> card (dom (st_map s)) \<le> store_slots s"
  using sal.partition_card(1) card_live_slots
  by (fastforce simp: store_inv_def store_slots_def)

interpretation es: event_store store_push store_erase store_view store_inv
  "\<lambda>s. unat (st_capacity s)" store_slots
proof unfold_locales
  fix s :: store and uid :: u32 and r :: event_record and ts :: u64
  assume inv: "store_inv s"
  show "\<exists>s'. store_push s uid r ts = Inr s' \<and> store_inv s'
      \<and> store_view s' = abs_push (unat (st_capacity s)) (store_view s) uid r ts
      \<and> unat (st_capacity s') = unat (st_capacity s) \<and> store_slots s' = store_slots s"
    if "uid \<in> dom (store_view s) \<or> card (dom (store_view s)) < store_slots s"
    using store_push_room [OF inv, of uid r ts] that by auto
  show "\<exists>e. store_push s uid r ts = Inl e"
    if "uid \<notin> dom (store_view s)" "card (dom (store_view s)) = store_slots s"
    using store_push_full [OF inv] that by simp
  show "store_inv (store_erase s uid) \<and> store_view (store_erase s uid) = abs_erase (store_view s) uid
      \<and> unat (st_capacity (store_erase s uid)) = unat (st_capacity s)
      \<and> store_slots (store_erase s uid) = store_slots s"
    by (simp add: store_erase_ok [OF inv])
  show "finite (dom (store_view s)) \<and> card (dom (store_view s)) \<le> store_slots s"
    using store_inv_card [OF inv] by simp
qed

section \<open>Properties\<close>

text \<open>Applying logged operations to the store, one after the other, until one panics.\<close>

fun store_apply :: "store \<Rightarrow> log_op \<Rightarrow> panic + store" where
  "store_apply s (LPush uid r ts) = store_push s uid r ts"
| "store_apply s (LDel uid ts) = Inr (store_erase s uid)"

fun store_run :: "store \<Rightarrow> log_op list \<Rightarrow> panic + store" where
  "store_run s [] = Inr s"
| "store_run s (x # xs) = (case store_apply s x of Inl e \<Rightarrow> Inl e | Inr s' \<Rightarrow> store_run s' xs)"

lemma store_run_eq: "store_run s ops = es.run s ops"
proof (induction ops arbitrary: s)
  case (Cons x xs)
  have "store_apply s x = es.apply_op s x" by (cases x) simp_all
  with Cons show ?case by (simp split: sum.split)
qed simp

text \<open>A store of capacity 2 with four slots, used to instantiate the properties.\<close>

definition sample_store :: store where
  "sample_store = projr (with_pool_slots 2 4 (Some 4096) (\<lambda>_. 0))"

lemma sample_slot_size: "sa_slot_size 2 = 40"
  by (simp add: sa_slot_size_def next_multiple_of_def)

lemma sample_store_new: "with_pool_slots 2 4 (Some 4096) (\<lambda>_. 0) = Inr sample_store"
  by (simp add: sample_store_def with_pool_slots_def store_alloc_new_def Let_def sample_slot_size)

lemma sample_store_ok:
  "store_inv sample_store" "store_view sample_store = Map.empty" "store_slots sample_store = 4"
  "st_capacity sample_store = 2"
  using with_pool_slots_inv [OF _ _ _ sample_store_new]
  by (simp_all add: region_ok_def sample_slot_size)

text \<open>
  C7: the store implements its specification. As long as the slots suffice for all keys involved,
  any sequence of pushes and erasures runs without a panic, keeps the invariant, and leaves for
  every user exactly the history that the abstract map gives: the most recent records, newest
  first, up to the capacity, with the time of the last write; other users are not affected.
\<close>

theorem store_implements_log:
  assumes "store_inv s" and "finite K" and "dom (store_view s) \<union> op_uid ` set ops \<subseteq> K"
    and "card K \<le> store_slots s"
  shows "\<exists>s'. store_run s ops = Inr s' \<and> store_inv s'
     \<and> store_view s' = abs_replay (unat (st_capacity s)) (store_view s) ops"
  using es.run_view [OF assms] by (auto simp: store_run_eq)

theorem store_implements_log_witness:
  "\<exists>s'. store_run sample_store [LPush 7 default_record 1, LPush 7 default_record 2, LPush 7 default_record 3,
           LPush 9 default_record 4, LDel 9 5] = Inr s'
     \<and> store_view s' = [7 \<mapsto> ([default_record, default_record], 3)]"
  using store_implements_log [OF sample_store_ok(1), of "{7, 9}" "[LPush 7 default_record 1,
      LPush 7 default_record 2, LPush 7 default_record 3, LPush 9 default_record 4, LDel 9 5]"]
  by (auto simp: sample_store_ok abs_push_def abs_erase_def hist_records_def fun_upd_twist)

text \<open>
  C27: a push fails exactly when its key is new and every slot is taken, and then it panics;
  otherwise it succeeds.
\<close>

theorem store_push_fails_iff:
  assumes "store_inv s"
  shows "(\<exists>e. store_push s uid r ts = Inl e) \<longleftrightarrow>
     uid \<notin> dom (store_view s) \<and> card (dom (store_view s)) = store_slots s"
  using store_push_room [OF assms, of uid r ts] store_push_full [OF assms, of uid r ts] store_inv_card [OF assms]
  by (cases "uid \<in> dom (st_map s)") force+

theorem store_push_fails_iff_witness: "\<not> (\<exists>e. store_push sample_store 7 default_record 1 = Inl e)"
  using store_push_fails_iff [OF sample_store_ok(1), of 7 default_record 1] by (simp add: sample_store_ok)

text \<open>
  A new store whose memory the operating system granted is well formed, empty, and has one slot
  for each configured slot.
\<close>

lemma store_new_wellformed:
  assumes "compiled_n_ok n" and "0 < slots" and "region_ok base (sa_slot_size (word_of_nat n)) (unat slots)"
    and "with_pool_slots n slots (Some base) m = Inr s"
  shows "store_inv s \<and> store_view s = Map.empty \<and> store_slots s = unat slots \<and> store_is_empty s
     \<and> unat (st_capacity s) = n"
  using with_pool_slots_inv [OF compiled_n_u16_pos [OF assms(1)] assms(2-4)] compiled_n_u16 [OF assms(1)]
    dom_store_view [of s]
  by (simp add: store_is_empty_def store_len_def)

section \<open>The memory of the store\<close>

text \<open>The region that is given back at the end is the one that was obtained, whatever happened in between.\<close>

lemma sa_alloc_region: "sa_alloc m a = Inr (p, a') \<Longrightarrow> sa_drop a' = sa_drop a"
  by (cases a) (auto simp: alloc_slot_def memory_pool_drop_def Let_def split: if_splits sum.splits)

lemma sa_free_region: "sa_free m a p = (m', a') \<Longrightarrow> sa_drop a' = sa_drop a"
  by (cases a) (auto simp: free_slot_def memory_pool_drop_def)

lemma get_or_create_region: "get_or_create s uid = Inr s' \<Longrightarrow> sa_drop (st_alloc s') = sa_drop (st_alloc s)"
  by (auto simp: get_or_create_def split: option.splits sum.splits dest: sa_alloc_region)

lemma store_erase_region: "sa_drop (st_alloc (store_erase s uid)) = sa_drop (st_alloc s)"
  by (auto simp: store_erase_def Let_def split: option.splits prod.splits dest: sa_free_region)

lemma buf_push_region: "st_alloc (buf_push s uid r ts) = st_alloc s"
  by (auto simp: buf_push_def split: option.splits prod.splits)

lemma store_apply_region: "store_apply s x = Inr s' \<Longrightarrow> sa_drop (st_alloc s') = sa_drop (st_alloc s)"
  by (cases x)
    (auto simp: store_push_def buf_push_region store_erase_region dest: get_or_create_region split: sum.splits)

lemma store_run_region: "store_run s ops = Inr s' \<Longrightarrow> sa_drop (st_alloc s') = sa_drop (st_alloc s)"
  by (induction s ops rule: store_run.induct) (auto simp: store_apply_region split: sum.splits)

lemma store_drop_releases:
  assumes "with_pool_slots n slots (Some base) m = Inr s" and "store_run s ops = Inr s'"
  shows "sa_drop (st_alloc s') = (base, unat slots * sa_slot_size (word_of_nat n))"
  using assms(1) store_run_region [OF assms(2)]
  by (auto simp: with_pool_slots_def store_alloc_new_def memory_pool_new_def memory_pool_drop_def Let_def
      split: if_splits sum.splits)

end
