(* ===== verification/Config.thy ===== *)
theory Config
  imports Error Constants
begin

text \<open>
  \<^verbatim>\<open>src/config.rs\<close>: loading and validating the configuration. Reading the file and parsing
  TOML are library calls and therefore arguments; what the parser delivers is a table of optional
  fields, from which the serde attributes of \<^verbatim>\<open>RawConfig\<close> are modelled: a missing required
  field is a parse error, a missing optional one takes its default function.
\<close>

section \<open>The model\<close>

datatype fsync_mode = Always | Everysec | No

record config =
  max_records :: u16
  ttl_seconds :: u64
  aof_path :: string
  snapshot_path :: string
  snapshot_interval :: u32
  listen_port :: u16
  memory_pool_slots :: u32
  aof_fsync :: fsync_mode

record raw_config =
  raw_max_records :: u16
  raw_ttl_seconds :: u64
  raw_aof_path :: string
  raw_snapshot_path :: string
  raw_snapshot_interval :: u32
  raw_listen_port :: u16
  raw_memory_pool_slots :: u32
  raw_aof_fsync :: string

text \<open>The typed fields that TOML parsing found in the file.\<close>

record toml_table =
  tt_max_records :: "u16 option"
  tt_ttl_seconds :: "u64 option"
  tt_aof_path :: "string option"
  tt_snapshot_path :: "string option"
  tt_snapshot_interval :: "u32 option"
  tt_listen_port :: "u16 option"
  tt_memory_pool_slots :: "u32 option"
  tt_aof_fsync :: "string option"

definition default_snapshot_interval :: u32 where
  "default_snapshot_interval = SNAPSHOT_INTERVAL_S"

definition default_listen_port :: u16 where
  "default_listen_port = PORT_DEFAULT"

definition default_pool_slots :: u32 where
  "default_pool_slots = MEMORY_POOL_SLOTS_DEFAULT"

definition default_fsync :: string where
  "default_fsync = ''everysec''"

definition or_default :: "'a option \<Rightarrow> 'a \<Rightarrow> 'a" where
  "or_default x d = (case x of None \<Rightarrow> d | Some v \<Rightarrow> v)"

text \<open>The derived \<^verbatim>\<open>Deserialize\<close> of \<^verbatim>\<open>RawConfig\<close>.\<close>

definition raw_config_of :: "toml_table \<Rightarrow> raw_config option" where
  "raw_config_of t =
     (case (tt_max_records t, tt_ttl_seconds t, tt_aof_path t, tt_snapshot_path t) of
        (Some mr, Some ttl, Some ap, Some sp) \<Rightarrow>
          Some \<lparr>raw_max_records = mr, raw_ttl_seconds = ttl, raw_aof_path = ap,
                raw_snapshot_path = sp,
                raw_snapshot_interval = or_default (tt_snapshot_interval t) default_snapshot_interval,
                raw_listen_port = or_default (tt_listen_port t) default_listen_port,
                raw_memory_pool_slots = or_default (tt_memory_pool_slots t) default_pool_slots,
                raw_aof_fsync = or_default (tt_aof_fsync t) default_fsync\<rparr>
      | _ \<Rightarrow> None)"

definition parse_fsync :: "string \<Rightarrow> config_error + fsync_mode" where
  "parse_fsync s =
     (if s = ''always'' then Inr Always
      else if s = ''everysec'' then Inr Everysec
      else if s = ''no'' then Inr No
      else Inl (UnknownFsync s))"

definition config_validate :: "nat \<Rightarrow> raw_config \<Rightarrow> config weloxs_result" where
  "config_validate n raw =
     (if unat (raw_max_records raw) \<noteq> n
      then Inl (Config (MaxRecordsMismatch (raw_max_records raw) n))
      else if MAX_RECORDS_PROTOCOL_LIMIT < raw_max_records raw
      then Inl (Config (MaxRecordsLimit (raw_max_records raw)))
      else if raw_ttl_seconds raw = 0 then Inl (Config TtlZero)
      else if raw_aof_path raw = [] then Inl (Config AofPathRequired)
      else if raw_snapshot_path raw = [] then Inl (Config SnapshotPathRequired)
      else case parse_fsync (raw_aof_fsync raw) of
        Inl e \<Rightarrow> Inl (Config e)
      | Inr fsync \<Rightarrow>
          Inr \<lparr>max_records = raw_max_records raw, ttl_seconds = raw_ttl_seconds raw,
               aof_path = raw_aof_path raw, snapshot_path = raw_snapshot_path raw,
               snapshot_interval = raw_snapshot_interval raw, listen_port = raw_listen_port raw,
               memory_pool_slots = raw_memory_pool_slots raw, aof_fsync = fsync\<rparr>)"

text \<open>
  \<open>read_to_string\<close> and \<open>toml_parse\<close> are the calls into the standard library and the TOML
  library.
\<close>

definition config_from_file ::
  "(string \<Rightarrow> io_error + string) \<Rightarrow> (string \<Rightarrow> toml_table option) \<Rightarrow> nat \<Rightarrow> string
   \<Rightarrow> config weloxs_result" where
  "config_from_file read_to_string toml_parse n path =
     (case read_to_string path of
        Inl e \<Rightarrow> Inl (Config (CannotRead path e))
      | Inr content \<Rightarrow>
          (case Option.bind (toml_parse content) raw_config_of of
             None \<Rightarrow> Inl (Config TomlParseError)
           | Some raw \<Rightarrow> config_validate n raw))"

definition config_from_args ::
  "(string \<Rightarrow> io_error + string) \<Rightarrow> (string \<Rightarrow> toml_table option) \<Rightarrow> nat \<Rightarrow> string list
   \<Rightarrow> config weloxs_result" where
  "config_from_args read_to_string toml_parse n args =
     (let path = (if 1 < length args then args ! 1 else CONFIG_PATH_DEFAULT)
      in config_from_file read_to_string toml_parse n path)"

section \<open>What validation guarantees\<close>

definition config_ok :: "nat \<Rightarrow> config \<Rightarrow> bool" where
  "config_ok n c \<longleftrightarrow>
     unat (max_records c) = n \<and> n \<le> 3854 \<and> ttl_seconds c \<noteq> 0
     \<and> aof_path c \<noteq> [] \<and> snapshot_path c \<noteq> []"

lemma max_records_limit_le: "\<not> MAX_RECORDS_PROTOCOL_LIMIT < w \<longleftrightarrow> unat w \<le> 3854"
  by (simp add: const_defs not_less word_le_nat_alt)

lemma config_validate_ok: "config_validate n raw = Inr c \<Longrightarrow> config_ok n c"
  using max_records_limit_le [of "raw_max_records raw"]
  by (auto simp: config_validate_def config_ok_def split: if_splits sum.splits)









section \<open>Properties\<close>

text \<open>
  Loading a configuration reports an error for an unreadable file, for a file that does not
  parse or misses a required field, and for every failed check; whatever it returns without an
  error satisfies the checks.
\<close>

lemma config_load_outcomes:
  "(case config_from_args rd toml n args of
      Inr c \<Rightarrow> config_ok n c
    | Inl e \<Rightarrow> (\<exists>path err. e = Config (CannotRead path err) \<and> rd path = Inl err)
        \<or> e = Config TomlParseError \<or> (\<exists>raw. config_validate n raw = Inl e))"
  using config_validate_ok
  by (auto simp: config_from_args_def config_from_file_def Let_def split: sum.splits option.splits)



end
