(* ===== verification/Aof.thy ===== *)
theory Aof
  imports Config Event_Log Memory
begin

text \<open>
  \<^verbatim>\<open>src/aof.rs\<close>: the append-only log. Entries are encoded to 32 (PUSH) or 15 (DEL) bytes.
  In mode \<open>Always\<close> an entry is written and synced at once, in the other modes it goes through a
  byte ring of \<open>AOF_BUF_SIZE\<close> bytes that the flush thread empties. The ring, the two counters
  and the running flag are shared between the writer and its thread, so both act on one record.

  The file is the part of the operating system the code depends on: the outcomes of the coming
  \<^verbatim>\<open>write\<close> and \<^verbatim>\<open>fdatasync\<close> calls are lists in the state (an exhausted list means success,
  a \<^verbatim>\<open>write\<close> appends a prefix of its bytes), and what the code logs is recorded.

  The byte stream of a writer is what the file holds followed by what is pending in the ring. The
  locale \<open>byte_log\<close> is the contract of that stream; theory \<open>Aof_Concurrent\<close> treats the
  interleavings of the two threads.
\<close>

section \<open>The model\<close>

datatype write_outcome = WError | WShort nat

datatype aof_message = AofWriteError | AofShortWrite nat nat

record aof_file =
  af_bytes :: bytes
  af_durable :: nat
  af_writes :: "write_outcome list"
  af_syncs :: "bool list"
  af_log :: "aof_message list"

record aof_writer =
  aw_buf :: mem
  aw_head :: u64
  aw_tail :: u64
  aw_fd :: int
  aw_fsync_mode :: fsync_mode
  aw_running :: bool
  aw_flush_thread :: bool
  aw_file :: aof_file

definition AOF_HEADER_LEN :: nat where [const_defs]: "AOF_HEADER_LEN = 15"
definition AOF_PUSH_LEN :: nat where [const_defs]: "AOF_PUSH_LEN = AOF_HEADER_LEN + 17"

text \<open>
  \<^verbatim>\<open>open\<close>: the system call is the argument \<open>os_open\<close>; a path with a NUL character makes
  \<^verbatim>\<open>CString::new(path).unwrap()\<close> panic.
\<close>

definition aof_open ::
  "(string \<Rightarrow> io_error + int) \<Rightarrow> aof_file \<Rightarrow> string \<Rightarrow> fsync_mode \<Rightarrow> panic + aof_writer weloxs_result"
  where
  "aof_open os_open file path mode =
     (if CHR 0x00 \<in> set path then Inl (Panic ''NulError'')
      else case os_open path of
             Inl e \<Rightarrow> Inr (Inl (Io e))
           | Inr fd \<Rightarrow>
               Inr (Inr \<lparr>aw_buf = (\<lambda>_. 0), aw_head = 0, aw_tail = 0, aw_fd = fd,
                         aw_fsync_mode = mode, aw_running = True,
                         aw_flush_thread = (case mode of Always \<Rightarrow> False | Everysec \<Rightarrow> True | No \<Rightarrow> True),
                         aw_file = file\<rparr>))"

text \<open>\<^verbatim>\<open>libc::write\<close> on the file, and its checked use. A closed descriptor is an error.\<close>

definition checked_write :: "int \<Rightarrow> bytes \<Rightarrow> aof_file \<Rightarrow> aof_file" where
  "checked_write fd bs f =
     (if fd < 0 then f\<lparr>af_log := af_log f @ [AofWriteError]\<rparr>
      else case af_writes f of
             [] \<Rightarrow> f\<lparr>af_bytes := af_bytes f @ bs\<rparr>
           | WError # os \<Rightarrow> f\<lparr>af_writes := os, af_log := af_log f @ [AofWriteError]\<rparr>
           | WShort k # os \<Rightarrow>
               let written = min k (length bs);
                   f1 = f\<lparr>af_writes := os, af_bytes := af_bytes f @ take written bs\<rparr>
               in if written \<noteq> length bs
                  then f1\<lparr>af_log := af_log f1 @ [AofShortWrite (length bs) written]\<rparr>
                  else f1)"

definition fdatasync :: "int \<Rightarrow> aof_file \<Rightarrow> aof_file" where
  "fdatasync fd f =
     (if fd < 0 then f
      else case af_syncs f of
             [] \<Rightarrow> f\<lparr>af_durable := length (af_bytes f)\<rparr>
           | ok # os \<Rightarrow>
               if ok then f\<lparr>af_syncs := os, af_durable := length (af_bytes f)\<rparr>
               else f\<lparr>af_syncs := os\<rparr>)"

text \<open>The two \<^verbatim>\<open>copy_nonoverlapping\<close> branches of \<open>ring_write\<close>.\<close>

definition ring_copy_in :: "nat \<Rightarrow> mem \<Rightarrow> nat \<Rightarrow> bytes \<Rightarrow> mem" where
  "ring_copy_in sz buf offset data =
     (if offset + length data \<le> sz then write_bytes buf offset data
      else let first_len = sz - offset
           in write_bytes (write_bytes buf offset (take first_len data)) 0 (drop first_len data))"

text \<open>The condition that ends the spin loop of \<open>ring_write\<close>.\<close>

definition ring_has_room :: "aof_writer \<Rightarrow> bytes \<Rightarrow> bool" where
  "ring_has_room w data \<longleftrightarrow>
     aw_head w - aw_tail w + word_of_nat (length data) \<le> word_of_nat AOF_BUF_SIZE"

text \<open>\<open>None\<close>: the loop keeps spinning with the tail it sees; nothing has been changed.\<close>

definition ring_write :: "aof_writer \<Rightarrow> bytes \<Rightarrow> aof_writer option" where
  "ring_write w data =
     (if ring_has_room w data
      then let head = aw_head w;
               offset = unat head mod AOF_BUF_SIZE
           in Some (w\<lparr>aw_buf := ring_copy_in AOF_BUF_SIZE (aw_buf w) offset data,
                      aw_head := head + word_of_nat (length data)\<rparr>)
      else None)"

definition write_entry :: "aof_writer \<Rightarrow> bytes \<Rightarrow> aof_writer option" where
  "write_entry w data =
     (case aw_fsync_mode w of
        Always \<Rightarrow>
          Some (w\<lparr>aw_file := fdatasync (aw_fd w) (checked_write (aw_fd w) data (aw_file w))\<rparr>)
      | _ \<Rightarrow> ring_write w data)"

definition push_entry :: "u32 \<Rightarrow> event_record \<Rightarrow> u64 \<Rightarrow> bytes" where
  "push_entry uid r write_ts =
     (let e0 = replicate AOF_PUSH_LEN 0;
          e1 = e0[0 := OPCODE_PUSH];
          e2 = blit e1 1 (u32_to_le_bytes uid);
          e3 = blit e2 5 (u64_to_le_bytes write_ts);
          e4 = blit e3 13 (u16_to_le_bytes 17)
      in blit e4 15 (record_to_bytes r))"

definition append_push :: "aof_writer \<Rightarrow> u32 \<Rightarrow> event_record \<Rightarrow> u64 \<Rightarrow> aof_writer option" where
  "append_push w uid r write_ts = write_entry w (push_entry uid r write_ts)"

definition del_entry :: "u32 \<Rightarrow> u64 \<Rightarrow> bytes" where
  "del_entry uid write_ts =
     (let e0 = replicate AOF_HEADER_LEN 0;
          e1 = e0[0 := OPCODE_DEL];
          e2 = blit e1 1 (u32_to_le_bytes uid);
          e3 = blit e2 5 (u64_to_le_bytes write_ts)
      in blit e3 13 (u16_to_le_bytes 0))"

definition append_del :: "aof_writer \<Rightarrow> u32 \<Rightarrow> u64 \<Rightarrow> aof_writer option" where
  "append_del w uid write_ts = write_entry w (del_entry uid write_ts)"

text \<open>The one or two writes that \<open>flush_sync\<close> and \<open>flush_once\<close> share.\<close>

definition write_pending :: "int \<Rightarrow> mem \<Rightarrow> u64 \<Rightarrow> nat \<Rightarrow> aof_file \<Rightarrow> aof_file" where
  "write_pending fd buf t pending f =
     (let offset = unat t mod AOF_BUF_SIZE
      in if offset + pending \<le> AOF_BUF_SIZE
         then checked_write fd (read_bytes buf offset pending) f
         else let first = AOF_BUF_SIZE - offset
              in checked_write fd (read_bytes buf 0 (pending - first))
                   (checked_write fd (read_bytes buf offset first) f))"

definition flush_sync :: "aof_writer \<Rightarrow> aof_writer" where
  "flush_sync w =
     (let head = aw_head w; tail = aw_tail w; pending = unat (head - tail)
      in if pending = 0 then w
         else w\<lparr>aw_file := fdatasync (aw_fd w)
                            (write_pending (aw_fd w) (aw_buf w) tail pending (aw_file w)),
                aw_tail := head\<rparr>)"

definition flush_once :: "aof_writer \<Rightarrow> aof_writer" where
  "flush_once w =
     (let h = aw_head w; t = aw_tail w; pending = unat (h - t)
      in if pending = 0 then w
         else let f1 = write_pending (aw_fd w) (aw_buf w) t pending (aw_file w);
                  f2 = (if aw_fsync_mode w = Everysec then fdatasync (aw_fd w) f1 else f1)
              in w\<lparr>aw_file := f2, aw_tail := h\<rparr>)"

text \<open>
  \<open>flush_loop\<close>, for \<open>k\<close> rounds in which the flag is still seen as true; then the final drain.
\<close>

definition flush_loop :: "nat \<Rightarrow> aof_writer \<Rightarrow> aof_writer" where
  "flush_loop k w = flush_once ((flush_once ^^ k) w)"

text \<open>
  \<open>shutdown\<close>: clear the flag, wait for the thread (which makes its final drain), flush what is
  left, close the descriptor. \<open>k\<close> is the number of rounds the thread starts before it sees the
  flag.
\<close>

definition aof_shutdown :: "nat \<Rightarrow> aof_writer \<Rightarrow> aof_writer" where
  "aof_shutdown k w =
     (let w1 = w\<lparr>aw_running := False\<rparr>;
          w2 = (if aw_flush_thread w1 then (flush_loop k w1)\<lparr>aw_flush_thread := False\<rparr> else w1);
          w3 = flush_sync w2
      in if 0 \<le> aw_fd w3 then w3\<lparr>aw_fd := - 1\<rparr> else w3)"

definition aof_drop :: "nat \<Rightarrow> aof_writer \<Rightarrow> aof_writer" where
  "aof_drop k w = (if 0 \<le> aw_fd w then aof_shutdown k w else w)"

section \<open>Entries\<close>

text \<open>The layout of an entry: opcode, user id, server time, payload length, payload.\<close>

fun entry_bytes :: "log_op \<Rightarrow> bytes" where
  "entry_bytes (LPush uid r ts) =
     [OPCODE_PUSH] @ u32_to_le_bytes uid @ u64_to_le_bytes ts @ u16_to_le_bytes 17 @ record_to_bytes r"
| "entry_bytes (LDel uid ts) =
     [OPCODE_DEL] @ u32_to_le_bytes uid @ u64_to_le_bytes ts @ u16_to_le_bytes 0"

lemma take_first_byte: "0 < n \<Longrightarrow> take (Suc 0) ((replicate n y)[0 := x]) = [x]"
  by (cases n) simp_all

lemma push_entry_eq: "push_entry uid r ts = entry_bytes (LPush uid r ts)"
  by (simp add: push_entry_def Let_def blit_def AOF_PUSH_LEN_def AOF_HEADER_LEN_def take_first_byte)

lemma del_entry_eq: "del_entry uid ts = entry_bytes (LDel uid ts)"
  by (simp add: del_entry_def Let_def blit_def AOF_HEADER_LEN_def take_first_byte)

lemma length_entry_bytes: "length (entry_bytes x) = (case x of LPush _ _ _ \<Rightarrow> 32 | LDel _ _ \<Rightarrow> 15)"
  by (cases x) simp_all

lemma length_entry_le: "length (entry_bytes x) \<le> 32"
  by (cases x) (simp_all add: length_entry_bytes)

section \<open>The byte ring\<close>

lemma AOF_BUF_SIZE_pow: "AOF_BUF_SIZE = 2 ^ 22"
  by (simp add: AOF_BUF_SIZE_def)

lemma AOF_BUF_SIZE_dvd: "AOF_BUF_SIZE dvd 2 ^ 64"
  unfolding AOF_BUF_SIZE_pow by (rule le_imp_power_dvd) simp

lemma AOF_BUF_SIZE_pos: "0 < AOF_BUF_SIZE"
  by (simp add: AOF_BUF_SIZE_def)

lemma unat_plus_mod_ring: "unat (w + word_of_nat k :: u64) mod AOF_BUF_SIZE = (unat w + k) mod AOF_BUF_SIZE"
proof -
  have "unat (w + word_of_nat k :: u64) = (unat w + k) mod 2 ^ 64"
    by (simp add: unat_word_ariths unat_of_nat mod_add_right_eq)
  then show ?thesis by (simp only: mod_mod_cancel [OF AOF_BUF_SIZE_dvd])
qed

text \<open>The \<open>n\<close> bytes from ring position \<open>t\<close> on.\<close>

definition ring_bytes :: "nat \<Rightarrow> mem \<Rightarrow> nat \<Rightarrow> nat \<Rightarrow> bytes" where
  "ring_bytes sz buf t n = map (\<lambda>i. buf ((t + i) mod sz)) [0..<n]"

lemma length_ring_bytes [simp]: "length (ring_bytes sz buf t n) = n"
  by (simp add: ring_bytes_def)

lemma ring_bytes_mod: "ring_bytes sz buf (t mod sz) n = ring_bytes sz buf t n"
  by (simp add: ring_bytes_def mod_add_left_eq)

lemma ring_bytes_add: "ring_bytes sz buf t (p + k) = ring_bytes sz buf t p @ ring_bytes sz buf (t + p) k"
  by (rule nth_equalityI) (auto simp: ring_bytes_def nth_append algebra_simps)

lemma ring_bytes_straight: "off + n \<le> sz \<Longrightarrow> ring_bytes sz buf off n = read_bytes buf off n"
  by (rule nth_equalityI) (simp_all add: ring_bytes_def read_bytes_def)

lemma ring_bytes_wrap:
  assumes "off < sz" and "n \<le> sz" and "sz < off + n"
  shows "ring_bytes sz buf off n = read_bytes buf off (sz - off) @ read_bytes buf 0 (n - (sz - off))"
proof -
  have "ring_bytes sz buf off n
      = ring_bytes sz buf off (sz - off) @ ring_bytes sz buf (off + (sz - off)) (n - (sz - off))"
    using assms ring_bytes_add [of sz buf off "sz - off" "n - (sz - off)"] by simp
  also have "ring_bytes sz buf (off + (sz - off)) (n - (sz - off)) = ring_bytes sz buf 0 (n - (sz - off))"
    using assms ring_bytes_mod [of sz buf sz] by simp
  finally show ?thesis using assms by (simp add: ring_bytes_straight)
qed

lemma ring_copy_in_at:
  assumes "off < sz" and "length data \<le> sz" and "j < sz"
  shows "ring_copy_in sz buf off data ((off + j) mod sz)
       = (if j < length data then data ! j else buf ((off + j) mod sz))"
proof (cases "off + j < sz")
  case True
  then show ?thesis
    using assms by (auto simp: ring_copy_in_def write_bytes_def Let_def)
next
  case False
  with assms have m: "(off + j) mod sz = off + j - sz" by (simp add: mod_if)
  from False assms have "drop (sz - off) data ! (off + j - sz) = data ! j" if "j < length data"
    using that by simp
  then show ?thesis
    using False assms by (auto simp: m ring_copy_in_def write_bytes_def Let_def)
qed

lemma ring_bytes_copy_in:
  assumes "0 < sz" and "p + length data \<le> sz"
  shows "ring_bytes sz (ring_copy_in sz buf ((t + p) mod sz) data) t (p + length data)
       = ring_bytes sz buf t p @ data"
proof (rule nth_equalityI)
  fix i assume "i < length (ring_bytes sz (ring_copy_in sz buf ((t + p) mod sz) data) t (p + length data))"
  then have i: "i < p + length data" by simp
  define j where "j = (if i < p then sz - p + i else i - p)"
  have j: "j < sz" using i assms by (auto simp: j_def)
  have "(t + p + j) mod sz = (t + i) mod sz"
  proof (cases "i < p")
    case True
    with assms have "t + p + j = t + i + sz" by (simp add: j_def)
    then show ?thesis by (simp only: mod_add_self2)
  qed (simp add: j_def)
  then have pos: "((t + p) mod sz + j) mod sz = (t + i) mod sz" by (simp add: mod_add_left_eq)
  have "ring_copy_in sz buf ((t + p) mod sz) data ((t + i) mod sz)
      = (if j < length data then data ! j else buf ((t + i) mod sz))"
    using ring_copy_in_at [of "(t + p) mod sz" sz data j buf] assms j by (simp add: pos)
  then show "ring_bytes sz (ring_copy_in sz buf ((t + p) mod sz) data) t (p + length data) ! i
      = (ring_bytes sz buf t p @ data) ! i"
    using i assms by (auto simp: ring_bytes_def nth_append j_def)
qed simp

section \<open>The stream of a writer\<close>

definition aw_pending :: "aof_writer \<Rightarrow> bytes" where
  "aw_pending w =
     ring_bytes AOF_BUF_SIZE (aw_buf w) (unat (aw_tail w)) (unat (aw_head w - aw_tail w))"

definition aw_stream :: "aof_writer \<Rightarrow> bytes" where
  "aw_stream w = af_bytes (aw_file w) @ aw_pending w"

text \<open>The invariant of the ring (the comment on \<^verbatim>\<open>AOFBuf\<close>), and an open, unfailing file.\<close>

definition aw_inv :: "aof_writer \<Rightarrow> bool" where
  "aw_inv w \<longleftrightarrow>
     unat (aw_head w - aw_tail w) \<le> AOF_BUF_SIZE \<and> af_durable (aw_file w) \<le> length (af_bytes (aw_file w))
     \<and> (aw_fsync_mode w = Always \<longrightarrow> aw_head w = aw_tail w)"

definition aw_healthy :: "aof_writer \<Rightarrow> bool" where
  "aw_healthy w \<longleftrightarrow> 0 \<le> aw_fd w \<and> af_writes (aw_file w) = [] \<and> af_syncs (aw_file w) = []"

lemma aw_pending_length: "length (aw_pending w) = unat (aw_head w - aw_tail w)"
  by (simp add: aw_pending_def)

lemma aw_pending_empty: "aw_head w = aw_tail w \<Longrightarrow> aw_pending w = []"
  by (simp add: aw_pending_def ring_bytes_def)

lemma ring_has_room_iff:
  assumes "aw_inv w" and "length data \<le> AOF_BUF_SIZE"
  shows "ring_has_room w data \<longleftrightarrow> length (aw_pending w) + length data \<le> AOF_BUF_SIZE"
proof -
  have "unat (aw_head w - aw_tail w) \<le> AOF_BUF_SIZE" using assms(1) by (simp add: aw_inv_def)
  then have "unat (aw_head w - aw_tail w) + length data < 2 ^ 64"
    using assms(2) by (simp add: AOF_BUF_SIZE_def)
  then have "unat (aw_head w - aw_tail w + word_of_nat (length data))
      = unat (aw_head w - aw_tail w) + length data"
    by (simp add: unat_word_ariths unat_of_nat)
  then show ?thesis
    by (simp add: ring_has_room_def word_le_nat_alt unat_of_nat AOF_BUF_SIZE_def aw_pending_length)
qed

lemma ring_write_fields:
  assumes "ring_write w data = Some w'"
  shows "aw_file w' = aw_file w" and "aw_fd w' = aw_fd w" and "aw_fsync_mode w' = aw_fsync_mode w"
  using assms by (auto simp: ring_write_def Let_def split: if_splits)

lemma ring_write_pending:
  assumes "aw_inv w" and "length data \<le> AOF_BUF_SIZE" and "ring_write w data = Some w'"
  shows "aw_pending w' = aw_pending w @ data"
    and "unat (aw_head w' - aw_tail w') = unat (aw_head w - aw_tail w) + length data"
    and "length (aw_pending w) + length data \<le> AOF_BUF_SIZE"
proof -
  let ?p = "unat (aw_head w - aw_tail w)"
  from assms(3) have room: "ring_has_room w data"
    and w': "w' = w\<lparr>aw_buf := ring_copy_in AOF_BUF_SIZE (aw_buf w) (unat (aw_head w) mod AOF_BUF_SIZE) data,
                    aw_head := aw_head w + word_of_nat (length data)\<rparr>"
    by (auto simp: ring_write_def Let_def split: if_splits)
  from room show fits: "length (aw_pending w) + length data \<le> AOF_BUF_SIZE"
    by (simp add: ring_has_room_iff [OF assms(1,2)])
  have d: "aw_head w' - aw_tail w' = (aw_head w - aw_tail w) + word_of_nat (length data)"
    by (simp add: w')
  show n: "unat (aw_head w' - aw_tail w') = ?p + length data"
    unfolding d using fits by (simp add: unat_word_ariths unat_of_nat aw_pending_length AOF_BUF_SIZE_def)
  have "unat (aw_head w) mod AOF_BUF_SIZE = (unat (aw_tail w) + ?p) mod AOF_BUF_SIZE"
    using unat_plus_mod_ring [of "aw_tail w" ?p] by simp
  then show "aw_pending w' = aw_pending w @ data"
    using ring_bytes_copy_in [of AOF_BUF_SIZE ?p data "aw_buf w" "unat (aw_tail w)"] fits AOF_BUF_SIZE_pos
    unfolding aw_pending_def n by (simp add: w')
qed

section \<open>Flushing\<close>

lemma checked_write_healthy [simp]:
  "0 \<le> fd \<Longrightarrow> af_writes f = [] \<Longrightarrow> checked_write fd bs f = f\<lparr>af_bytes := af_bytes f @ bs\<rparr>"
  by (simp add: checked_write_def)

text \<open>Whatever the system answers, a write appends a prefix of its bytes and loses the rest.\<close>

lemma checked_write_prefix:
  obtains k where "af_bytes (checked_write fd bs f) = af_bytes f @ take k bs"
    and "af_durable (checked_write fd bs f) = af_durable f"
proof (cases "fd < 0")
  case True
  then show ?thesis using that [of 0] by (simp add: checked_write_def)
next
  case False
  show ?thesis
  proof (cases "af_writes f")
    case Nil
    then show ?thesis using False that [of "length bs"] by (simp add: checked_write_def)
  next
    case (Cons x xs)
    then show ?thesis using False that [of 0] that [of "case x of WError \<Rightarrow> 0 | WShort k \<Rightarrow> min k (length bs)"]
      by (cases x) (simp_all add: checked_write_def Let_def)
  qed
qed

lemma write_pending_healthy:
  assumes "0 \<le> fd" and "af_writes f = []" and "n \<le> AOF_BUF_SIZE"
  shows "write_pending fd buf t n f
       = f\<lparr>af_bytes := af_bytes f @ ring_bytes AOF_BUF_SIZE buf (unat t) n\<rparr>"
proof -
  let ?o = "unat t mod AOF_BUF_SIZE"
  have o: "?o < AOF_BUF_SIZE" by (simp add: AOF_BUF_SIZE_pos)
  have "ring_bytes AOF_BUF_SIZE buf (unat t) n =
      (if ?o + n \<le> AOF_BUF_SIZE then read_bytes buf ?o n
       else read_bytes buf ?o (AOF_BUF_SIZE - ?o) @ read_bytes buf 0 (n - (AOF_BUF_SIZE - ?o)))"
    using ring_bytes_mod [of AOF_BUF_SIZE buf "unat t" n] ring_bytes_straight [of ?o n AOF_BUF_SIZE buf]
      ring_bytes_wrap [OF o assms(3), of buf] by auto
  then show ?thesis using assms(1,2) by (simp add: write_pending_def Let_def)
qed

lemma unat_diff_zero: "unat (h - t :: u64) = 0 \<longleftrightarrow> h = t"
  by (simp add: unat_eq_0)

lemma flush_once_healthy:
  assumes "aw_inv w" and "aw_healthy w"
  shows "af_bytes (aw_file (flush_once w)) = aw_stream w"
    and "aw_pending (flush_once w) = []"
    and "aw_stream (flush_once w) = aw_stream w"
    and "aw_inv (flush_once w)" and "aw_healthy (flush_once w)"
    and "aw_fsync_mode (flush_once w) = aw_fsync_mode w"
    and "aw_fsync_mode w = Everysec \<Longrightarrow> aw_head w \<noteq> aw_tail w \<Longrightarrow>
           af_durable (aw_file (flush_once w)) = length (aw_stream w)"
proof -
  have n: "unat (aw_head w - aw_tail w) \<le> AOF_BUF_SIZE"
    and d: "af_durable (aw_file w) \<le> length (af_bytes (aw_file w))"
    using assms(1) by (auto simp: aw_inv_def)
  have f: "0 \<le> aw_fd w" "af_writes (aw_file w) = []" "af_syncs (aw_file w) = []"
    using assms(2) by (auto simp: aw_healthy_def)
  note wp = write_pending_healthy [OF f(1,2) n, of "aw_buf w" "aw_tail w"]
  show b: "af_bytes (aw_file (flush_once w)) = aw_stream w"
    using f by (simp add: flush_once_def Let_def aw_stream_def aw_pending_def unat_diff_zero wp fdatasync_def
        ring_bytes_def)
  have ht: "aw_head (flush_once w) = aw_tail (flush_once w)"
    by (simp add: flush_once_def Let_def unat_diff_zero)
  then show p: "aw_pending (flush_once w) = []" by (rule aw_pending_empty)
  show "aw_stream (flush_once w) = aw_stream w"
    unfolding aw_stream_def [of "flush_once w"] by (simp add: b p)
  have dur: "af_durable (aw_file (flush_once w)) \<le> length (af_bytes (aw_file (flush_once w)))"
    using f d by (simp add: flush_once_def Let_def wp fdatasync_def)
  then show "aw_inv (flush_once w)"
    using ht by (simp add: aw_inv_def)
  show "aw_healthy (flush_once w)"
    using f by (simp add: aw_healthy_def flush_once_def Let_def wp fdatasync_def)
  show "aw_fsync_mode (flush_once w) = aw_fsync_mode w"
    by (simp add: flush_once_def Let_def)
  show "af_durable (aw_file (flush_once w)) = length (aw_stream w)"
    if "aw_fsync_mode w = Everysec" "aw_head w \<noteq> aw_tail w"
    using that f by (simp add: flush_once_def Let_def wp fdatasync_def unat_diff_zero
        aw_stream_def aw_pending_def)
qed

lemma flush_sync_healthy:
  assumes "aw_inv w" and "aw_healthy w"
  shows "af_bytes (aw_file (flush_sync w)) = aw_stream w"
    and "aw_head (flush_sync w) = aw_tail (flush_sync w)"
    and "aw_head w \<noteq> aw_tail w \<Longrightarrow> af_durable (aw_file (flush_sync w)) = length (aw_stream w)"
    and "aw_fd (flush_sync w) = aw_fd w"
proof -
  have n: "unat (aw_head w - aw_tail w) \<le> AOF_BUF_SIZE" using assms(1) by (simp add: aw_inv_def)
  have f: "0 \<le> aw_fd w" "af_writes (aw_file w) = []" "af_syncs (aw_file w) = []"
    using assms(2) by (auto simp: aw_healthy_def)
  note wp = write_pending_healthy [OF f(1,2) n, of "aw_buf w" "aw_tail w"]
  show "af_bytes (aw_file (flush_sync w)) = aw_stream w"
    using f by (simp add: flush_sync_def Let_def aw_stream_def aw_pending_def unat_diff_zero wp fdatasync_def
        ring_bytes_def)
  show "aw_head (flush_sync w) = aw_tail (flush_sync w)" "aw_fd (flush_sync w) = aw_fd w"
    by (simp_all add: flush_sync_def Let_def unat_diff_zero)
  show "af_durable (aw_file (flush_sync w)) = length (aw_stream w)" if "aw_head w \<noteq> aw_tail w"
    using that f by (simp add: flush_sync_def Let_def wp fdatasync_def unat_diff_zero
        aw_stream_def aw_pending_def)
qed

section \<open>Appending\<close>

lemma write_entry_healthy:
  assumes "aw_inv w" and "aw_healthy w" and "length data \<le> AOF_BUF_SIZE"
    and "write_entry w data = Some w'"
  shows "aw_stream w' = aw_stream w @ data" and "aw_inv w'" and "aw_healthy w'"
    and "aw_fsync_mode w' = aw_fsync_mode w"
    and "aw_fsync_mode w = Always \<Longrightarrow> af_durable (aw_file w') = length (aw_stream w')"
proof -
  have f: "0 \<le> aw_fd w" "af_writes (aw_file w) = []" "af_syncs (aw_file w) = []"
    using assms(2) by (auto simp: aw_healthy_def)
  have "aw_stream w' = aw_stream w @ data \<and> aw_inv w' \<and> aw_healthy w' \<and> aw_fsync_mode w' = aw_fsync_mode w
      \<and> (aw_fsync_mode w = Always \<longrightarrow> af_durable (aw_file w') = length (aw_stream w'))"
  proof (cases "aw_fsync_mode w = Always")
    case True
    then have ht: "aw_head w = aw_tail w" using assms(1) by (simp add: aw_inv_def)
    from True assms(4) f ht show ?thesis
      by (auto simp: write_entry_def fdatasync_def aw_stream_def aw_inv_def aw_healthy_def aw_pending_empty)
  next
    case False
    with assms(4) have rw: "ring_write w data = Some w'"
      by (cases "aw_fsync_mode w") (simp_all add: write_entry_def)
    note p = ring_write_pending [OF assms(1,3) rw]
    note same = ring_write_fields [OF rw]
    show ?thesis
      using p False assms(1) f by (simp add: aw_stream_def aw_inv_def aw_healthy_def same aw_pending_length)
  qed
  then show "aw_stream w' = aw_stream w @ data" "aw_inv w'" "aw_healthy w'"
    "aw_fsync_mode w' = aw_fsync_mode w"
    "aw_fsync_mode w = Always \<Longrightarrow> af_durable (aw_file w') = length (aw_stream w')" by auto
qed

lemma write_entry_progress:
  assumes "aw_inv w" and "length data \<le> AOF_BUF_SIZE" and "length (aw_pending w) + length data \<le> AOF_BUF_SIZE"
  shows "\<exists>w'. write_entry w data = Some w'"
  using assms ring_has_room_iff [OF assms(1,2)]
  by (cases "aw_fsync_mode w") (auto simp: write_entry_def ring_write_def Let_def)

text \<open>An append waits only when the ring really has no room for the entry.\<close>

lemma write_entry_blocked:
  assumes "aw_inv w" and "write_entry w (entry_bytes x) = None"
  shows "AOF_BUF_SIZE < length (aw_pending w) + length (entry_bytes x)"
proof (rule ccontr)
  assume "\<not> ?thesis"
  moreover have "length (entry_bytes x) \<le> AOF_BUF_SIZE" using length_entry_le [of x] by (simp add: AOF_BUF_SIZE_def)
  ultimately show False using write_entry_progress [OF assms(1)] assms(2) by fastforce
qed

section \<open>The contract of the log\<close>

text \<open>
  A log with a bounded buffer in front of its file. \<open>append\<close> may have to wait (\<open>None\<close>), and then a
  flush makes room; the stream records everything appended, and a flush brings it to the file.
\<close>

locale byte_log =
  fixes append :: "'s \<Rightarrow> bytes \<Rightarrow> 's option"
    and flush :: "'s \<Rightarrow> 's"
    and stream :: "'s \<Rightarrow> bytes"
    and onfile :: "'s \<Rightarrow> bytes"
    and ok :: "'s \<Rightarrow> bool"
    and limit :: nat
  assumes append_stream: "ok s \<Longrightarrow> length d \<le> limit \<Longrightarrow> append s d = Some s' \<Longrightarrow> ok s' \<and> stream s' = stream s @ d"
    and append_progress: "ok s \<Longrightarrow> length d \<le> limit \<Longrightarrow> onfile s = stream s \<Longrightarrow> \<exists>s'. append s d = Some s'"
    and flush_ok: "ok s \<Longrightarrow> ok (flush s) \<and> stream (flush s) = stream s \<and> onfile (flush s) = stream s"
    and onfile_prefix: "ok s \<Longrightarrow> \<exists>r. stream s = onfile s @ r"
begin

text \<open>Waiting for one flush when the buffer is full.\<close>

definition append_wait :: "'s \<Rightarrow> bytes \<Rightarrow> 's option" where
  "append_wait s d = (case append s d of Some s' \<Rightarrow> Some s' | None \<Rightarrow> append (flush s) d)"

lemma append_wait_ok:
  assumes "ok s" and "length d \<le> limit"
  shows "\<exists>s'. append_wait s d = Some s' \<and> ok s' \<and> stream s' = stream s @ d"
proof (cases "append s d")
  case None
  have fl: "ok (flush s)" "stream (flush s) = stream s" "onfile (flush s) = stream s"
    using flush_ok [OF assms(1)] by auto
  with append_progress [OF fl(1) assms(2)] obtain s' where "append (flush s) d = Some s'" by auto
  with append_stream [OF fl(1) assms(2) this] fl None show ?thesis by (auto simp: append_wait_def)
next
  case (Some s')
  with append_stream [OF assms Some] show ?thesis by (auto simp: append_wait_def)
qed

fun append_all :: "'s \<Rightarrow> bytes list \<Rightarrow> 's option" where
  "append_all s [] = Some s"
| "append_all s (d # ds) = Option.bind (append_wait s d) (\<lambda>s'. append_all s' ds)"

lemma append_all_ok:
  assumes "ok s" and "\<And>d. d \<in> set ds \<Longrightarrow> length d \<le> limit"
  shows "\<exists>s'. append_all s ds = Some s' \<and> ok s' \<and> stream s' = stream s @ concat ds
           \<and> onfile (flush s') = stream s @ concat ds"
  using assms
proof (induction ds arbitrary: s)
  case Nil
  then show ?case using flush_ok [of s] by simp
next
  case (Cons d ds)
  with append_wait_ok [of s d] obtain s1 where
    "append_wait s d = Some s1" "ok s1" "stream s1 = stream s @ d" by auto
  with Cons.IH [of s1] Cons.prems show ?case by auto
qed

end

definition aof_ok :: "aof_writer \<Rightarrow> bool" where
  "aof_ok w \<longleftrightarrow> aw_inv w \<and> aw_healthy w"

interpretation aol: byte_log write_entry flush_once aw_stream "\<lambda>w. af_bytes (aw_file w)" aof_ok AOF_BUF_SIZE
proof unfold_locales
  fix w w' :: aof_writer and d :: bytes
  assume ok: "aof_ok w"
  show "aof_ok w' \<and> aw_stream w' = aw_stream w @ d"
    if "length d \<le> AOF_BUF_SIZE" "write_entry w d = Some w'"
    using write_entry_healthy [of w d w'] ok that by (simp add: aof_ok_def)
  show "\<exists>w'. write_entry w d = Some w'"
    if "length d \<le> AOF_BUF_SIZE" "af_bytes (aw_file w) = aw_stream w"
    using write_entry_progress [of w d] ok that by (simp add: aof_ok_def aw_stream_def)
  show "aof_ok (flush_once w) \<and> aw_stream (flush_once w) = aw_stream w
      \<and> af_bytes (aw_file (flush_once w)) = aw_stream w"
    using flush_once_healthy [of w] ok by (simp add: aof_ok_def)
  show "\<exists>r. aw_stream w = af_bytes (aw_file w) @ r"
    by (simp add: aw_stream_def)
qed

lemma aof_open_ok:
  assumes "aof_open os_open file path mode = Inr (Inr w)" and "os_open path = Inr fd" and "0 \<le> fd"
    and "af_writes file = []" and "af_syncs file = []" and "af_durable file \<le> length (af_bytes file)"
  shows "aof_ok w" and "aw_stream w = af_bytes file" and "aw_fsync_mode w = mode"
  using assms by (auto simp: aof_open_def aof_ok_def aw_inv_def aw_healthy_def aw_stream_def aw_pending_empty
      split: if_splits)

lemma flush_iter_ok:
  assumes "aof_ok w"
  shows "aof_ok ((flush_once ^^ k) w) \<and> aw_stream ((flush_once ^^ k) w) = aw_stream w"
  by (induction k) (use assms aol.flush_ok in auto)

section \<open>Shutdown and durability\<close>

text \<open>Everything on the file has been synced.\<close>

definition aw_synced :: "aof_writer \<Rightarrow> bool" where
  "aw_synced w \<longleftrightarrow> af_durable (aw_file w) = length (af_bytes (aw_file w))"

lemma flush_once_synced:
  assumes "aof_ok w" and "aw_synced w" and "aw_fsync_mode w \<noteq> No"
  shows "aw_synced (flush_once w)"
proof (cases "aw_head w = aw_tail w")
  case True
  then show ?thesis using assms(2) by (simp add: flush_once_def Let_def)
next
  case False
  with assms have "aw_fsync_mode w = Everysec"
    by (cases "aw_fsync_mode w") (auto simp: aof_ok_def aw_inv_def)
  with False assms(1) show ?thesis
    using flush_once_healthy(1,7) [of w] by (simp add: aof_ok_def aw_synced_def)
qed

lemma flush_once_flags [simp]:
  "aw_fsync_mode (flush_once w) = aw_fsync_mode w" "aw_fd (flush_once w) = aw_fd w"
  "aw_running (flush_once w) = aw_running w" "aw_flush_thread (flush_once w) = aw_flush_thread w"
  by (simp_all add: flush_once_def Let_def)

lemma flush_iter_flags [simp]:
  "aw_fsync_mode ((flush_once ^^ k) w) = aw_fsync_mode w" "aw_fd ((flush_once ^^ k) w) = aw_fd w"
  "aw_running ((flush_once ^^ k) w) = aw_running w"
  by (induction k) simp_all

lemma flush_iter_synced:
  assumes "aof_ok w" and "aw_synced w" and "aw_fsync_mode w \<noteq> No"
  shows "aw_synced ((flush_once ^^ k) w)"
  by (induction k) (use assms flush_iter_ok [OF assms(1)] flush_once_synced in auto)

lemma flush_loop_ok:
  assumes "aof_ok w"
  shows "aof_ok (flush_loop k w)" and "af_bytes (aw_file (flush_loop k w)) = aw_stream w"
    and "aw_head (flush_loop k w) = aw_tail (flush_loop k w)"
    and "aw_synced w \<Longrightarrow> aw_fsync_mode w \<noteq> No \<Longrightarrow> aw_synced (flush_loop k w)"
proof -
  note it = flush_iter_ok [OF assms, of k]
  show "aof_ok (flush_loop k w)" "af_bytes (aw_file (flush_loop k w)) = aw_stream w"
    using it aol.flush_ok [of "(flush_once ^^ k) w"] by (auto simp: flush_loop_def)
  show "aw_head (flush_loop k w) = aw_tail (flush_loop k w)"
    by (simp add: flush_loop_def flush_once_def Let_def unat_diff_zero)
  show "aw_synced (flush_loop k w)" if "aw_synced w" "aw_fsync_mode w \<noteq> No"
    unfolding flush_loop_def using it that flush_iter_synced [OF assms that, of k]
    by (intro flush_once_synced) auto
qed

text \<open>How a writer changes while it runs: the mode stays, and in modes that sync nothing on the file is left unsynced.\<close>

definition aof_evolves :: "aof_writer \<Rightarrow> aof_writer \<Rightarrow> bool" where
  "aof_evolves w w' \<longleftrightarrow> aw_fsync_mode w' = aw_fsync_mode w \<and> (aw_fsync_mode w \<noteq> No \<longrightarrow> aw_synced w \<longrightarrow> aw_synced w')"

lemma aof_evolves_refl [simp]: "aof_evolves w w"
  by (simp add: aof_evolves_def)

lemma aof_evolves_trans: "aof_evolves w w1 \<Longrightarrow> aof_evolves w1 w2 \<Longrightarrow> aof_evolves w w2"
  by (simp add: aof_evolves_def)

lemma flush_once_evolves: "aof_ok w \<Longrightarrow> aof_evolves w (flush_once w)"
  using flush_once_synced by (simp add: aof_evolves_def)

lemma write_entry_evolves:
  assumes "aof_ok w" and "length d \<le> AOF_BUF_SIZE" and "write_entry w d = Some w'"
  shows "aof_evolves w w'"
proof (cases "aw_fsync_mode w = Always")
  case True
  have ok: "aw_inv w" "aw_healthy w" using assms(1) by (simp_all add: aof_ok_def)
  note h = write_entry_healthy [OF ok assms(2,3)]
  have "aw_pending w' = []" using h(2,4) True by (intro aw_pending_empty) (simp add: aw_inv_def)
  with h(4,5) True show ?thesis by (simp add: aof_evolves_def aw_synced_def aw_stream_def)
next
  case False
  then have "ring_write w d = Some w'" using assms(3) by (cases "aw_fsync_mode w") (simp_all add: write_entry_def)
  from ring_write_fields [OF this] show ?thesis by (simp add: aof_evolves_def aw_synced_def)
qed

lemma append_wait_evolves:
  assumes "aof_ok w" and "length d \<le> AOF_BUF_SIZE" and "aol.append_wait w d = Some w'"
  shows "aof_evolves w w'"
proof (cases "write_entry w d")
  case None
  then have "write_entry (flush_once w) d = Some w'" using assms(3) by (simp add: aol.append_wait_def)
  with aol.flush_ok [OF assms(1)] have "aof_evolves (flush_once w) w'" using assms(2) by (intro write_entry_evolves) auto
  with flush_once_evolves [OF assms(1)] show ?thesis by (rule aof_evolves_trans)
next
  case (Some w1)
  with assms(3) have "write_entry w d = Some w'" by (simp add: aol.append_wait_def)
  with assms(1,2) show ?thesis by (rule write_entry_evolves)
qed

lemma flush_sync_idle: "aw_head w = aw_tail w \<Longrightarrow> flush_sync w = w"
  by (simp add: flush_sync_def)

lemma aof_ok_update [simp]:
  "aof_ok (w\<lparr>aw_running := r\<rparr>) = aof_ok w" "aw_stream (w\<lparr>aw_running := r\<rparr>) = aw_stream w"
  "aw_synced (w\<lparr>aw_running := r\<rparr>) = aw_synced w"
  by (simp_all add: aof_ok_def aw_inv_def aw_healthy_def aw_stream_def aw_pending_def aw_synced_def)

lemma aof_shutdown_ok:
  assumes "aof_ok w"
  shows "af_bytes (aw_file (aof_shutdown k w)) = aw_stream w"
    and "aw_head (aof_shutdown k w) = aw_tail (aof_shutdown k w)"
    and "aw_fd (aof_shutdown k w) = - 1" and "aw_running (aof_shutdown k w) = False"
    and "aw_flush_thread (aof_shutdown k w) = False"
    and "aw_synced w \<Longrightarrow> aw_fsync_mode w \<noteq> No \<Longrightarrow> aw_synced (aof_shutdown k w)"
proof -
  let ?w1 = "w\<lparr>aw_running := False\<rparr>"
  have ok1: "aof_ok ?w1" using assms by simp
  have fd: "0 \<le> aw_fd w" using assms by (simp add: aof_ok_def aw_healthy_def)
  note fl = flush_loop_ok [OF ok1, of k]
  have "af_bytes (aw_file (aof_shutdown k w)) = aw_stream w
      \<and> aw_head (aof_shutdown k w) = aw_tail (aof_shutdown k w)
      \<and> aw_fd (aof_shutdown k w) = - 1 \<and> aw_running (aof_shutdown k w) = False
      \<and> aw_flush_thread (aof_shutdown k w) = False
      \<and> (aw_synced w \<longrightarrow> aw_fsync_mode w \<noteq> No \<longrightarrow> aw_synced (aof_shutdown k w))"
  proof (cases "aw_flush_thread w")
    case True
    then show ?thesis
      using fl fd by (simp add: aof_shutdown_def Let_def flush_sync_idle aw_synced_def)
        (simp add: flush_loop_def)
  next
    case False
    note fs = flush_sync_healthy [of ?w1]
    have "aw_running (flush_sync ?w1) = False" "aw_flush_thread (flush_sync ?w1) = False"
      using False by (simp_all add: flush_sync_def Let_def)
    moreover have "aw_synced (flush_sync ?w1)" if "aw_synced w"
      using that fs(1,3) ok1 flush_sync_idle [of ?w1] by (cases "aw_head w = aw_tail w") (auto simp: aw_synced_def aof_ok_def)
    ultimately show ?thesis
      using False fd ok1 fs by (auto simp: aof_shutdown_def Let_def aof_ok_def aw_synced_def)
  qed
  then show "af_bytes (aw_file (aof_shutdown k w)) = aw_stream w"
    "aw_head (aof_shutdown k w) = aw_tail (aof_shutdown k w)"
    "aw_fd (aof_shutdown k w) = - 1" "aw_running (aof_shutdown k w) = False"
    "aw_flush_thread (aof_shutdown k w) = False"
    "aw_synced w \<Longrightarrow> aw_fsync_mode w \<noteq> No \<Longrightarrow> aw_synced (aof_shutdown k w)" by auto
qed

section \<open>Properties\<close>

text \<open>Logging an operation, and a run of operations that waits for the flush thread when needed.\<close>

definition log_append :: "aof_writer \<Rightarrow> log_op \<Rightarrow> aof_writer option" where
  "log_append w x =
     (case x of LPush uid r ts \<Rightarrow> append_push w uid r ts | LDel uid ts \<Rightarrow> append_del w uid ts)"

fun log_run :: "aof_writer \<Rightarrow> log_op list \<Rightarrow> aof_writer option" where
  "log_run w [] = Some w"
| "log_run w (x # xs) =
     (case log_append w x of
        Some w' \<Rightarrow> log_run w' xs
      | None \<Rightarrow> (case log_append (flush_once w) x of Some w' \<Rightarrow> log_run w' xs | None \<Rightarrow> None))"

lemma log_append_eq: "log_append w x = write_entry w (entry_bytes x)"
  by (cases x) (simp_all add: log_append_def append_push_def append_del_def push_entry_eq del_entry_eq)

lemma log_run_eq: "log_run w ops = aol.append_all w (map entry_bytes ops)"
  by (induction ops arbitrary: w) (simp_all add: log_append_eq aol.append_wait_def split: option.split)

text \<open>A writer on a new file, used to instantiate the properties.\<close>

definition sample_file :: aof_file where
  "sample_file = \<lparr>af_bytes = [], af_durable = 0, af_writes = [], af_syncs = [], af_log = []\<rparr>"

definition sample_writer :: "fsync_mode \<Rightarrow> aof_writer" where
  "sample_writer mode = \<lparr>aw_buf = (\<lambda>_. 0), aw_head = 0, aw_tail = 0, aw_fd = 4, aw_fsync_mode = mode,
     aw_running = True, aw_flush_thread = (mode \<noteq> Always), aw_file = sample_file\<rparr>"

lemma sample_writer_open:
  "aof_open (\<lambda>_. Inr 4) sample_file ''log'' mode = Inr (Inr (sample_writer mode))"
  by (cases mode) (simp_all add: aof_open_def sample_writer_def)

lemma sample_writer_ok: "aof_ok (sample_writer mode)" "aw_stream (sample_writer mode) = []"
  using aof_open_ok [OF sample_writer_open] by (simp_all add: sample_file_def)

lemma log_run_ok:
  assumes "aof_ok w"
  shows "\<exists>w'. log_run w ops = Some w' \<and> aof_ok w'
     \<and> aw_stream w' = aw_stream w @ concat (map entry_bytes ops)
     \<and> af_bytes (aw_file (flush_once w')) = aw_stream w @ concat (map entry_bytes ops)"
proof -
  have "length d \<le> AOF_BUF_SIZE" if "d \<in> set (map entry_bytes ops)" for d
    using that length_entry_le by (fastforce simp: AOF_BUF_SIZE_def intro: order_trans)
  from aol.append_all_ok [OF assms, of "map entry_bytes ops", OF this] show ?thesis by (simp add: log_run_eq)
qed

text \<open>
  Appending never gets stuck and loses nothing: any sequence of operations can be logged (with a
  flush when the ring is full), the stream grows by exactly their entries in order, and a flush
  brings all of them to the file.
\<close>

lemma log_run_complete:
  assumes "aof_ok w"
  shows "\<exists>w'. log_run w ops = Some w' \<and> aof_ok w'
     \<and> aw_stream w' = aw_stream w @ concat (map entry_bytes ops)
     \<and> af_bytes (aw_file (flush_once w')) = aw_stream w @ concat (map entry_bytes ops)"
  using log_run_ok [OF assms] .

text \<open>
  In mode \<open>always\<close> an operation that has been logged is on the file and synced before the
  command goes on; the ring is not used and logging never waits.
\<close>

lemma always_mode_durable:
  assumes "aof_ok w" and "aw_fsync_mode w = Always"
  shows "\<exists>w'. log_append w x = Some w' \<and> aof_ok w' \<and> af_bytes (aw_file w') = aw_stream w @ entry_bytes x
     \<and> af_durable (aw_file w') = length (af_bytes (aw_file w'))"
proof -
  have l: "length (entry_bytes x) \<le> AOF_BUF_SIZE" using length_entry_le [of x] by (simp add: AOF_BUF_SIZE_def)
  obtain w' where w': "write_entry w (entry_bytes x) = Some w'" using assms(2) by (simp add: write_entry_def)
  note h = write_entry_healthy [OF _ _ l w']
  have "aw_pending w' = []"
    using h(2,4) assms by (intro aw_pending_empty) (simp add: aof_ok_def aw_inv_def)
  then have "aw_stream w' = af_bytes (aw_file w')" by (simp add: aw_stream_def)
  with h w' assms show ?thesis by (simp add: log_append_eq aof_ok_def)
qed

text \<open>
  Shutdown stops the flush thread, brings every byte of the ring to the file and closes the
  descriptor; unless the mode is \<open>no\<close>, everything on the file is then synced.
\<close>

lemma shutdown_drains_log:
  assumes "aof_ok w"
  shows "af_bytes (aw_file (aof_shutdown k w)) = aw_stream w \<and> aw_pending (aof_shutdown k w) = []
     \<and> aw_fd (aof_shutdown k w) = - 1 \<and> \<not> aw_flush_thread (aof_shutdown k w)
     \<and> (aw_synced w \<and> aw_fsync_mode w \<noteq> No \<longrightarrow> af_durable (aw_file (aof_shutdown k w)) = length (aw_stream w))"
  using aof_shutdown_ok [OF assms, of k] aw_pending_empty by (auto simp: aw_synced_def)

text \<open>
  C39: the write-ahead log is not kept when a write fails: the flush reports the error, writes nothing
  and still advances the tail, so all pending entries are gone although their clients got an answer.
\<close>

theorem failed_write_drops_entries:
  assumes "aw_inv w" and "0 \<le> aw_fd w" and "af_writes (aw_file w) = [WError, WError]"
  shows "aw_pending (flush_once w) = [] \<and> af_bytes (aw_file (flush_once w)) = af_bytes (aw_file w)"
proof -
  have "aw_head (flush_once w) = aw_tail (flush_once w)"
    by (simp add: flush_once_def Let_def unat_diff_zero)
  moreover have "af_bytes (write_pending (aw_fd w) buf t k (aw_file w)) = af_bytes (aw_file w)" for buf t k
    using assms(2,3) by (simp add: write_pending_def checked_write_def Let_def)
  moreover have "af_bytes (fdatasync fd f) = af_bytes f" for fd f
    by (simp add: fdatasync_def split: list.split)
  ultimately show ?thesis by (simp add: aw_pending_empty flush_once_def Let_def)
qed

definition failing_writer :: aof_writer where
  "failing_writer = the (log_append ((sample_writer No)\<lparr>aw_file := sample_file\<lparr>af_writes := [WError, WError]\<rparr>\<rparr>) (LDel 9 1))"

theorem failed_write_drops_entries_witness:
  "length (aw_pending failing_writer) = 15 \<and> aw_pending (flush_once failing_writer) = []
   \<and> af_bytes (aw_file (flush_once failing_writer)) = []"
proof -
  let ?w = "(sample_writer No)\<lparr>aw_file := sample_file\<lparr>af_writes := [WError, WError]\<rparr>\<rparr>"
  have inv: "aw_inv ?w" and p0: "aw_pending ?w = []"
    by (simp_all add: aw_inv_def sample_writer_def sample_file_def aw_pending_empty)
  have l: "length (entry_bytes (LDel 9 1)) = 15" by (simp only: length_entry_bytes) simp
  then have lb: "length (entry_bytes (LDel 9 1)) \<le> AOF_BUF_SIZE" by (simp add: AOF_BUF_SIZE_def)
  have "ring_write ?w (entry_bytes (LDel 9 1)) = Some failing_writer"
    using ring_has_room_iff [OF inv lb] p0 lb
    by (simp add: failing_writer_def log_append_eq write_entry_def ring_write_def Let_def sample_writer_def
        del: entry_bytes.simps)
  note rw = ring_write_pending [OF inv lb this] and same = ring_write_fields [OF this]
  have "aw_inv failing_writer"
    using rw(2) same l p0 by (simp add: aw_inv_def aw_pending_length AOF_BUF_SIZE_def sample_writer_def sample_file_def)
  moreover have "0 \<le> aw_fd failing_writer" "aw_file failing_writer = sample_file\<lparr>af_writes := [WError, WError]\<rparr>"
    using same by (simp_all add: sample_writer_def)
  ultimately show ?thesis
    using failed_write_drops_entries [of failing_writer] rw(1) p0 l by (simp add: sample_file_def del: entry_bytes.simps)
qed

end
