(* ===== verification/Commands.thy ===== *)
theory Commands
  imports Connection Store Aof
begin

text \<open>
  \<^verbatim>\<open>src/commands.rs\<close>: the three commands. \<open>now\<close> is the value of the command's one call of
  \<^verbatim>\<open>now_ns()\<close>. A command ends with \<open>Done\<close>, or it is still spinning on a full log ring
  (\<open>Blocked\<close>, nothing has changed), or the process panics (\<open>Crashed\<close>); a panic after the log
  entry was written keeps the log with the entry.
\<close>

section \<open>The model\<close>

datatype 'a outcome = Done 'a | Blocked | Crashed panic aof_writer

definition push_command ::
  "u64 \<Rightarrow> connection \<Rightarrow> store \<Rightarrow> aof_writer \<Rightarrow> (connection \<times> store \<times> aof_writer) outcome" where
  "push_command now c s w =
     (let uid = header_user_id c;
          r = record_from_bytes (slice 9 26 (cn_rbuf c));
          write_ts = now
      in case append_push w uid r write_ts of
           None \<Rightarrow> Blocked
         | Some w' \<Rightarrow>
             (case get_or_create s uid of
                Inl e \<Rightarrow> Crashed e w'
              | Inr s1 \<Rightarrow> Done (write_ok_response c, buf_push s1 uid r write_ts, w')))"

text \<open>\<open>None\<close>: a slice of the write buffer is out of range, or \<open>get_last\<close> is.\<close>

definition get_command :: "connection \<Rightarrow> store \<Rightarrow> connection option" where
  "get_command c s =
     (let uid = header_user_id c;
          requested = u16_from_le_bytes (slice 9 11 (cn_rbuf c))
      in case store_get s uid of
           None \<Rightarrow> Some (write_not_found_response c)
         | Some b \<Rightarrow>
             let actual_count = min (rb_count b) requested;
                 payload_len = 2 + unat actual_count * 17;
                 w1 = blit (cn_wbuf c) 0 (u16_to_le_bytes MAGIC_WIRE);
                 w2 = w1[2 := STATUS_OK];
                 w3 = blit w2 3 (u16_to_le_bytes (word_of_nat payload_len));
                 w4 = blit w3 5 (u16_to_le_bytes actual_count);
                 filled =
                   (if 0 < actual_count
                    then if 7 + unat actual_count * 17 \<le> length w4
                         then let dst = slice 7 (7 + unat actual_count * 17) w4;
                                  view = bytes_as_records (unat actual_count) dst
                              in map_option (\<lambda>(out, k). blit w4 7 (records_as_bytes out))
                                   (rb_get_last (st_mem s) b actual_count view)
                         else None
                    else Some w4)
             in map_option
                  (\<lambda>w5. c\<lparr>cn_wbuf := w5, cn_wbuf_len := 7 + unat actual_count * 17,
                           cn_wbuf_pos := 0, cn_state := WriteResponse\<rparr>)
                  filled)"

definition del_command ::
  "u64 \<Rightarrow> connection \<Rightarrow> store \<Rightarrow> aof_writer \<Rightarrow> (connection \<times> store \<times> aof_writer) outcome" where
  "del_command now c s w =
     (let uid = header_user_id c
      in case append_del w uid now of
           None \<Rightarrow> Blocked
         | Some w' \<Rightarrow> Done (write_ok_response c, store_erase s uid, w'))"

section \<open>PUSH\<close>

lemma push_command_done:
  assumes "aof_ok w" and "append_push w (header_user_id c) (record_from_bytes (slice 9 26 (cn_rbuf c))) now = Some w'"
    and "store_inv s" and "header_user_id c \<in> dom (store_view s) \<or> card (dom (store_view s)) < store_slots s"
  shows "\<exists>s'. push_command now c s w = Done (write_ok_response c, s', w') \<and> store_inv s'
     \<and> store_view s' = abs_push (unat (st_capacity s)) (store_view s) (header_user_id c)
          (record_from_bytes (slice 9 26 (cn_rbuf c))) now
     \<and> st_capacity s' = st_capacity s \<and> store_slots s' = store_slots s"
  using store_push_room [OF assms(3), of "header_user_id c" "record_from_bytes (slice 9 26 (cn_rbuf c))" now]
    assms(2,4)
  by (auto simp: push_command_def Let_def store_push_def split: sum.splits)

lemma append_push_stream:
  assumes "aof_ok w" and "append_push w uid r ts = Some w'"
  shows "aof_ok w'" and "aw_stream w' = aw_stream w @ entry_bytes (LPush uid r ts)"
  using aol.append_stream [OF assms(1), of "entry_bytes (LPush uid r ts)" w'] assms(2)
  by (simp_all add: append_push_def push_entry_eq AOF_BUF_SIZE_def)

lemma append_del_stream:
  assumes "aof_ok w" and "append_del w uid ts = Some w'"
  shows "aof_ok w'" and "aw_stream w' = aw_stream w @ entry_bytes (LDel uid ts)"
  using aol.append_stream [OF assms(1), of "entry_bytes (LDel uid ts)" w'] assms(2)
  by (simp_all add: append_del_def del_entry_eq AOF_BUF_SIZE_def)

section \<open>GET\<close>

text \<open>The answer to a GET for \<open>k\<close> records, from the history of the key.\<close>

definition get_reply :: "event_map \<Rightarrow> u32 \<Rightarrow> nat \<Rightarrow> bytes" where
  "get_reply A uid k =
     (case A uid of
        None \<Rightarrow> response_frame STATUS_NOT_FOUND []
      | Some (h, ts) \<Rightarrow>
          let rs = take k h
          in response_frame STATUS_OK (u16_to_le_bytes (word_of_nat (length rs)) @ records_as_bytes rs))"

lemma get_wbuf_layout:
  assumes l: "7 + length body \<le> length w" and "length a = 2" and "length b = 2" and "length d = 2"
  shows "blit (blit (blit ((blit w 0 a)[2 := st]) 3 b) 5 d) 7 body
       = a @ [st] @ b @ d @ body @ drop (7 + length body) w"
proof -
  have w2: "(blit w 0 a)[2 := st] = a @ [st] @ drop 3 w"
    using assms by (intro wbuf_magic_status) simp_all
  have w3: "blit (a @ [st] @ drop 3 w) 3 b = a @ [st] @ b @ drop 5 w"
    using blit_append [of "a @ [st]" 3 "drop 3 w" b] assms by (simp add: add.commute)
  have w4: "blit (a @ [st] @ b @ drop 5 w) 5 d = a @ [st] @ b @ d @ drop 7 w"
    using blit_append [of "a @ [st] @ b" 5 "drop 5 w" d] assms by (simp add: add.commute)
  have "blit (a @ [st] @ b @ d @ drop 7 w) 7 body = a @ [st] @ b @ d @ body @ drop (7 + length body) w"
    using blit_append [of "a @ [st] @ b @ d" 7 "drop 7 w" body] assms by (simp add: add.commute)
  then show ?thesis by (simp only: w2 w3 w4)
qed

lemma unat_min: "unat (min a b) = min (unat a) (unat b)"
  by (simp add: min_def word_le_nat_alt)

lemma get_reply_length_fits:
  assumes "k \<le> (3854 :: nat)"
  shows "unat (word_of_nat (2 + k * 17) :: u16) = 2 + k * 17"
  using assms by (simp only: unat_of_nat) simp

text \<open>
  A GET on a well-formed store never panics; its answer is the frame \<open>get_reply\<close>, whose length
  field is exact since the capacity is within the protocol limit.
\<close>

text \<open>The reply to a present user: its bytes, and room for them in the write buffer.\<close>

lemma get_command_room:
  assumes "store_inv s" and "st_capacity s = word_of_nat n" and "compiled_n_ok n" and "conn_sizes n c"
    and "st_map s uid = Some b"
  shows "7 + length (take q (rb_contents (st_mem s) b)) * 17 \<le> length (cn_wbuf c)"
proof -
  have "rb_inv b" "rb_capacity b = word_of_nat n"
    using assms(1,2,5) store_bufs_okD [of s] by (auto simp: store_inv_def)
  then have "length (take q (rb_contents (st_mem s) b)) \<le> n"
    using rb_contents_le_capacity [of b "st_mem s"] assms(3) by (simp add: compiled_n_u16)
  then have "length (take q (rb_contents (st_mem s) b)) * 17 \<le> n * 17" by (rule mult_le_mono1)
  then show ?thesis using WBUF_SIZE_ge [of n] assms(4) by (simp add: conn_sizes_def)
qed

lemma get_command_found:
  assumes b: "st_map s (header_user_id c) = Some b"
  defines "rs \<equiv> take (unat (get_count_field c)) (rb_contents (st_mem s) b)"
  assumes room: "7 + length rs * 17 \<le> length (cn_wbuf c)"
  shows "get_command c s = Some (c\<lparr>cn_wbuf := u16_to_le_bytes MAGIC_WIRE @ [STATUS_OK]
        @ u16_to_le_bytes (word_of_nat (2 + length rs * 17)) @ u16_to_le_bytes (word_of_nat (length rs))
        @ records_as_bytes rs @ drop (7 + length rs * 17) (cn_wbuf c),
      cn_wbuf_len := 7 + length rs * 17, cn_wbuf_pos := 0, cn_state := WriteResponse\<rparr>)"
proof -
  define k where "k = min (rb_count b) (u16_from_le_bytes (slice 9 11 (cn_rbuf c)))"
  have rs': "rs = take (unat (u16_from_le_bytes (slice 9 11 (cn_rbuf c)))) (rb_contents (st_mem s) b)"
    by (simp add: rs_def get_count_field_def)
  have k: "unat k = length rs" by (simp add: k_def rs' unat_min)
  have rs: "take (unat k) (rb_contents (st_mem s) b) = rs" by (simp add: k_def rs' unat_min min_def word_le_nat_alt)
  let ?m = "u16_to_le_bytes MAGIC_WIRE" and ?p = "u16_to_le_bytes (word_of_nat (2 + length rs * 17))"
    and ?body = "records_as_bytes rs"
  define w4 where "w4 = blit (blit ((blit (cn_wbuf c) 0 ?m)[2 := STATUS_OK]) 3 ?p) 5 (u16_to_le_bytes k)"
  have lw4: "length w4 = length (cn_wbuf c)" using room by (simp add: w4_def)
  have kw: "word_of_nat (length rs) = k" by (simp flip: k)
  have out: "blit w4 7 ?body = ?m @ [STATUS_OK] @ ?p @ u16_to_le_bytes (word_of_nat (length rs)) @ ?body
      @ drop (7 + length rs * 17) (cn_wbuf c)"
    unfolding w4_def kw using get_wbuf_layout [of ?body "cn_wbuf c" ?m ?p "u16_to_le_bytes k" STATUS_OK] room
    by (simp add: mult.commute)
  have gl: "rb_get_last (st_mem s) b k (bytes_as_records (length rs) bs) = Some (rs, k)" for bs
    using rb_get_last_eq [of k b "bytes_as_records (length rs) bs" "st_mem s"] rs
    by (simp add: k_def min.commute min.left_commute flip: k)
  have zero: "w4 = blit w4 7 ?body" if "\<not> 0 < k"
    using that k by (simp add: word_less_nat_alt records_as_bytes_def blit_Nil)
  show ?thesis
    unfolding out [symmetric] get_command_def Let_def store_get_def b option.case
    unfolding k_def [symmetric] k unfolding w4_def [symmetric] lw4
    by (cases "0 < k") (use room gl zero in simp_all)
qed

lemma get_command_reply:
  assumes inv: "store_inv s" and cap: "st_capacity s = word_of_nat n" and n: "compiled_n_ok n"
    and sizes: "conn_sizes n c"
  shows "\<exists>c'. get_command c s = Some c' \<and> conn_sizes n c' \<and> cn_state c' = WriteResponse
     \<and> cn_wbuf_len c' \<le> length (cn_wbuf c') \<and> cn_wbuf_pos c' = 0 \<and> cn_rbuf c' = cn_rbuf c
     \<and> cn_rbuf_pos c' = cn_rbuf_pos c \<and> cn_fd c' = cn_fd c
     \<and> conn_output c' = get_reply (store_view s) (header_user_id c) (unat (get_count_field c))"
proof (cases "st_map s (header_user_id c)")
  case None
  then show ?thesis
    using write_response_frame [OF sizes, of STATUS_NOT_FOUND] WBUF_SIZE_min [of n]
    by (simp add: get_command_def store_get_def write_not_found_response_def get_reply_def store_view_def
        conn_sizes_def)
next
  case (Some b)
  define rs where "rs = take (unat (get_count_field c)) (rb_contents (st_mem s) b)"
  have room: "7 + length rs * 17 \<le> length (cn_wbuf c)" unfolding rs_def by (rule get_command_room [OF assms Some])
  from get_command_found [OF Some, folded rs_def, OF room] obtain c' where
    g: "get_command c s = Some c'" and c': "c' = c\<lparr>cn_wbuf := u16_to_le_bytes MAGIC_WIRE @ [STATUS_OK]
        @ u16_to_le_bytes (word_of_nat (2 + length rs * 17)) @ u16_to_le_bytes (word_of_nat (length rs))
        @ records_as_bytes rs @ drop (7 + length rs * 17) (cn_wbuf c),
      cn_wbuf_len := 7 + length rs * 17, cn_wbuf_pos := 0, cn_state := WriteResponse\<rparr>" by blast
  have "get_reply (store_view s) (header_user_id c) (unat (get_count_field c))
      = response_frame STATUS_OK (u16_to_le_bytes (word_of_nat (length rs)) @ records_as_bytes rs)"
    by (simp only: get_reply_def store_view_def Some option.map option.case prod.case rs_def [symmetric] Let_def)
  then have "conn_output c' = get_reply (store_view s) (header_user_id c) (unat (get_count_field c))"
    by (simp add: c' conn_output_def slice_zero take_Cons' response_frame_def mult.commute)
  moreover have "conn_sizes n c'" using sizes room by (simp add: c' conn_sizes_def)
  ultimately show ?thesis using g room by (simp add: c')
qed

section \<open>Properties\<close>

text \<open>A connection that has received a complete PUSH or GET request for user 7.\<close>

definition sample_push_conn :: connection where
  "sample_push_conn = (connection_new 2 (\<lambda>_. 0) 5)
     \<lparr>cn_rbuf := request_header OPCODE_PUSH 7 17 @ record_to_bytes default_record @ replicate 6 0\<rparr>"

definition sample_get_conn :: connection where
  "sample_get_conn = (connection_new 2 (\<lambda>_. 0) 5)
     \<lparr>cn_rbuf := request_header OPCODE_GET 7 2 @ u16_to_le_bytes 2 @ replicate 21 0\<rparr>"

lemma sample_conn_sizes: "conn_sizes 2 sample_push_conn" "conn_sizes 2 sample_get_conn"
  by (simp_all add: conn_sizes_def sample_push_conn_def sample_get_conn_def connection_new_def)

lemma sample_conn_fields:
  "header_user_id sample_push_conn = 7" "header_opcode sample_push_conn = OPCODE_PUSH"
  "header_user_id sample_get_conn = 7" "header_opcode sample_get_conn = OPCODE_GET"
  "unat (get_count_field sample_get_conn) = 2"
  "record_from_bytes (slice 9 26 (cn_rbuf sample_push_conn)) = default_record"
proof -
  have p: "take 9 (cn_rbuf sample_push_conn) = request_header OPCODE_PUSH 7 17"
    and g: "take 9 (cn_rbuf sample_get_conn) = request_header OPCODE_GET 7 2"
    by (simp_all add: sample_push_conn_def sample_get_conn_def)
  show "header_user_id sample_push_conn = 7" "header_opcode sample_push_conn = OPCODE_PUSH"
    using header_fields [OF p] by simp_all
  show "header_user_id sample_get_conn = 7" "header_opcode sample_get_conn = OPCODE_GET"
    using header_fields [OF g] by simp_all
  show "unat (get_count_field sample_get_conn) = 2"
    by (simp add: get_count_field_def sample_get_conn_def slice_def)
  show "record_from_bytes (slice 9 26 (cn_rbuf sample_push_conn)) = default_record"
    by (simp add: sample_push_conn_def slice_def)
qed

text \<open>
  A GET never panics and changes nothing but the connection's response. For an unknown user the
  response is the fixed not-found frame; otherwise it is a success frame whose payload is the number
  of records followed by that many most recent records, newest first, and whose length field is the
  exact payload size.
\<close>

lemma get_command_correct:
  assumes "store_inv s" and "st_capacity s = word_of_nat n" and "compiled_n_ok n" and "conn_sizes n c"
  shows "\<exists>c'. get_command c s = Some c' \<and> cn_state c' = WriteResponse \<and> cn_rbuf c' = cn_rbuf c
     \<and> conn_output c' =
         (case store_view s (header_user_id c) of
            None \<Rightarrow> u16_to_le_bytes MAGIC_WIRE @ [STATUS_NOT_FOUND] @ u16_to_le_bytes 0
          | Some (h, ts) \<Rightarrow>
              let rs = take (unat (get_count_field c)) h
              in u16_to_le_bytes MAGIC_WIRE @ [STATUS_OK] @ u16_to_le_bytes (word_of_nat (2 + length rs * 17))
                 @ u16_to_le_bytes (word_of_nat (length rs)) @ records_as_bytes rs)
     \<and> (\<forall>h ts. store_view s (header_user_id c) = Some (h, ts) \<longrightarrow>
          unat (word_of_nat (2 + length (take (unat (get_count_field c)) h) * 17) :: u16)
            = 2 + length (take (unat (get_count_field c)) h) * 17)"
proof -
  from get_command_reply [OF assms] obtain c' where
    c': "get_command c s = Some c'" "cn_state c' = WriteResponse" "cn_rbuf c' = cn_rbuf c"
    "conn_output c' = get_reply (store_view s) (header_user_id c) (unat (get_count_field c))" by blast
  have fits: "unat (word_of_nat (2 + length (take k h) * 17) :: u16) = 2 + length (take k h) * 17"
    if "store_view s uid = Some (h, ts)" for uid h ts k
  proof (rule get_reply_length_fits)
    from that obtain b where b: "st_map s uid = Some b" "h = rb_contents (st_mem s) b"
      by (auto simp: store_view_def)
    have "rb_inv b" "rb_capacity b = word_of_nat n"
      using store_bufs_okD [of s uid b] assms(1,2) b(1) by (auto simp: store_inv_def)
    then have "length h \<le> n"
      using rb_contents_le_capacity [of b "st_mem s"] compiled_n_u16 [OF assms(3)] b(2) by simp
    then have "length h \<le> 3854" using assms(3) by (simp add: compiled_n_ok_def)
    then show "length (take k h) \<le> 3854" by (simp add: min_le_iff_disj)
  qed
  have "get_reply (store_view s) (header_user_id c) (unat (get_count_field c)) =
         (case store_view s (header_user_id c) of
            None \<Rightarrow> u16_to_le_bytes MAGIC_WIRE @ [STATUS_NOT_FOUND] @ u16_to_le_bytes 0
          | Some (h, ts) \<Rightarrow>
              let rs = take (unat (get_count_field c)) h
              in u16_to_le_bytes MAGIC_WIRE @ [STATUS_OK] @ u16_to_le_bytes (word_of_nat (2 + length rs * 17))
                 @ u16_to_le_bytes (word_of_nat (length rs)) @ records_as_bytes rs)"
    by (auto simp: get_reply_def response_frame_def Let_def mult.commute split: option.split)
  with c' fits show ?thesis by auto
qed

text \<open>
  A PUSH logs before it applies, with one timestamp for both. When it completes, the log stream
  has grown by its entry and the user's history by its record; when it waits, the ring really has
  no room; when it panics, the store was full of other keys, and the entry is already in the log.
\<close>

lemma push_command_effect:
  assumes "aof_ok w" and "store_inv s"
  shows "(let uid = header_user_id c; r = record_from_bytes (slice 9 26 (cn_rbuf c)) in
     case push_command now c s w of
       Done (c', s', w') \<Rightarrow>
         aof_ok w' \<and> aw_stream w' = aw_stream w @ entry_bytes (LPush uid r now) \<and> store_inv s'
         \<and> store_view s' = abs_push (unat (st_capacity s)) (store_view s) uid r now \<and> c' = write_ok_response c
     | Blocked \<Rightarrow> AOF_BUF_SIZE < length (aw_pending w) + 32
     | Crashed e w' \<Rightarrow>
         uid \<notin> dom (store_view s) \<and> card (dom (store_view s)) = store_slots s
         \<and> aw_stream w' = aw_stream w @ entry_bytes (LPush uid r now))"
proof -
  let ?uid = "header_user_id c" and ?r = "record_from_bytes (slice 9 26 (cn_rbuf c))"
  show ?thesis
  proof (cases "append_push w ?uid ?r now")
    case None
    have l: "length (entry_bytes (LPush ?uid ?r now)) = 32" by (simp only: length_entry_bytes) simp
    have "AOF_BUF_SIZE < length (aw_pending w) + 32"
      using write_entry_blocked [of w "LPush ?uid ?r now"] None assms(1) l
      by (simp only: append_push_def push_entry_eq aof_ok_def)
    with None show ?thesis by (simp add: push_command_def)
  next
    case (Some w')
    note ap = append_push_stream [OF assms(1) Some]
    show ?thesis
    proof (cases "?uid \<in> dom (store_view s) \<or> card (dom (store_view s)) < store_slots s")
      case True
      from push_command_done [OF assms(1) Some assms(2) True] ap show ?thesis by (auto simp: Let_def)
    next
      case False
      then have full: "st_map s ?uid = None" "card (dom (st_map s)) = store_slots s"
        using store_inv_card [OF assms(2)] by auto
      from get_or_create_full [OF assms(2) full] Some ap full show ?thesis
        by (auto simp: push_command_def Let_def)
    qed
  qed
qed

text \<open>
  A DEL logs before it erases and then leaves no history for its user; deleting an absent user
  succeeds as well, and no other user changes.
\<close>

lemma del_command_effect:
  assumes "aof_ok w" and "store_inv s"
  shows "(case del_command now c s w of
       Done (c', s', w') \<Rightarrow>
         aof_ok w' \<and> aw_stream w' = aw_stream w @ entry_bytes (LDel (header_user_id c) now) \<and> store_inv s'
         \<and> store_view s' = (store_view s)(header_user_id c := None) \<and> c' = write_ok_response c
     | Blocked \<Rightarrow> AOF_BUF_SIZE < length (aw_pending w) + 15
     | Crashed e w' \<Rightarrow> False)"
proof (cases "append_del w (header_user_id c) now")
  case None
  let ?x = "LDel (header_user_id c) now"
  have l: "length (entry_bytes ?x) = 15" by (simp only: length_entry_bytes) simp
  have "AOF_BUF_SIZE < length (aw_pending w) + 15"
    using write_entry_blocked [of w ?x] None assms(1) l by (simp only: append_del_def del_entry_eq aof_ok_def)
  with None show ?thesis by (simp add: del_command_def)
next
  case (Some w')
  with append_del_stream [OF assms(1) Some] store_erase_ok [OF assms(2)] show ?thesis
    by (simp add: del_command_def abs_erase_def)
qed

end
