(* ===== verification/Buf_Writer.thy ===== *)
theory Buf_Writer
  imports Error
begin

text \<open>
  What \<^verbatim>\<open>src/snapshot.rs\<close> uses of the standard library's \<^verbatim>\<open>BufWriter<File>\<close>: a buffer of 8 KiB in front of a
  file. The answers of the \<^verbatim>\<open>write\<close> system calls are a script: a number of bytes, at most the number that
  was asked for, or an error; after its end every call writes all. A chunk reaches the buffer or is
  refused as a whole; a failed flush keeps what was not written.
\<close>

section \<open>The model\<close>

datatype file_answer = Written nat | WriteFails io_error

record buf_writer =
  bw_file :: bytes
  bw_buf :: bytes
  bw_writes :: "file_answer list"

definition BUF_CAPACITY :: nat where
  "BUF_CAPACITY = 8192"

definition buf_writer_new :: "file_answer list \<Rightarrow> buf_writer" where
  "buf_writer_new answers = \<lparr>bw_file = [], bw_buf = [], bw_writes = answers\<rparr>"

text \<open>\<^verbatim>\<open>flush_buf\<close>: writes until the buffer is empty; an interrupted call is repeated.\<close>

function flush_buf :: "buf_writer \<Rightarrow> io_error option \<times> buf_writer" where
  "flush_buf w =
     (if bw_buf w = [] then (None, w)
      else case bw_writes w of
             [] \<Rightarrow> (None, w\<lparr>bw_file := bw_file w @ bw_buf w, bw_buf := []\<rparr>)
           | Written k # answers \<Rightarrow>
               if k = 0 then (Some WriteZero, w\<lparr>bw_writes := answers\<rparr>)
               else flush_buf (w\<lparr>bw_file := bw_file w @ take k (bw_buf w), bw_buf := drop k (bw_buf w),
                                 bw_writes := answers\<rparr>)
           | WriteFails e # answers \<Rightarrow>
               if e = Interrupted then flush_buf (w\<lparr>bw_writes := answers\<rparr>)
               else (Some e, w\<lparr>bw_writes := answers\<rparr>))"
  by pat_completeness auto
termination
  by (relation "measure (\<lambda>w. length (bw_writes w))") auto

declare flush_buf.simps [simp del]

text \<open>
  \<^verbatim>\<open>write_all\<close>: a chunk that fits is copied; otherwise the buffer is flushed first. A chunk as large as the
  whole buffer goes straight to the file.
\<close>

definition write_all :: "bytes \<Rightarrow> buf_writer \<Rightarrow> io_error option \<times> buf_writer" where
  "write_all bs w =
     (let spare = BUF_CAPACITY - length (bw_buf w)
      in if length bs < spare then (None, w\<lparr>bw_buf := bw_buf w @ bs\<rparr>)
         else case (if spare < length bs then flush_buf w else (None, w)) of
                (Some e, w1) \<Rightarrow> (Some e, w1)
              | (None, w1) \<Rightarrow>
                  if BUF_CAPACITY \<le> length bs
                  then (case flush_buf (w1\<lparr>bw_buf := bs\<rparr>) of (r, w2) \<Rightarrow> (r, w2\<lparr>bw_buf := bw_buf w1\<rparr>))
                  else (None, w1\<lparr>bw_buf := bw_buf w1 @ bs\<rparr>))"

text \<open>\<^verbatim>\<open>let _ = w.write_all(..)\<close>: the outcome is ignored. \<open>buf_writer_drop\<close>: a last flush, its outcome ignored.\<close>

definition write_ignore :: "bytes \<Rightarrow> buf_writer \<Rightarrow> buf_writer" where
  "write_ignore bs w = snd (write_all bs w)"

definition buf_writer_drop :: "buf_writer \<Rightarrow> bytes" where
  "buf_writer_drop w = bw_file (snd (flush_buf w))"

section \<open>What is written\<close>

text \<open>Everything that was accepted: on the file and in the buffer.\<close>

definition bw_total :: "buf_writer \<Rightarrow> bytes" where
  "bw_total w = bw_file w @ bw_buf w"

text \<open>Calls that do not fail for good: they write something or are interrupted.\<close>

definition answer_ok :: "file_answer \<Rightarrow> bool" where
  "answer_ok a = (case a of Written k \<Rightarrow> 0 < k | WriteFails e \<Rightarrow> e = Interrupted)"

definition bw_ok :: "buf_writer \<Rightarrow> bool" where
  "bw_ok w \<longleftrightarrow> list_all answer_ok (bw_writes w)"

lemma flush_buf_total: "bw_total (snd (flush_buf w)) = bw_total w"
  by (induction w rule: flush_buf.induct)
    (subst flush_buf.simps, auto simp: bw_total_def split: list.split file_answer.split)

lemma flush_buf_ok:
  assumes "bw_ok w"
  shows "\<exists>w'. flush_buf w = (None, w') \<and> bw_file w' = bw_total w \<and> bw_buf w' = [] \<and> bw_ok w'"
  using assms
proof (induction w rule: flush_buf.induct)
  case (1 w)
  show ?case
  proof (cases "bw_buf w = [] \<or> bw_writes w = []")
    case True
    with 1(3) show ?thesis by (subst flush_buf.simps) (auto simp: bw_total_def bw_ok_def)
  next
    case False
    then obtain a answers where a: "bw_buf w \<noteq> []" "bw_writes w = a # answers" by (auto simp: neq_Nil_conv)
    show ?thesis
    proof (cases a)
      case (Written k)
      with 1(3) a have k: "k \<noteq> 0" by (auto simp: bw_ok_def answer_ok_def)
      let ?w = "w\<lparr>bw_file := bw_file w @ take k (bw_buf w), bw_buf := drop k (bw_buf w), bw_writes := answers\<rparr>"
      have "flush_buf w = flush_buf ?w" using a Written k by (subst flush_buf.simps) simp
      moreover have "bw_total ?w = bw_total w" by (simp add: bw_total_def)
      moreover have "bw_ok ?w" using 1(3) a by (simp add: bw_ok_def)
      ultimately show ?thesis using 1(1) [OF a(1) a(2) Written k] by auto
    next
      case (WriteFails e)
      with 1(3) a have e: "e = Interrupted" by (auto simp: bw_ok_def answer_ok_def)
      let ?w = "w\<lparr>bw_writes := answers\<rparr>"
      have "flush_buf w = flush_buf ?w" using a WriteFails e by (subst flush_buf.simps) simp
      moreover have "bw_total ?w = bw_total w" by (simp add: bw_total_def)
      moreover have "bw_ok ?w" using 1(3) a by (simp add: bw_ok_def)
      ultimately show ?thesis using 1(2) [OF a(1) a(2) WriteFails e] by auto
    qed
  qed
qed

lemma write_all_ok:
  assumes "bw_ok w" and "length bs < BUF_CAPACITY"
  shows "\<exists>w'. write_all bs w = (None, w') \<and> bw_total w' = bw_total w @ bs \<and> bw_ok w'"
proof -
  from flush_buf_ok [OF assms(1)] obtain w' where
    "flush_buf w = (None, w')" "bw_file w' = bw_total w" "bw_buf w' = []" "bw_ok w'" by blast
  with assms show ?thesis by (simp add: write_all_def bw_total_def bw_ok_def Let_def)
qed

lemma write_ignore_ok:
  assumes "bw_ok w" and "length bs < BUF_CAPACITY"
  shows "bw_ok (write_ignore bs w)" and "bw_total (write_ignore bs w) = bw_total w @ bs"
  using write_all_ok [OF assms] by (auto simp: write_ignore_def)

lemma write_each_ok:
  assumes "bw_ok w" and "\<And>bs. bs \<in> set chunks \<Longrightarrow> length bs < BUF_CAPACITY"
  shows "bw_ok (fold write_ignore chunks w)" and "bw_total (fold write_ignore chunks w) = bw_total w @ concat chunks"
  using assms by (induction chunks arbitrary: w) (simp_all add: write_ignore_ok)

text \<open>
  A call that fails once while chunks are written: the chunk that made the buffer overflow is lost, and
  everything else is accepted.
\<close>

definition bw_failing :: "io_error \<Rightarrow> buf_writer \<Rightarrow> bool" where
  "bw_failing e w \<longleftrightarrow> bw_file w = [] \<and> length (bw_buf w) \<le> BUF_CAPACITY \<and> bw_writes w = [WriteFails e]"

lemma write_ignore_fits:
  assumes "bw_failing e w" and "length (bw_buf w) + length bs \<le> BUF_CAPACITY" and "length bs < BUF_CAPACITY"
  shows "bw_failing e (write_ignore bs w)" and "bw_total (write_ignore bs w) = bw_total w @ bs"
proof -
  have "\<not> BUF_CAPACITY - length (bw_buf w) < length bs" using assms(2) by simp
  then have "write_ignore bs w = w\<lparr>bw_buf := bw_buf w @ bs\<rparr>" using assms(3) by (simp add: write_ignore_def write_all_def Let_def)
  with assms show "bw_failing e (write_ignore bs w)" "bw_total (write_ignore bs w) = bw_total w @ bs"
    by (simp_all add: bw_failing_def bw_total_def)
qed

lemma write_ignore_lost:
  assumes "bw_failing e w" and "e \<noteq> Interrupted" and "BUF_CAPACITY < length (bw_buf w) + length bs"
    and "length bs < BUF_CAPACITY"
  shows "write_ignore bs w = w\<lparr>bw_writes := []\<rparr>"
proof -
  have "flush_buf w = (Some e, w\<lparr>bw_writes := []\<rparr>)"
    using assms by (subst flush_buf.simps) (auto simp: bw_failing_def)
  with assms show ?thesis by (auto simp: write_ignore_def write_all_def bw_failing_def Let_def)
qed

lemma write_each_lost:
  assumes "bw_failing e w" and "e \<noteq> Interrupted" and "\<And>bs. bs \<in> set chunks \<Longrightarrow> length bs < BUF_CAPACITY"
    and "BUF_CAPACITY < length (bw_buf w) + length (concat chunks)"
  shows "\<exists>pre bs post. chunks = pre @ bs # post \<and> length (bw_buf w) + length (concat pre) \<le> BUF_CAPACITY
     \<and> BUF_CAPACITY < length (bw_buf w) + length (concat pre) + length bs
     \<and> bw_ok (fold write_ignore chunks w)
     \<and> bw_total (fold write_ignore chunks w) = bw_total w @ concat pre @ concat post"
  using assms
proof (induction chunks arbitrary: w)
  case Nil
  then show ?case by (simp add: bw_failing_def)
next
  case (Cons c cs)
  show ?case
  proof (cases "length (bw_buf w) + length c \<le> BUF_CAPACITY")
    case True
    let ?w = "write_ignore c w"
    note f = write_ignore_fits [OF Cons.prems(1) True] and c = Cons.prems(3) [of c]
    have "bw_buf ?w = bw_buf w @ c" using f c Cons.prems(1) by (simp add: bw_failing_def bw_total_def)
    with Cons.IH [of ?w] Cons.prems f c obtain pre bs post where
      "cs = pre @ bs # post" "length (bw_buf w) + length c + length (concat pre) \<le> BUF_CAPACITY"
      "BUF_CAPACITY < length (bw_buf w) + length c + length (concat pre) + length bs"
      "bw_ok (fold write_ignore cs ?w)" "bw_total (fold write_ignore cs ?w) = bw_total w @ c @ concat pre @ concat post"
      by (auto simp: add.assoc)
    then show ?thesis by (intro exI [of _ "c # pre"] exI [of _ bs] exI [of _ post]) simp
  next
    case False
    then have "write_ignore c w = w\<lparr>bw_writes := []\<rparr>"
      using Cons.prems by (intro write_ignore_lost) auto
    moreover have "bw_ok (w\<lparr>bw_writes := []\<rparr>)" by (simp add: bw_ok_def)
    from write_each_ok [OF this, of cs] Cons.prems(3)
    have "bw_ok (fold write_ignore cs (w\<lparr>bw_writes := []\<rparr>))"
      "bw_total (fold write_ignore cs (w\<lparr>bw_writes := []\<rparr>)) = bw_total w @ concat cs" by (auto simp: bw_total_def)
    ultimately show ?thesis
      using False Cons.prems(1) by (intro exI [of _ "[]"] exI [of _ c] exI [of _ cs]) (simp add: bw_failing_def)
  qed
qed

end
