(* ===== verification/Snapshot.thy ===== *)
theory Snapshot
  imports Store Buf_Writer
begin

text \<open>
  \<^verbatim>\<open>src/snapshot.rs\<close>: writing and loading snapshots. The order in which the hash map lists
  its keys is an argument of the dump. The file operations of \<open>dump_to_path\<close> answer with the
  outcomes of a \<open>dump_env\<close>; the records go through the buffer of \<open>Buf_Writer\<close>. A file system is a map
  from paths to contents.

  The main results are the round trip (a loaded dump restores the view of the store) and the
  atomicity of the replacement of the snapshot file.
\<close>

section \<open>The model\<close>

record snapshot_manager =
  sm_path :: string
  sm_child_pid :: int
  sm_last_ts :: u64

definition snapshot_manager_new :: "string \<Rightarrow> snapshot_manager" where
  "snapshot_manager_new path = \<lparr>sm_path = path, sm_child_pid = 0, sm_last_ts = 0\<rparr>"

text \<open>
  \<open>maybe_fork\<close> in the parent: \<open>wait_ret\<close> and \<open>fork_ret\<close> are the answers of \<^verbatim>\<open>waitpid\<close> and
  \<^verbatim>\<open>fork\<close>. The second result is the timestamp with which a new child dumps the store of this
  moment, if there is one.
\<close>

definition maybe_fork ::
  "u64 \<Rightarrow> int \<Rightarrow> int \<Rightarrow> snapshot_manager \<Rightarrow> u64 \<Rightarrow> snapshot_manager \<times> u64 option" where
  "maybe_fork now wait_ret fork_ret sm interval_ns =
     (if now - sm_last_ts sm < interval_ns then (sm, None)
      else if sm_child_pid sm \<noteq> 0 \<and> wait_ret = 0 then (sm, None)
      else let sm1 = sm\<lparr>sm_child_pid := 0\<rparr>;
               sm2 = sm1\<lparr>sm_last_ts := now\<rparr>
           in if fork_ret = - 1 then (sm2, None)
              else (sm2\<lparr>sm_child_pid := fork_ret\<rparr>, Some now))"

subsection \<open>Dumping\<close>

fun write_header :: "bytes list \<Rightarrow> buf_writer \<Rightarrow> io_error option \<times> buf_writer" where
  "write_header [] w = (None, w)"
| "write_header (bs # bss) w =
     (case write_all bs w of
        (Some e, w') \<Rightarrow> (Some e, w')
      | (None, w') \<Rightarrow> write_header bss w')"

definition dump_record :: "mem \<Rightarrow> ring_buffer \<Rightarrow> nat \<Rightarrow> bytes" where
  "dump_record m b i =
     (let cap = unat (rb_capacity b);
          start = (unat (rb_head b) + cap - unat (rb_count b)) mod cap;
          idx = (start + i) mod cap
      in record_to_bytes (read_record m (rb_data b + idx * 17)))"

definition dump_key :: "mem \<Rightarrow> u32 \<Rightarrow> ring_buffer \<Rightarrow> buf_writer \<Rightarrow> buf_writer" where
  "dump_key m uid b w =
     (let w1 = write_ignore (u32_to_le_bytes uid) w;
          w2 = write_ignore (u64_to_le_bytes (rb_last_write_ts b)) w1;
          w3 = write_ignore (u16_to_le_bytes (rb_count b)) w2
      in fold (\<lambda>i. write_ignore (dump_record m b i)) [0..<unat (rb_count b)] w3)"

record dump_env =
  de_create :: "io_error option"
  de_writes :: "file_answer list"
  de_sync :: "io_error option"
  de_rename :: "io_error option"

type_synonym fs = "string \<rightharpoonup> bytes"

definition tmp_path :: "string \<Rightarrow> string" where
  "tmp_path path = path @ ''/snapshot.tmp''"

definition bin_path :: "string \<Rightarrow> string" where
  "bin_path path = path @ ''/snapshot.bin''"

text \<open>
  \<open>dump_to_path\<close>. A return before \<^verbatim>\<open>into_inner\<close> drops the writer, which tries to flush once more.
\<close>

definition dump_to_path ::
  "dump_env \<Rightarrow> u32 list \<Rightarrow> store \<Rightarrow> string \<Rightarrow> u64 \<Rightarrow> fs \<Rightarrow> (io_error + unit) \<times> fs" where
  "dump_to_path env order s path snapshot_ts fs =
     (let tmp = tmp_path path; bin = bin_path path
      in case de_create env of
           Some e \<Rightarrow> (Inl e, fs)
         | None \<Rightarrow>
             (case write_header [u32_to_le_bytes MAGIC_SNAPSHOT, [SNAPSHOT_VERSION],
                                 u64_to_le_bytes snapshot_ts, u32_to_le_bytes (word_of_nat (store_len s))]
                     (buf_writer_new (de_writes env)) of
                (Some e, w) \<Rightarrow> (Inl e, fs(tmp \<mapsto> buf_writer_drop w))
              | (None, w) \<Rightarrow>
                  (case flush_buf (store_for_each order s (dump_key (st_mem s)) w) of
                     (Some e, w') \<Rightarrow> (Inl e, fs(tmp \<mapsto> buf_writer_drop w'))
                   | (None, w') \<Rightarrow>
                       let fs1 = fs(tmp \<mapsto> bw_file w')
                       in case de_sync env of
                            Some e \<Rightarrow> (Inl e, fs1)
                          | None \<Rightarrow>
                              (case de_rename env of
                                 Some e \<Rightarrow> (Inl e, fs1)
                               | None \<Rightarrow> (Inr (), fs1(bin := fs1 tmp, tmp := None))))))"

definition dump_sync :: "dump_env \<Rightarrow> u32 list \<Rightarrow> store \<Rightarrow> string \<Rightarrow> u64 \<Rightarrow> fs \<Rightarrow> panic + fs" where
  "dump_sync env order s path snapshot_ts fs =
     (case dump_to_path env order s path snapshot_ts fs of
        (Inl e, fs') \<Rightarrow> Inl (Panic ''dump_sync failed'')
      | (Inr (), fs') \<Rightarrow> Inr fs')"

subsection \<open>Loading\<close>

text \<open>The inner loop of \<open>parse_snapshot\<close>; a truncated record ends it.\<close>

primrec parse_records :: "bytes \<Rightarrow> u32 \<Rightarrow> u64 \<Rightarrow> nat \<Rightarrow> nat \<Rightarrow> store \<Rightarrow> nat \<times> store" where
  "parse_records data uid ts 0 pos s = (pos, s)"
| "parse_records data uid ts (Suc k) pos s =
     (if length data < pos + 17 then (pos, s)
      else let r = record_from_bytes (slice pos (pos + 17) data)
           in parse_records data uid ts k (pos + 17) (buf_push s uid r ts))"

primrec parse_keys :: "bytes \<Rightarrow> nat \<Rightarrow> nat \<Rightarrow> store \<Rightarrow> panic + store" where
  "parse_keys data 0 pos s = Inr s"
| "parse_keys data (Suc k) pos s =
     (if length data < pos + 14 then Inr s
      else let uid = u32_from_le_bytes (slice pos (pos + 4) data);
               last_write_ts = u64_from_le_bytes (slice (pos + 4) (pos + 12) data);
               record_cnt = u16_from_le_bytes (slice (pos + 12) (pos + 14) data)
           in case get_or_create s uid of
                Inl e \<Rightarrow> Inl e
              | Inr s1 \<Rightarrow>
                  (case parse_records data uid last_write_ts (unat record_cnt) (pos + 14) s1 of
                     (pos', s2) \<Rightarrow> parse_keys data k pos' s2))"

definition parse_snapshot :: "bytes \<Rightarrow> store \<Rightarrow> panic + (u64 \<times> store)" where
  "parse_snapshot data s =
     (if length data < 17 then Inr (0, s)
      else let magic = u32_from_le_bytes (slice 0 4 data)
           in if magic \<noteq> MAGIC_SNAPSHOT then Inr (0, s)
              else let snapshot_ts = u64_from_le_bytes (slice 5 13 data);
                       key_count = u32_from_le_bytes (slice 13 17 data)
                   in case parse_keys data (unat key_count) 17 s of
                        Inl e \<Rightarrow> Inl e
                      | Inr s' \<Rightarrow> Inr (snapshot_ts, s'))"

text \<open>\<open>load\<close>: \<open>read_file\<close> is \<^verbatim>\<open>std::fs::read\<close>.\<close>

definition snapshot_load ::
  "(string \<Rightarrow> io_error + bytes) \<Rightarrow> string \<Rightarrow> store \<Rightarrow> panic + (u64 \<times> store) weloxs_result" where
  "snapshot_load read_file path s =
     (case read_file (bin_path path) of
        Inl NotFound \<Rightarrow> Inr (Inr (0, s))
      | Inl e \<Rightarrow> Inr (Inl (Io e))
      | Inr data \<Rightarrow>
          (case parse_snapshot data s of Inl p \<Rightarrow> Inl p | Inr r \<Rightarrow> Inr (Inr r)))"

section \<open>The format\<close>

text \<open>The bytes of one key: oldest record first.\<close>

definition key_bytes :: "u32 \<Rightarrow> history \<Rightarrow> bytes" where
  "key_bytes uid h =
     u32_to_le_bytes uid @ u64_to_le_bytes (snd h) @ u16_to_le_bytes (word_of_nat (length (fst h)))
     @ records_as_bytes (rev (fst h))"

definition header_bytes :: "u64 \<Rightarrow> nat \<Rightarrow> bytes" where
  "header_bytes ts k =
     u32_to_le_bytes MAGIC_SNAPSHOT @ [SNAPSHOT_VERSION] @ u64_to_le_bytes ts @ u32_to_le_bytes (word_of_nat k)"

text \<open>The snapshot of an abstract map whose keys are listed in \<open>order\<close>.\<close>

definition snapshot_bytes :: "u64 \<Rightarrow> u32 list \<Rightarrow> event_map \<Rightarrow> bytes" where
  "snapshot_bytes ts order A =
     header_bytes ts (length order) @ concat (map (\<lambda>uid. key_bytes uid (the (A uid))) order)"

lemma dump_record_eq:
  assumes "rb_inv b" and "i < unat (rb_count b)"
  shows "dump_record m b i = record_to_bytes (rb_contents m b ! (unat (rb_count b) - 1 - i))"
proof -
  let ?c = "unat (rb_capacity b)" and ?h = "unat (rb_head b)" and ?n = "unat (rb_count b)"
  have nc: "?n \<le> ?c" using assms(1) by (simp add: rb_inv_def word_le_nat_alt)
  have "?h + ?c - 1 - (?n - 1 - i) = ?h + ?c - ?n + i" using assms(2) nc by simp
  then have "rb_index b (?n - 1 - i) = ((?h + ?c - ?n) mod ?c + i) mod ?c"
    by (simp add: rb_index_def mod_add_left_eq)
  then show ?thesis using assms(2) by (simp add: dump_record_def rb_contents_def Let_def)
qed

lemma dump_records_eq:
  assumes "rb_inv b"
  shows "concat (map (dump_record m b) [0..<unat (rb_count b)]) = records_as_bytes (rev (rb_contents m b))"
proof -
  have "map (dump_record m b) [0..<unat (rb_count b)] = map record_to_bytes (rev (rb_contents m b))"
    by (rule nth_equalityI) (simp_all add: dump_record_eq [OF assms] rev_nth)
  then show ?thesis by (simp add: records_as_bytes_def)
qed

text \<open>The chunks that are written for a key, and for all keys.\<close>

definition key_chunks :: "mem \<Rightarrow> u32 \<Rightarrow> ring_buffer \<Rightarrow> bytes list" where
  "key_chunks m uid b =
     u32_to_le_bytes uid # u64_to_le_bytes (rb_last_write_ts b) # u16_to_le_bytes (rb_count b)
     # map (dump_record m b) [0..<unat (rb_count b)]"

lemma dump_key_chunks: "dump_key m uid b = fold write_ignore (key_chunks m uid b)"
  by (simp add: dump_key_def key_chunks_def Let_def fold_map comp_def fun_eq_iff)

lemma key_chunks_bytes:
  "rb_inv b \<Longrightarrow> concat (key_chunks m uid b) = key_bytes uid (rb_contents m b, rb_last_write_ts b)"
  by (simp add: key_chunks_def key_bytes_def dump_records_eq)

lemma key_chunks_short: "c \<in> set (key_chunks m uid b) \<Longrightarrow> length c \<in> {2, 4, 8, 17}"
  by (auto simp: key_chunks_def dump_record_def Let_def)

definition store_chunks :: "u32 list \<Rightarrow> store \<Rightarrow> bytes list" where
  "store_chunks order s = concat (map (\<lambda>uid. key_chunks (st_mem s) uid (the (st_map s uid))) order)"

lemma store_chunks_short: "c \<in> set (store_chunks order s) \<Longrightarrow> 0 < length c \<and> length c < BUF_CAPACITY"
  by (fastforce simp: store_chunks_def BUF_CAPACITY_def dest: key_chunks_short)

lemma for_each_chunks:
  assumes "set order \<subseteq> dom (st_map s)"
  shows "store_for_each order s (dump_key (st_mem s)) w = fold write_ignore (store_chunks order s) w"
  using assms
proof (induction order arbitrary: w)
  case (Cons uid order)
  then obtain b where "st_map s uid = Some b" by auto
  with Cons show ?case by (simp add: store_for_each_def store_chunks_def dump_key_chunks)
qed (simp add: store_for_each_def store_chunks_def)

lemma store_chunks_bytes:
  assumes "\<And>uid. uid \<in> set order \<Longrightarrow> \<exists>b. st_map s uid = Some b \<and> rb_inv b"
  shows "concat (store_chunks order s) = concat (map (\<lambda>uid. key_bytes uid (the (store_view s uid))) order)"
  using assms
proof (induction order)
  case (Cons uid order)
  then obtain b where "st_map s uid = Some b" "rb_inv b" by auto
  with Cons show ?case by (simp add: store_chunks_def key_chunks_bytes store_view_def)
qed (simp add: store_chunks_def)

text \<open>The header always fits into the empty buffer.\<close>

lemma write_header_new:
  "write_header [u32_to_le_bytes MAGIC_SNAPSHOT, [SNAPSHOT_VERSION], u64_to_le_bytes ts, u32_to_le_bytes (word_of_nat k)]
     (buf_writer_new answers) = (None, \<lparr>bw_file = [], bw_buf = header_bytes ts k, bw_writes = answers\<rparr>)"
  by (simp add: buf_writer_new_def write_all_def Let_def BUF_CAPACITY_def header_bytes_def)

section \<open>Writing the file\<close>

lemma tmp_bin_differ [simp]: "tmp_path p \<noteq> bin_path p" "bin_path p \<noteq> tmp_path p"
  by (simp_all add: tmp_path_def bin_path_def)

definition dump_env_ok :: "dump_env \<Rightarrow> bool" where
  "dump_env_ok env \<longleftrightarrow> de_create env = None \<and> list_all answer_ok (de_writes env)
     \<and> de_sync env = None \<and> de_rename env = None"

lemma hash_order_length: "hash_order m order \<Longrightarrow> length order = card (dom m)"
  using distinct_card by (fastforce simp: hash_order_def)

lemma store_inv_buf: "store_inv s \<Longrightarrow> uid \<in> dom (st_map s) \<Longrightarrow> \<exists>b. st_map s uid = Some b \<and> rb_inv b"
  using store_bufs_okD(1) [of s uid] by (auto simp: store_inv_def)

text \<open>What a dump does when its chunks are accepted up to the final flush.\<close>

lemma dump_to_path_run:
  fixes ts :: u64
  assumes "store_inv s" and "hash_order (st_map s) order" and "de_create env = None"
  defines "w \<equiv> \<lparr>bw_file = [], bw_buf = header_bytes ts (length order), bw_writes = de_writes env\<rparr>"
  shows "dump_to_path env order s path ts fs =
     (case flush_buf (fold write_ignore (store_chunks order s) w) of
        (Some e, w') \<Rightarrow> (Inl e, fs(tmp_path path \<mapsto> buf_writer_drop w'))
      | (None, w') \<Rightarrow>
          (case de_sync env of
             Some e \<Rightarrow> (Inl e, fs(tmp_path path \<mapsto> bw_file w'))
           | None \<Rightarrow>
               (case de_rename env of
                  Some e \<Rightarrow> (Inl e, fs(tmp_path path \<mapsto> bw_file w'))
                | None \<Rightarrow> (Inr (), fs(bin_path path \<mapsto> bw_file w', tmp_path path := None)))))"
proof -
  have len: "store_len s = length order"
    using hash_order_length [OF assms(2)] by (simp add: store_len_def)
  have "set order \<subseteq> dom (st_map s)" using assms(2) by (simp add: hash_order_def)
  note run = dump_to_path_def Let_def len write_header_new for_each_chunks [OF this] fun_upd_twist assms(3)
  obtain a w' where "flush_buf (fold write_ignore (store_chunks order s) w) = (a, w')" by fastforce
  then show ?thesis unfolding w_def by (cases a; cases "de_sync env"; cases "de_rename env") (simp_all add: run del: write_header.simps)
qed

lemma store_chunks_view:
  assumes "store_inv s" and "hash_order (st_map s) order"
  shows "header_bytes ts (length order) @ concat (store_chunks order s) = snapshot_bytes ts order (store_view s)"
proof -
  have "\<exists>b. st_map s uid = Some b \<and> rb_inv b" if "uid \<in> set order" for uid
    using that assms(2) by (intro store_inv_buf [OF assms(1)]) (auto simp: hash_order_def)
  then show ?thesis by (simp add: store_chunks_bytes snapshot_bytes_def)
qed

lemma dump_flush_ok:
  fixes ts :: u64
  assumes "store_inv s" and "hash_order (st_map s) order" and "list_all answer_ok answers"
  defines "w \<equiv> \<lparr>bw_file = [], bw_buf = header_bytes ts (length order), bw_writes = answers\<rparr>"
  obtains w' where "flush_buf (fold write_ignore (store_chunks order s) w) = (None, w')"
    and "bw_file w' = snapshot_bytes ts order (store_view s)"
proof -
  have ok: "bw_ok w" using assms(3) by (simp add: w_def bw_ok_def)
  let ?w = "fold write_ignore (store_chunks order s) w"
  have "bw_ok ?w" "bw_total ?w = snapshot_bytes ts order (store_view s)"
    using write_each_ok [OF ok, of "store_chunks order s"] store_chunks_short store_chunks_view [OF assms(1,2), of ts]
    by (auto simp: bw_total_def w_def)
  with flush_buf_ok [of ?w] that show ?thesis by auto
qed

lemma dump_to_path_ok:
  assumes "store_inv s" and "hash_order (st_map s) order" and "dump_env_ok env"
  shows "dump_to_path env order s path ts fs
       = (Inr (), fs(bin_path path \<mapsto> snapshot_bytes ts order (store_view s), tmp_path path := None))"
proof -
  have e: "de_create env = None" "list_all answer_ok (de_writes env)" "de_sync env = None" "de_rename env = None"
    using assms(3) by (simp_all add: dump_env_ok_def)
  obtain w' where "flush_buf (fold write_ignore (store_chunks order s)
      \<lparr>bw_file = [], bw_buf = header_bytes ts (length order), bw_writes = de_writes env\<rparr>) = (None, w')"
    "bw_file w' = snapshot_bytes ts order (store_view s)" using dump_flush_ok [OF assms(1,2) e(2)] .
  with e dump_to_path_run [OF assms(1,2) e(1), of path ts fs] show ?thesis by simp
qed

text \<open>A dump that succeeds without a failed write has written the whole snapshot.\<close>

lemma dump_to_path_clean:
  assumes "dump_to_path env order s path ts fs = (Inr (), fs')" and "list_all answer_ok (de_writes env)"
  shows "dump_env_ok env"
  using assms by (auto simp: dump_to_path_def dump_env_ok_def Let_def split: option.splits prod.splits)

text \<open>Whatever fails, only a complete run touches the snapshot file, and no other file changes.\<close>

lemma dump_to_path_atomic:
  assumes "dump_to_path env order s path ts fs = (r, fs')"
  shows "r = Inl e \<Longrightarrow> fs' (bin_path path) = fs (bin_path path)"
    and "q \<noteq> bin_path path \<Longrightarrow> q \<noteq> tmp_path path \<Longrightarrow> fs' q = fs q"
  using assms
  by (auto simp: dump_to_path_def Let_def split: option.splits prod.splits if_splits)

section \<open>Reading it back\<close>

lemma parse_records_pushes:
  assumes "store_inv s" and "uid \<in> dom (st_map s)" and "drop pos data = records_as_bytes rs @ rest"
  shows "\<exists>s'. parse_records data uid ts (length rs) pos s = (pos + 17 * length rs, s')
     \<and> store_inv s' \<and> store_view s' = abs_replay (unat (st_capacity s)) (store_view s) (pushes_of uid ts rs)
     \<and> st_capacity s' = st_capacity s \<and> store_slots s' = store_slots s"
  using assms
proof (induction rs arbitrary: s pos)
  case Nil
  then show ?case by simp
next
  case (Cons r rs)
  from Cons.prems(2) obtain b where b: "st_map s uid = Some b" by auto
  have d: "drop pos data = record_to_bytes r @ records_as_bytes rs @ rest"
    using Cons.prems(3) by (simp add: records_as_bytes_def)
  then have "length (drop pos data) = 17 + length (records_as_bytes rs @ rest)" by simp
  then have len: "\<not> length data < pos + 17" by simp
  have r: "record_from_bytes (slice pos (pos + 17) data) = r"
    by (simp add: slice_drop_0 d)
  note bp = buf_push_ok [OF Cons.prems(1) b, of r ts]
  have "uid \<in> dom (st_map (buf_push s uid r ts))"
    by (simp add: buf_push_def b split: prod.split)
  moreover have "drop (pos + 17) data = records_as_bytes rs @ rest"
    using drop_consume [OF d] by simp
  ultimately show ?case
    using Cons.IH [of "buf_push s uid r ts" "pos + 17"] bp len r by (auto simp: Let_def)
qed

lemma key_bytes_fields:
  assumes "drop pos data = key_bytes uid h @ rest" and "length (fst h) < 2 ^ 16"
  shows "\<not> length data < pos + 14"
    and "u32_from_le_bytes (slice pos (pos + 4) data) = uid"
    and "u64_from_le_bytes (slice (pos + 4) (pos + 12) data) = snd h"
    and "unat (u16_from_le_bytes (slice (pos + 12) (pos + 14) data)) = length (rev (fst h))"
    and "drop (pos + 14) data = records_as_bytes (rev (fst h)) @ rest"
proof -
  have d: "drop pos data = u32_to_le_bytes uid @ u64_to_le_bytes (snd h)
      @ u16_to_le_bytes (word_of_nat (length (fst h))) @ records_as_bytes (rev (fst h)) @ rest"
    using assms(1) by (simp add: key_bytes_def)
  then have "length (drop pos data) = 14 + length (records_as_bytes (rev (fst h)) @ rest)" by simp
  then show "\<not> length data < pos + 14" by simp
  show "u32_from_le_bytes (slice pos (pos + 4) data) = uid" by (simp add: slice_drop_0 d)
  show "u64_from_le_bytes (slice (pos + 4) (pos + 12) data) = snd h"
    by (simp only: slice_drop d) (simp add: slice_def)
  show "unat (u16_from_le_bytes (slice (pos + 12) (pos + 14) data)) = length (rev (fst h))"
    using assms(2) by (simp only: slice_drop d) (simp add: slice_def unat_of_nat)
  have "drop (pos + 14) data = drop 14 (drop pos data)" by (simp add: add.commute)
  then show "drop (pos + 14) data = records_as_bytes (rev (fst h)) @ rest" by (simp add: d)
qed

text \<open>A map that a store of capacity \<open>cap\<close> can hold, with no empty history.\<close>

definition histories_ok :: "nat \<Rightarrow> event_map \<Rightarrow> bool" where
  "histories_ok cap A \<longleftrightarrow> (\<forall>uid h ts. A uid = Some (h, ts) \<longrightarrow> h \<noteq> [] \<and> length h \<le> cap)"

lemma histories_okD:
  "histories_ok cap A \<Longrightarrow> A uid = Some h \<Longrightarrow> fst h \<noteq> []"
  "histories_ok cap A \<Longrightarrow> A uid = Some h \<Longrightarrow> length (fst h) \<le> cap"
  by (cases h; auto simp: histories_ok_def)+

lemma parse_key_step:
  assumes inv: "store_inv s" and room: "card (dom (st_map s)) < store_slots s" and new: "uid \<notin> dom (st_map s)"
    and h: "fst h \<noteq> []" "length (fst h) \<le> unat (st_capacity s)"
    and d: "drop pos data = key_bytes uid h @ rest"
  obtains s' where "parse_keys data (Suc k) pos s = parse_keys data k (pos + length (key_bytes uid h)) s'"
    and "store_inv s'" and "store_view s' = (store_view s)(uid \<mapsto> h)"
    and "st_capacity s' = st_capacity s" and "store_slots s' = store_slots s"
proof -
  have l16: "length (fst h) < 2 ^ 16"
    using h(2) unsigned_less [of "st_capacity s", where 'a = nat] by simp
  note f = key_bytes_fields [OF d l16]
  from new have "st_map s uid = None" by auto
  from get_or_create_new [OF inv this room] obtain s1 where
    s1: "get_or_create s uid = Inr s1" "store_inv s1" "store_view s1 = (store_view s)(uid \<mapsto> ([], 0))"
    "st_capacity s1 = st_capacity s" "store_slots s1 = store_slots s" "uid \<in> dom (st_map s1)" by metis
  from parse_records_pushes [OF s1(2,6) f(5), of "snd h"] obtain s2 where
    s2: "parse_records data uid (snd h) (length (rev (fst h))) (pos + 14) s1
           = (pos + 14 + 17 * length (rev (fst h)), s2)"
    "store_inv s2"
    "store_view s2 = abs_replay (unat (st_capacity s1)) (store_view s1) (pushes_of uid (snd h) (rev (fst h)))"
    "st_capacity s2 = st_capacity s1" "store_slots s2 = store_slots s1" by blast
  have "store_view s2 = (store_view s)(uid \<mapsto> h)"
    using abs_replay_load [OF h(1), of "unat (st_capacity s)" "store_view s1" uid "snd h"] h(2) s1(3,4) s2(3)
    by (simp add: hist_records_def)
  moreover have "parse_keys data (Suc k) pos s = parse_keys data k (pos + length (key_bytes uid h)) s2"
    unfolding parse_keys.simps Let_def f(2,3) s1(1) f(4)
    using f(1) s2(1) by (simp add: key_bytes_def add.assoc)
  ultimately show ?thesis using that s1 s2 by metis
qed

lemma parse_keys_order:
  assumes "store_inv s" and "distinct order" and "set order \<inter> dom (store_view s) = {}"
    and "set order \<subseteq> dom A" and "histories_ok (unat (st_capacity s)) A"
    and "card (dom (store_view s)) + length order \<le> store_slots s"
    and "drop pos data = concat (map (\<lambda>uid. key_bytes uid (the (A uid))) order) @ rest"
  shows "\<exists>s'. parse_keys data (length order) pos s = Inr s' \<and> store_inv s'
     \<and> store_view s' = store_view s ++ (A |` set order)
     \<and> st_capacity s' = st_capacity s \<and> store_slots s' = store_slots s"
  using assms
proof (induction order arbitrary: s pos)
  case Nil
  then show ?case by simp
next
  case (Cons uid order)
  from Cons.prems(4) obtain h where h: "A uid = Some h" by auto
  let ?rest = "concat (map (\<lambda>uid. key_bytes uid (the (A uid))) order) @ rest"
  have d: "drop pos data = key_bytes uid h @ ?rest" using Cons.prems(7) h by simp
  have room: "card (dom (st_map s)) < store_slots s" and new: "uid \<notin> dom (st_map s)"
    using Cons.prems(3,6) by auto
  obtain s1 where s1: "parse_keys data (Suc (length order)) pos s
      = parse_keys data (length order) (pos + length (key_bytes uid h)) s1"
    "store_inv s1" "store_view s1 = (store_view s)(uid \<mapsto> h)"
    "st_capacity s1 = st_capacity s" "store_slots s1 = store_slots s"
    using parse_key_step [OF Cons.prems(1) room new histories_okD [OF Cons.prems(5) h] d] by blast
  have fin: "finite (dom (store_view s))" using es.view_bound [OF Cons.prems(1)] by simp
  have "card (dom (store_view s1)) = Suc (card (dom (store_view s)))"
    using new fin by (simp add: s1(3))
  then have c: "card (dom (store_view s1)) + length order \<le> store_slots s1"
    using Cons.prems(6) s1(5) by simp
  have d1: "drop (pos + length (key_bytes uid h)) data = ?rest"
    using d by (rule drop_consume)
  have "set order \<inter> dom (store_view s1) = {}"
    using Cons.prems(2,3) by (auto simp: s1(3))
  moreover have "distinct order" "set order \<subseteq> dom A" "histories_ok (unat (st_capacity s1)) A"
    using Cons.prems(2,4,5) s1(4) by simp_all
  ultimately obtain s' where
    s': "parse_keys data (length order) (pos + length (key_bytes uid h)) s1 = Inr s'" "store_inv s'"
    "store_view s' = store_view s1 ++ (A |` set order)" "st_capacity s' = st_capacity s1"
    "store_slots s' = store_slots s1" using Cons.IH [OF s1(2) _ _ _ _ c d1] by blast
  have "store_view s1 ++ (A |` set order) = store_view s ++ (A |` set (uid # order))"
    using h Cons.prems(2) by (simp add: s1(3) map_add_def restrict_map_def fun_eq_iff split: option.split)
  then show ?case using s1 s' by (simp del: parse_keys.simps)
qed

lemma parse_snapshot_roundtrip:
  assumes "store_inv s" and "store_view s = Map.empty" and "hash_order A order"
    and "histories_ok (unat (st_capacity s)) A" and "length order \<le> store_slots s" and "length order < 2 ^ 32"
  shows "\<exists>s'. parse_snapshot (snapshot_bytes ts order A @ rest) s = Inr (ts, s') \<and> store_inv s'
     \<and> store_view s' = A \<and> st_capacity s' = st_capacity s \<and> store_slots s' = store_slots s"
proof -
  let ?keys = "concat (map (\<lambda>uid. key_bytes uid (the (A uid))) order)"
  let ?data = "snapshot_bytes ts order A @ rest"
  have d: "?data = header_bytes ts (length order) @ ?keys @ rest" by (simp add: snapshot_bytes_def)
  have hl: "length (header_bytes ts (length order)) = 17" by (simp add: header_bytes_def)
  have f: "slice 0 4 ?data = u32_to_le_bytes MAGIC_SNAPSHOT" "slice 5 13 ?data = u64_to_le_bytes ts"
    "slice 13 17 ?data = u32_to_le_bytes (word_of_nat (length order))"
    unfolding d by (simp_all add: header_bytes_def slice_def)
  have "drop 17 ?data = ?keys @ rest" unfolding d using hl by simp
  with parse_keys_order [of s order A 17 ?data rest] assms obtain s' where
    s': "parse_keys ?data (length order) 17 s = Inr s'" "store_inv s'" "store_view s' = A |` set order"
    "st_capacity s' = st_capacity s" "store_slots s' = store_slots s"
    by (auto simp: hash_order_def)
  have "A |` set order = A"
    using assms(3) by (intro ext) (simp add: hash_order_def restrict_map_def dom_def, metis option.exhaust surj_pair)
  moreover have "\<not> length ?data < 17" unfolding d using hl by simp
  moreover have "unat (word_of_nat (length order) :: u32) = length order"
    using assms(6) by (simp add: unat_of_nat)
  ultimately show ?thesis using s' by (simp add: parse_snapshot_def Let_def f)
qed

section \<open>Properties\<close>

text \<open>Reading a file of a file system.\<close>

definition fs_read :: "fs \<Rightarrow> string \<Rightarrow> io_error + bytes" where
  "fs_read fs p = (case fs p of None \<Rightarrow> Inl NotFound | Some bs \<Rightarrow> Inr bs)"

definition good_env :: dump_env where
  "good_env = \<lparr>de_create = None, de_writes = [], de_sync = None, de_rename = None\<rparr>"

lemma good_env_ok: "dump_env_ok good_env"
  by (simp add: dump_env_ok_def good_env_def)

text \<open>A store in which user 7 has two records.\<close>

definition sample_store2 :: store where
  "sample_store2 = projr (store_run sample_store [LPush 7 default_record 1, LPush 7 default_record 2])"

lemma sample_store2_ok:
  "store_inv sample_store2" "store_view sample_store2 = [7 \<mapsto> ([default_record, default_record], 2)]"
  "hash_order (st_map sample_store2) [7]" "histories_ok 2 (store_view sample_store2)"
proof -
  let ?ops = "[LPush 7 default_record 1, LPush 7 default_record 2]"
  have "dom (store_view sample_store) \<union> op_uid ` set ?ops \<subseteq> {7}" "card {7 :: u32} \<le> store_slots sample_store"
    by (simp_all add: sample_store_ok)
  from es.run_view [OF sample_store_ok(1) _ this] obtain s' where
    "es.run sample_store ?ops = Inr s'" "store_inv s'" "store_view s' = abs_replay 2 Map.empty ?ops"
    by (auto simp: sample_store_ok simp del: abs_replay_simps)
  then show v: "store_inv sample_store2" "store_view sample_store2 = [7 \<mapsto> ([default_record, default_record], 2)]"
    by (simp_all add: sample_store2_def store_run_eq abs_push_def hist_records_def)
  show "hash_order (st_map sample_store2) [7]"
    using dom_store_view [of sample_store2] by (simp add: hash_order_def v(2))
  show "histories_ok 2 (store_view sample_store2)" by (simp add: v(2) histories_ok_def)
qed

text \<open>
  C19: a snapshot restores what it saved. Dumping a store and loading the file into an empty store
  of the same capacity with enough slots gives back the timestamp of the dump and every user's
  history and last write time, in whatever order the hash map listed the users.
\<close>

theorem snapshot_roundtrip:
  assumes "store_inv s" and "hash_order (st_map s) order" and "dump_env_ok env"
    and "histories_ok (unat (st_capacity s0)) (store_view s)"
    and "store_inv s0" and "store_view s0 = Map.empty"
    and "card (dom (store_view s)) \<le> store_slots s0" and "store_slots s0 < 2 ^ 32"
  shows "\<exists>fs' s'. dump_to_path env order s path ts fs = (Inr (), fs')
     \<and> snapshot_load (fs_read fs') path s0 = Inr (Inr (ts, s')) \<and> store_inv s' \<and> store_view s' = store_view s"
proof -
  let ?fs' = "fs(bin_path path \<mapsto> snapshot_bytes ts order (store_view s), tmp_path path := None)"
  have ho: "hash_order (store_view s) order" using assms(2) by (simp add: hash_order_def)
  then have "length order \<le> store_slots s0" "length order < 2 ^ 32"
    using hash_order_length [OF ho] assms(7,8) by simp_all
  from parse_snapshot_roundtrip [OF assms(5,6) ho assms(4) this, of ts "[]"] obtain s' where
    "parse_snapshot (snapshot_bytes ts order (store_view s)) s0 = Inr (ts, s')" "store_inv s'"
    "store_view s' = store_view s" by auto
  moreover have "fs_read ?fs' (bin_path path) = Inr (snapshot_bytes ts order (store_view s))"
    by (simp add: fs_read_def)
  ultimately show ?thesis
    using dump_to_path_ok [OF assms(1-3), of path ts fs] by (simp add: snapshot_load_def)
qed

theorem snapshot_roundtrip_witness:
  "\<exists>fs' s'. dump_to_path good_env [7] sample_store2 ''d'' 9 Map.empty = (Inr (), fs')
     \<and> snapshot_load (fs_read fs') ''d'' sample_store = Inr (Inr (9, s'))
     \<and> store_view s' = [7 \<mapsto> ([default_record, default_record], 2)]"
  using snapshot_roundtrip [OF sample_store2_ok(1,3) good_env_ok, of sample_store "''d''" 9 Map.empty]
    sample_store2_ok(2,4) by (auto simp: sample_store_ok)

text \<open>
  C28: the snapshot file is replaced atomically. Whenever the dump reports an error, whichever
  operation failed, the old snapshot is as it was; no other file than the snapshot and its temporary
  file is ever touched.
\<close>

theorem snapshot_replace_atomic:
  assumes "dump_to_path env order s path ts fs = (r, fs')"
  shows "(\<forall>e. r = Inl e \<longrightarrow> fs' (bin_path path) = fs (bin_path path))
     \<and> (\<forall>q. q \<noteq> bin_path path \<and> q \<noteq> tmp_path path \<longrightarrow> fs' q = fs q)"
  using dump_to_path_atomic [OF assms] by blast

theorem snapshot_replace_atomic_witness:
  "snd (dump_to_path (good_env\<lparr>de_sync := Some (OsError 5)\<rparr>) [7] sample_store2 ''d'' 9 [bin_path ''d'' \<mapsto> [1, 2]])
     (bin_path ''d'') = Some [1, 2]"
proof -
  let ?r = "dump_to_path (good_env\<lparr>de_sync := Some (OsError 5)\<rparr>) [7] sample_store2 ''d'' 9 [bin_path ''d'' \<mapsto> [1, 2]]"
  have "fst ?r = Inl (OsError 5)"
    using dump_to_path_run [OF sample_store2_ok(1,3), of "good_env\<lparr>de_sync := Some (OsError 5)\<rparr>" "''d''" 9 "[bin_path ''d'' \<mapsto> [1, 2]]"]
      dump_flush_ok [OF sample_store2_ok(1,3), of "[]" 9] by (fastforce simp: good_env_def)
  with snapshot_replace_atomic [OF prod.collapse [symmetric, of ?r]] show ?thesis by simp
qed

text \<open>A store in which user 7 has 500 records, too many for the buffer of the writer.\<close>

lemma abs_replay_repeated:
  "abs_replay cap Map.empty (replicate (Suc k) (LPush uid r ts)) = [uid \<mapsto> (take cap (replicate (Suc k) r), ts)]"
proof (induction k)
  case (Suc k)
  have "replicate (Suc (Suc k)) (LPush uid r ts) = replicate (Suc k) (LPush uid r ts) @ [LPush uid r ts]"
    by (simp only: replicate_append_same flip: replicate_Suc)
  then have "abs_replay cap Map.empty (replicate (Suc (Suc k)) (LPush uid r ts))
      = abs_push cap [uid \<mapsto> (take cap (replicate (Suc k) r), ts)] uid r ts" by (simp only: abs_replay_simps Suc.IH abs_apply.simps)
  also have "\<dots> = [uid \<mapsto> (take cap (replicate (Suc (Suc k)) r), ts)]"
  proof -
    have "take cap (r # take cap rs) = take cap (r # rs)" for rs by (cases cap) simp_all
    from this [of "replicate (Suc k) r"] show ?thesis
      unfolding abs_push_def hist_records_def by (simp del: take_replicate)
  qed
  finally show ?case .
qed (simp add: abs_push_def hist_records_def)

definition big_store :: store where
  "big_store = projr (store_run (projr (with_pool_slots 500 1 (Some 4096) (\<lambda>_. 0))) (replicate 500 (LPush 7 default_record 1)))"

lemma big_store_ok:
  "store_inv big_store" "store_view big_store = [7 \<mapsto> (replicate 500 default_record, 1)]" "hash_order (st_map big_store) [7]"
proof -
  let ?ops = "replicate 500 (LPush 7 default_record 1)"
  obtain s0 where s0: "with_pool_slots 500 1 (Some 4096) (\<lambda>_. 0) = Inr s0"
    by (simp add: with_pool_slots_def store_alloc_new_def memory_pool_new_def Let_def sa_slot_size_def next_multiple_of_def)
  note i = with_pool_slots_inv [OF _ _ _ s0]
  have s: "store_inv s0" "store_view s0 = Map.empty" "store_slots s0 = 1" "unat (st_capacity s0) = 500"
    using i by (simp_all add: region_ok_def sa_slot_size_def next_multiple_of_def)
  have "dom (store_view s0) \<union> op_uid ` set ?ops \<subseteq> {7}" "card {7 :: u32} \<le> store_slots s0" using s by auto
  from es.run_view [OF s(1) _ this] obtain s' where
    s': "es.run s0 ?ops = Inr s'" "store_inv s'" "store_view s' = abs_replay (unat (st_capacity s0)) (store_view s0) ?ops" by blast
  have big: "big_store = s'" by (simp only: big_store_def s0 store_run_eq sum.sel s'(1))
  have k: "500 = Suc 499" by simp
  have "abs_replay 500 Map.empty ?ops = [7 \<mapsto> (take 500 (replicate 500 default_record), 1)]"
    unfolding k by (rule abs_replay_repeated)
  with s' s show v: "store_inv big_store" "store_view big_store = [7 \<mapsto> (replicate 500 default_record, 1)]"
    unfolding big by (simp_all only: s take_all length_replicate order_refl)
  show "hash_order (st_map big_store) [7]"
    using dom_store_view [of big_store] by (simp add: hash_order_def v(2))
qed

text \<open>
  C40: a failed write in the middle of a dump goes unnoticed. When the snapshot is larger than the 8 KiB
  buffer of the writer and the first \<^verbatim>\<open>write\<close> call, which empties the full buffer, fails, while all later calls
  succeed, the dump reports success and replaces the snapshot by a file in which the chunk that did
  not fit any more is missing: 2, 4, 8 or 17 bytes.
\<close>

theorem dump_ignores_write_errors:
  assumes "store_inv s" and "hash_order (st_map s) order" and "e \<noteq> Interrupted"
    and "8192 < length (snapshot_bytes ts order (store_view s))"
  shows "\<exists>fs' p c q. dump_to_path (good_env\<lparr>de_writes := [WriteFails e]\<rparr>) order s path ts fs = (Inr (), fs')
     \<and> snapshot_bytes ts order (store_view s) = p @ c @ q \<and> fs' (bin_path path) = Some (p @ q)
     \<and> length p \<le> 8192 \<and> 8192 < length (p @ c) \<and> length c \<in> {2, 4, 8, 17}"
proof -
  let ?env = "good_env\<lparr>de_writes := [WriteFails e]\<rparr>" and ?cs = "store_chunks order s" and ?h = "header_bytes ts (length order)"
  let ?w = "\<lparr>bw_file = [], bw_buf = ?h, bw_writes = [WriteFails e]\<rparr>"
  have h: "length ?h = 17" by (simp add: header_bytes_def)
  have f: "bw_failing e ?w" using h by (simp add: bw_failing_def BUF_CAPACITY_def)
  note view = store_chunks_view [OF assms(1,2), of ts]
  have "BUF_CAPACITY < length (bw_buf ?w) + length (concat ?cs)"
    using assms(4) by (simp add: BUF_CAPACITY_def flip: view)
  with write_each_lost [OF f assms(3), of ?cs] store_chunks_short
  obtain pre c post where l: "?cs = pre @ c # post" "length ?h + length (concat pre) \<le> BUF_CAPACITY"
    "BUF_CAPACITY < length ?h + length (concat pre) + length c" "bw_ok (fold write_ignore ?cs ?w)"
    "bw_total (fold write_ignore ?cs ?w) = ?h @ concat pre @ concat post" by (force simp: bw_total_def)
  from flush_buf_ok [OF l(4)] obtain w' where
    w': "flush_buf (fold write_ignore ?cs ?w) = (None, w')" "bw_file w' = ?h @ concat pre @ concat post" using l(5) by auto
  have "dump_to_path ?env order s path ts fs
      = (Inr (), fs(bin_path path \<mapsto> ?h @ concat pre @ concat post, tmp_path path := None))"
    using dump_to_path_run [OF assms(1,2), of ?env path ts fs] w' by (simp add: good_env_def)
  moreover have "length c \<in> {2, 4, 8, 17}"
    using l(1) key_chunks_short [of c] by (auto simp: store_chunks_def dest!: arg_cong [of _ _ "\<lambda>cs. c \<in> set cs"])
  moreover have "snapshot_bytes ts order (store_view s) = (?h @ concat pre) @ c @ concat post" using l(1) by (simp flip: view)
  moreover have "length (?h @ concat pre) \<le> 8192" "8192 < length ((?h @ concat pre) @ c)" using l(2,3) by (simp_all add: BUF_CAPACITY_def)
  moreover have "(fs(bin_path path \<mapsto> ?h @ concat pre @ concat post, tmp_path path := None)) (bin_path path)
      = Some ((?h @ concat pre) @ concat post)" by simp
  ultimately show ?thesis by blast
qed

theorem dump_ignores_write_errors_witness:
  "\<exists>fs' n. dump_to_path (good_env\<lparr>de_writes := [WriteFails (OsError 28)]\<rparr>) [7] big_store ''d'' 9 Map.empty = (Inr (), fs')
     \<and> length (snapshot_bytes 9 [7] (store_view big_store)) = 8531
     \<and> map_option length (fs' (bin_path ''d'')) = Some n \<and> n < 8531"
proof -
  have len: "length (snapshot_bytes 9 [7] (store_view big_store)) = 8531"
    by (simp add: big_store_ok(2) snapshot_bytes_def header_bytes_def key_bytes_def)
  have "OsError 28 \<noteq> Interrupted" "8192 < length (snapshot_bytes 9 [7] (store_view big_store))" by (simp_all add: len)
  from dump_ignores_write_errors [OF big_store_ok(1,3) this, of "''d''" Map.empty] obtain fs' p c q where
    d: "dump_to_path (good_env\<lparr>de_writes := [WriteFails (OsError 28)]\<rparr>) [7] big_store ''d'' 9 Map.empty = (Inr (), fs')"
    "snapshot_bytes 9 [7] (store_view big_store) = p @ c @ q" "fs' (bin_path ''d'') = Some (p @ q)" "length c \<in> {2, 4, 8, 17}" by blast
  have "length (p @ q) < 8531" using len d(4) unfolding d(2) by auto
  with d(1,3) len show ?thesis by auto
qed

text \<open>
  The timestamps of the children that a sequence of \<open>maybe_fork\<close> calls starts; each call comes with
  its reading of the clock and the answers of \<^verbatim>\<open>waitpid\<close> and \<^verbatim>\<open>fork\<close>.
\<close>

fun snapshot_times :: "u64 \<Rightarrow> snapshot_manager \<Rightarrow> (u64 \<times> int \<times> int) list \<Rightarrow> u64 list" where
  "snapshot_times iv sm [] = []"
| "snapshot_times iv sm ((now, wait_ret, fork_ret) # calls) =
     (case maybe_fork now wait_ret fork_ret sm iv of
        (sm', None) \<Rightarrow> snapshot_times iv sm' calls
      | (sm', Some ts) \<Rightarrow> ts # snapshot_times iv sm' calls)"

lemma maybe_fork_cases:
  assumes "maybe_fork now wait_ret fork_ret sm iv = (sm', child)" and "sm_last_ts sm \<le> now"
  obtains (keep) "sm' = sm" "child = None"
  | (fork) "sm_last_ts sm' = now" "unat (sm_last_ts sm) + unat iv \<le> unat now" "child \<in> {None, Some now}"
      "sm_child_pid sm = 0 \<or> wait_ret \<noteq> 0"
proof (cases "now - sm_last_ts sm < iv \<or> (sm_child_pid sm \<noteq> 0 \<and> wait_ret = 0)")
  case True
  then show thesis using assms(1) keep by (auto simp: maybe_fork_def Let_def split: if_splits)
next
  case False
  then have "unat iv \<le> unat now - unat (sm_last_ts sm)"
    using unat_sub [OF assms(2)] by (simp add: word_le_nat_alt not_less)
  moreover have "unat (sm_last_ts sm) \<le> unat now" using assms(2) by (simp add: word_le_nat_alt)
  ultimately have "unat (sm_last_ts sm) + unat iv \<le> unat now" by linarith
  then show thesis using False assms(1) fork by (auto simp: maybe_fork_def Let_def split: if_splits)
qed

text \<open>
  Snapshots are spaced: however often the loop asks, with a clock that does not go back, and
  whether or not earlier forks failed, any two children that are started have timestamps at least the
  interval apart, and so has the first one from the last snapshot before.
\<close>

lemma snapshots_spaced:
  assumes "sorted (map (\<lambda>(now, _). unat now) calls)" and "\<forall>(now, _) \<in> set calls. sm_last_ts sm \<le> now"
  shows "sorted_wrt (\<lambda>a b. unat a + unat iv \<le> unat b) (sm_last_ts sm # snapshot_times iv sm calls)"
  using assms
proof (induction calls arbitrary: sm)
  case (Cons call calls)
  obtain now w f where c: "call = (now, w, f)" by (cases call)
  obtain sm' child where mf: "maybe_fork now w f sm iv = (sm', child)" by fastforce
  have le: "sm_last_ts sm \<le> now" using Cons.prems(2) c by simp
  have later: "\<forall>(t, _) \<in> set calls. now \<le> t"
    using Cons.prems(1) c by (auto simp: word_le_nat_alt)
  from mf le show ?case
  proof (cases rule: maybe_fork_cases)
    case keep
    with Cons.IH [of sm] Cons.prems c mf show ?thesis by auto
  next
    case fork
    have "sorted_wrt (\<lambda>a b. unat a + unat iv \<le> unat b) (now # snapshot_times iv sm' calls)"
      using Cons.IH [of sm'] Cons.prems(1) later fork(1) by simp
    with fork(2,3) c mf show ?thesis by (fastforce split: option.splits)
  qed
qed simp

end
