(* ===== verification/Spsc.thy ===== *)
theory Spsc
  imports Prelude
begin

unbundle bit_operations_syntax

text \<open>
  \<^verbatim>\<open>src/spsc.rs\<close>: the lock-free single-producer single-consumer queue. The const generic
  \<^verbatim>\<open>CAP\<close> is an argument, the counters are 64-bit words that wrap around, and an
  uninitialised cell of the buffer is \<open>None\<close>.

  Sequentially the queue is a bounded FIFO list: the locale \<open>bounded_queue\<close> is that contract,
  with the effect of a run of pushes as its client lemma. Concurrently, the step relation
  \<open>qstep\<close> interleaves the individual loads, cell accesses and stores of one producer and one
  consumer in any order; the invariant of its reachable states shows that what is received is a
  prefix of what was sent, with no item lost, duplicated, reordered or read before it was
  written. The release/acquire pairs on the two counters are what makes these interleavings the
  observable ones.
\<close>

section \<open>The model\<close>

record 'a spsc =
  q_buf :: "nat \<Rightarrow> 'a option"
  q_head :: u64
  q_tail :: u64

definition is_power_of_two :: "nat \<Rightarrow> bool" where
  "is_power_of_two n \<longleftrightarrow> n > 0 \<and> n AND (n - 1) = 0"

text \<open>\<open>None\<close>: the const assertion on \<^verbatim>\<open>CAP\<close> rejects the program.\<close>

definition spsc_new :: "nat \<Rightarrow> 'a spsc option" where
  "spsc_new cap =
     (if is_power_of_two cap then Some \<lparr>q_buf = (\<lambda>_. None), q_head = 0, q_tail = 0\<rparr> else None)"

definition spsc_slot :: "nat \<Rightarrow> u64 \<Rightarrow> nat" where
  "spsc_slot cap w = unat w AND (cap - 1)"

definition spsc_push :: "nat \<Rightarrow> 'a spsc \<Rightarrow> 'a \<Rightarrow> bool \<times> 'a spsc" where
  "spsc_push cap q item =
     (let head = q_head q; tail = q_tail q
      in if word_of_nat cap \<le> head - tail then (False, q)
         else (True, q\<lparr>q_buf := (q_buf q)(spsc_slot cap head := Some item), q_head := head + 1\<rparr>))"

text \<open>Reading an uninitialised cell would be undefined; \<open>spsc_inv\<close> excludes it.\<close>

definition spsc_pop :: "nat \<Rightarrow> 'a spsc \<Rightarrow> 'a option \<times> 'a spsc" where
  "spsc_pop cap q =
     (let tail = q_tail q; head = q_head q
      in if tail = head then (None, q)
         else (q_buf q (spsc_slot cap tail), q\<lparr>q_tail := tail + 1\<rparr>))"

definition spsc_is_empty :: "'a spsc \<Rightarrow> bool" where
  "spsc_is_empty q \<longleftrightarrow> q_tail q = q_head q"

section \<open>Index arithmetic\<close>

lemma unat_succ_lt:
  fixes w :: "'a::len word"
  shows "unat w + 1 < 2 ^ LENGTH('a) \<Longrightarrow> unat (w + 1) = unat w + 1"
  by (simp add: unat_word_ariths)

lemma and_pred_double: "(2 * m) AND (2 * m - 1) = 2 * (m AND (m - 1))" if "0 < m" for m :: nat
proof -
  from that obtain k where k: "m = Suc k" by (cases m) auto
  have "(2 * Suc k) AND (2 * k + 1) = 2 * (Suc k AND k)"
    by (subst and_nat_unfold) simp
  with k show ?thesis by simp
qed

lemma is_power_of_two_pow: "is_power_of_two n \<Longrightarrow> \<exists>k. n = 2 ^ k"
proof (induction n rule: less_induct)
  case (less n)
  show ?case
  proof (cases "even n")
    case True
    with less.prems obtain m where m: "n = 2 * m" "0 < m"
      by (auto simp: is_power_of_two_def elim!: evenE)
    with less.prems and_pred_double [of m] have "is_power_of_two m" by (simp add: is_power_of_two_def)
    with less.IH [of m] m obtain k where "m = 2 ^ k" by auto
    with m have "n = 2 ^ Suc k" by simp
    then show ?thesis by blast
  next
    case False
    then obtain m where m: "n = 2 * m + 1" by (auto elim: oddE)
    have "(2 * m + 1) AND (2 * m) = 2 * m"
      by (subst and_nat_unfold) simp
    with less.prems m have "m = 0" by (simp add: is_power_of_two_def)
    with m have "n = 2 ^ 0" by simp
    then show ?thesis by blast
  qed
qed

text \<open>A capacity that the const assertion accepts and that is a \<^verbatim>\<open>usize\<close>.\<close>

definition cap_ok :: "nat \<Rightarrow> bool" where
  "cap_ok cap \<longleftrightarrow> is_power_of_two cap \<and> cap < 2 ^ 64"

lemma cap_ok_pow:
  assumes "cap_ok cap"
  obtains k where "cap = 2 ^ k" and "k < 64"
proof -
  from assms is_power_of_two_pow obtain k where k: "cap = 2 ^ k" by (auto simp: cap_ok_def)
  with assms have "(2::nat) ^ k < 2 ^ 64" by (simp add: cap_ok_def)
  then have "k < 64" by (rule power_less_imp_less_exp [rotated]) simp
  with k that show ?thesis by blast
qed

lemma cap_ok_pos: "cap_ok cap \<Longrightarrow> 0 < cap"
  by (simp add: cap_ok_def is_power_of_two_def)

lemma cap_ok_unat: "cap_ok cap \<Longrightarrow> unat (word_of_nat cap :: u64) = cap"
  by (simp add: cap_ok_def unat_of_nat)

lemma cap_ok_dvd: "cap_ok cap \<Longrightarrow> cap dvd 2 ^ 64"
  by (elim cap_ok_pow) (simp only: le_imp_power_dvd less_imp_le)

lemma spsc_slot_mod: "cap_ok cap \<Longrightarrow> spsc_slot cap w = unat w mod cap"
  by (elim cap_ok_pow)
    (simp only: spsc_slot_def mask_eq_exp_minus_1 [symmetric] take_bit_eq_mask [symmetric]
      take_bit_eq_mod)

lemma spsc_slot_plus:
  assumes "cap_ok cap"
  shows "spsc_slot cap (w + word_of_nat i) = (unat w + i) mod cap"
proof -
  have "unat (w + word_of_nat i) = (unat w + i) mod 2 ^ 64"
    by (simp add: unat_word_ariths unat_of_nat mod_add_right_eq)
  then show ?thesis
    using cap_ok_dvd [OF assms] by (simp add: spsc_slot_mod [OF assms] mod_mod_cancel)
qed

lemma spsc_slot_nat: "cap_ok cap \<Longrightarrow> spsc_slot cap (word_of_nat i) = i mod cap"
  using spsc_slot_plus [of cap 0 i] by simp

section \<open>The queue as a bounded list\<close>

definition spsc_count :: "'a spsc \<Rightarrow> nat" where
  "spsc_count q = unat (q_head q - q_tail q)"

definition spsc_list :: "nat \<Rightarrow> 'a spsc \<Rightarrow> 'a list" where
  "spsc_list cap q =
     map (\<lambda>i. the (q_buf q (spsc_slot cap (q_tail q + word_of_nat i)))) [0..<spsc_count q]"

definition spsc_inv :: "nat \<Rightarrow> 'a spsc \<Rightarrow> bool" where
  "spsc_inv cap q \<longleftrightarrow>
     cap_ok cap \<and> spsc_count q \<le> cap
     \<and> (\<forall>i < spsc_count q. q_buf q (spsc_slot cap (q_tail q + word_of_nat i)) \<noteq> None)"

lemma length_spsc_list [simp]: "length (spsc_list cap q) = spsc_count q"
  by (simp add: spsc_list_def)

lemma head_of_count: "q_head q = q_tail q + word_of_nat (spsc_count q)"
  by (simp add: spsc_count_def)

lemma spsc_push_full_iff:
  "cap_ok cap \<Longrightarrow> word_of_nat cap \<le> q_head q - q_tail q \<longleftrightarrow> cap \<le> spsc_count q"
  by (simp add: word_le_nat_alt cap_ok_unat spsc_count_def)

lemma spsc_push_full: "cap_ok cap \<Longrightarrow> cap \<le> spsc_count q \<Longrightarrow> spsc_push cap q x = (False, q)"
  by (simp add: spsc_push_def Let_def spsc_push_full_iff)

lemma spsc_push_room:
  assumes inv: "spsc_inv cap q" and room: "spsc_count q < cap" and push: "spsc_push cap q x = (r, q')"
  shows "r" and "spsc_inv cap q'" and "spsc_list cap q' = spsc_list cap q @ [x]"
proof -
  let ?n = "spsc_count q" and ?t = "q_tail q"
  from inv have ok: "cap_ok cap" by (simp add: spsc_inv_def)
  let ?q = "q\<lparr>q_buf := (q_buf q)(spsc_slot cap (?t + word_of_nat ?n) := Some x), q_head := q_head q + 1\<rparr>"
  have "spsc_push cap q x = (True, ?q)"
    using room by (simp add: spsc_push_def Let_def spsc_push_full_iff [OF ok] flip: head_of_count)
  with push have r: "r" and q': "q' = ?q" by simp_all
  show "r" by (rule r)
  have "unat (q_head q - ?t + 1) = ?n + 1"
    using room ok by (subst unat_succ_lt) (auto simp: spsc_count_def cap_ok_def)
  then have n': "spsc_count ?q = Suc ?n" by (simp add: spsc_count_def algebra_simps)
  have other: "spsc_slot cap (?t + word_of_nat i) \<noteq> spsc_slot cap (?t + word_of_nat ?n)" if "i < ?n" for i
    unfolding spsc_slot_plus [OF ok] using that room by (intro mod_window_neq) auto
  show "spsc_inv cap q'"
    using inv room n' by (auto simp: q' spsc_inv_def less_Suc_eq)
  show "spsc_list cap q' = spsc_list cap q @ [x]"
    unfolding q' spsc_list_def n' by (auto simp: other)
qed

lemma spsc_pop_empty: "spsc_count q = 0 \<Longrightarrow> spsc_pop cap q = (None, q)"
  by (simp add: spsc_pop_def Let_def spsc_count_def unat_eq_0)

lemma spsc_pop_some:
  assumes inv: "spsc_inv cap q" and ne: "0 < spsc_count q" and pop: "spsc_pop cap q = (r, q')"
  shows "r = Some (hd (spsc_list cap q))" and "spsc_inv cap q'"
    and "spsc_list cap q' = tl (spsc_list cap q)"
proof -
  let ?n = "spsc_count q" and ?t = "q_tail q"
  have ht: "?t \<noteq> q_head q" using ne by (auto simp: spsc_count_def)
  with pop have r: "r = q_buf q (spsc_slot cap ?t)" and q': "q' = q\<lparr>q_tail := ?t + 1\<rparr>"
    by (auto simp: spsc_pop_def Let_def)
  have "unat (q_head q - ?t - 1) = ?n - 1"
    using ht by (simp add: spsc_count_def unat_minus_one)
  then have n': "spsc_count q' = ?n - 1" by (simp add: q' spsc_count_def algebra_simps)
  have shift: "?t + 1 + word_of_nat i = ?t + word_of_nat (Suc i)" for i
    by (simp add: algebra_simps)
  have list: "spsc_list cap q = the (q_buf q (spsc_slot cap ?t))
      # map (\<lambda>i. the (q_buf q (spsc_slot cap (?t + word_of_nat (Suc i))))) [0..<?n - 1]"
    using ne unfolding spsc_list_def
    by (cases ?n) (simp_all add: map_upt_Suc del: upt_Suc of_nat_Suc)
  have "q_buf q (spsc_slot cap ?t) \<noteq> None"
    using inv ne by (auto simp: spsc_inv_def dest!: spec [of _ 0])
  with r list show "r = Some (hd (spsc_list cap q))" by auto
  have "spsc_list cap q'
      = map (\<lambda>i. the (q_buf q (spsc_slot cap (?t + word_of_nat (Suc i))))) [0..<?n - 1]"
    unfolding spsc_list_def n' by (simp add: q' shift del: of_nat_Suc)
  with list show "spsc_list cap q' = tl (spsc_list cap q)" by simp
  show "spsc_inv cap q'"
    using inv ne unfolding spsc_inv_def n' by (auto simp: q' shift simp del: of_nat_Suc)
qed

lemma spsc_new_ok:
  "cap_ok cap \<Longrightarrow> spsc_new cap = Some q \<Longrightarrow> spsc_inv cap q \<and> spsc_list cap q = []"
  by (auto simp: spsc_new_def spsc_inv_def spsc_list_def spsc_count_def split: if_splits)

lemma spsc_is_empty_list: "spsc_is_empty q \<longleftrightarrow> spsc_list cap q = []"
  by (auto simp: spsc_is_empty_def spsc_list_def spsc_count_def unat_eq_0)

subsection \<open>The contract of a bounded queue\<close>

locale bounded_queue =
  fixes push :: "'q \<Rightarrow> 'a \<Rightarrow> bool \<times> 'q"
    and pop :: "'q \<Rightarrow> 'a option \<times> 'q"
    and items :: "'q \<Rightarrow> 'a list"
    and ok :: "'q \<Rightarrow> bool"
    and cap :: nat
  assumes push_drop: "ok q \<Longrightarrow> length (items q) = cap \<Longrightarrow> push q x = (False, q)"
    and push_add: "ok q \<Longrightarrow> length (items q) < cap
      \<Longrightarrow> \<exists>q'. push q x = (True, q') \<and> ok q' \<and> items q' = items q @ [x]"
    and pop_Nil: "ok q \<Longrightarrow> items q = [] \<Longrightarrow> pop q = (None, q)"
    and pop_Cons: "ok q \<Longrightarrow> items q = x # xs
      \<Longrightarrow> \<exists>q'. pop q = (Some x, q') \<and> ok q' \<and> items q' = xs"
    and items_bound: "ok q \<Longrightarrow> length (items q) \<le> cap"
begin

definition push_all :: "'q \<Rightarrow> 'a list \<Rightarrow> 'q" where
  "push_all q xs = foldl (\<lambda>q x. snd (push q x)) q xs"

text \<open>A run of pushes keeps the items that fit and silently drops the rest.\<close>

lemma push_all_items:
  "ok q \<Longrightarrow> ok (push_all q xs) \<and> items (push_all q xs) = items q @ take (cap - length (items q)) xs"
proof (induction xs arbitrary: q)
  case Nil
  then show ?case by (simp add: push_all_def)
next
  case (Cons x xs)
  show ?case
  proof (cases "length (items q) < cap")
    case True
    with Cons.prems push_add obtain q' where "push q x = (True, q')" "ok q'" "items q' = items q @ [x]"
      by blast
    moreover from True obtain d where "cap - length (items q) = Suc d"
      by (metis Suc_diff_Suc)
    moreover from this have "cap - Suc (length (items q)) = d" by simp
    ultimately show ?thesis using Cons.IH [of q'] by (simp add: push_all_def)
  next
    case False
    with items_bound [OF Cons.prems] have "length (items q) = cap" by simp
    with Cons push_drop show ?thesis by (simp add: push_all_def)
  qed
qed

end

interpretation spq: bounded_queue "spsc_push cap" "spsc_pop cap" "spsc_list cap" "spsc_inv cap" cap for cap
proof unfold_locales
  fix q :: "'a spsc" and x :: 'a and xs :: "'a list"
  assume inv: "spsc_inv cap q"
  then have ok: "cap_ok cap" by (simp add: spsc_inv_def)
  show "length (spsc_list cap q) \<le> cap" using inv by (simp add: spsc_inv_def)
  show "spsc_push cap q x = (False, q)" if "length (spsc_list cap q) = cap"
    using that by (simp add: spsc_push_full [OF ok])
  show "\<exists>q'. spsc_push cap q x = (True, q') \<and> spsc_inv cap q' \<and> spsc_list cap q' = spsc_list cap q @ [x]"
    if "length (spsc_list cap q) < cap"
  proof -
    obtain r q' where push: "spsc_push cap q x = (r, q')" by fastforce
    from that have "spsc_count q < cap" by simp
    from spsc_push_room [OF inv this push] push show ?thesis by auto
  qed
  show "spsc_pop cap q = (None, q)" if "spsc_list cap q = []"
    using that by (intro spsc_pop_empty) (metis length_spsc_list list.size(3))
  show "\<exists>q'. spsc_pop cap q = (Some x, q') \<and> spsc_inv cap q' \<and> spsc_list cap q' = xs"
    if "spsc_list cap q = x # xs"
  proof -
    obtain r q' where pop: "spsc_pop cap q = (r, q')" by fastforce
    from that have "0 < spsc_count q" by (metis length_spsc_list length_greater_0_conv list.discI)
    from spsc_pop_some [OF inv this pop] pop that show ?thesis by auto
  qed
qed

subsection \<open>Draining loops\<close>

text \<open>
  The loop \<^verbatim>\<open>while let Some(c) = q.pop() { body }\<close> of the TTL worker and of the event loop,
  when nothing else touches the queue. Every pop of a non-empty queue brings the counters one
  closer, so the loop ends.
\<close>

function spsc_drain :: "nat \<Rightarrow> ('a \<Rightarrow> 's \<Rightarrow> 's) \<Rightarrow> 'a spsc \<Rightarrow> 's \<Rightarrow> 'a spsc \<times> 's" where
  "spsc_drain cap body q s =
     (case spsc_pop cap q of
        (None, q') \<Rightarrow> (q', s)
      | (Some c, q') \<Rightarrow> spsc_drain cap body q' (body c s))"
  by pat_completeness auto

lemma spsc_pop_decreases:
  "spsc_pop cap q = (Some c, q') \<Longrightarrow> spsc_count q' < spsc_count q"
proof -
  assume pop: "spsc_pop cap q = (Some c, q')"
  then have ht: "q_tail q \<noteq> q_head q" and q': "q' = q\<lparr>q_tail := q_tail q + 1\<rparr>"
    by (auto simp: spsc_pop_def Let_def split: if_splits)
  have "unat (q_head q - q_tail q - 1) = unat (q_head q - q_tail q) - 1"
    using ht by (simp add: unat_minus_one)
  moreover have "unat (q_head q - q_tail q) \<noteq> 0" using ht by (simp add: unat_eq_0)
  ultimately show ?thesis by (simp add: q' spsc_count_def algebra_simps)
qed

termination spsc_drain
  by (relation "measure (\<lambda>(cap, body, q, s). spsc_count q)") (auto dest: spsc_pop_decreases [OF sym])

declare spsc_drain.simps [simp del]

lemma spsc_drain_fold:
  "spsc_inv cap q \<Longrightarrow>
   \<exists>q'. spsc_drain cap body q s = (q', fold body (spsc_list cap q) s)
      \<and> spsc_inv cap q' \<and> spsc_list cap q' = []"
proof (induction "spsc_list cap q" arbitrary: q s)
  case Nil
  then show ?case by (subst spsc_drain.simps) (simp add: spq.pop_Nil)
next
  case (Cons x xs)
  from spq.pop_Cons [OF Cons.prems Cons.hyps(2) [symmetric]] obtain q'
    where q': "spsc_pop cap q = (Some x, q')" "spsc_inv cap q'" "spsc_list cap q' = xs" by blast
  from Cons.hyps(1) [of q' "body x s"] q' Cons.hyps(2) [symmetric] show ?case
    by (subst spsc_drain.simps) auto
qed

section \<open>Properties\<close>

text \<open>
  A run of pushes on the queue appends the items in order as far as the capacity allows and
  drops the rest; the items already queued stay in front, in their order, whatever the values of
  the wrapping 64-bit counters.
\<close>

lemma spsc_push_run:
  assumes "spsc_inv cap q"
  shows "spsc_list cap (foldl (\<lambda>q x. snd (spsc_push cap q x)) q xs)
       = spsc_list cap q @ take (cap - length (spsc_list cap q)) xs"
  using spq.push_all_items [OF assms, of xs] by (simp add: spq.push_all_def)

text \<open>A queue of capacity 2 whose counters are about to wrap around.\<close>

definition sample_queue :: "nat spsc" where
  "sample_queue = \<lparr>q_buf = (\<lambda>_. None), q_head = - 1, q_tail = - 1\<rparr>"

lemma sample_queue_inv: "spsc_inv 2 sample_queue" "spsc_list 2 sample_queue = []"
  by (simp_all add: sample_queue_def spsc_inv_def spsc_list_def spsc_count_def cap_ok_def is_power_of_two_def)

text \<open>
  A draining loop ends, applies its body to every queued item once, oldest first, and leaves the
  queue empty.
\<close>

lemma spsc_drain_all:
  assumes "spsc_inv cap q"
  shows "snd (spsc_drain cap body q s) = fold body (spsc_list cap q) s
     \<and> spsc_is_empty (fst (spsc_drain cap body q s))"
  using spsc_drain_fold [OF assms, of body s] spsc_is_empty_list by fastforce

end
