(* ===== verification/Ttl.thy ===== *)
theory Ttl
  imports Spsc Constants
begin

text \<open>
  \<^verbatim>\<open>src/ttl.rs\<close>: the TTL worker. It moves candidates from one queue to another when their last
  write is older than the time to live; it never sees the store. \<open>now k\<close> is the \<open>k\<close>-th reading
  of the clock in a batch.
\<close>

section \<open>The model\<close>

record candidate =
  cd_uid :: u32
  cd_last_write_ts :: u64

text \<open>The body of the loop in \<open>drain_batch\<close>; a full output queue drops the candidate.\<close>

definition ttl_check :: "u64 \<Rightarrow> u64 \<Rightarrow> candidate \<Rightarrow> candidate spsc \<Rightarrow> candidate spsc" where
  "ttl_check now ttl_ns c expired_out =
     (if ttl_ns < saturating_sub now (cd_last_write_ts c)
      then snd (spsc_push EXPIRED_KEYS_CAP expired_out c)
      else expired_out)"

definition drain_batch ::
  "(nat \<Rightarrow> u64) \<Rightarrow> candidate spsc \<Rightarrow> candidate spsc \<Rightarrow> u64 \<Rightarrow> candidate spsc \<times> candidate spsc" where
  "drain_batch now candidates_in expired_out ttl_ns =
     (case spsc_drain CANDIDATES_IN_CAP (\<lambda>c (k, out). (Suc k, ttl_check (now k) ttl_ns c out))
             candidates_in (0, expired_out) of
        (cin', (k, out')) \<Rightarrow> (cin', out'))"

text \<open>
  \<open>eviction_loop\<close>: one batch for every round in which the flag was still set (the clock of each
  round is a list element), and the final batch.
\<close>

primrec eviction_loop ::
  "(nat \<Rightarrow> u64) list \<Rightarrow> (nat \<Rightarrow> u64) \<Rightarrow> candidate spsc \<Rightarrow> candidate spsc \<Rightarrow> u64
    \<Rightarrow> candidate spsc \<times> candidate spsc" where
  "eviction_loop [] final cin out ttl_ns = drain_batch final cin out ttl_ns"
| "eviction_loop (now # rounds) final cin out ttl_ns =
     (case drain_batch now cin out ttl_ns of
        (cin', out') \<Rightarrow> eviction_loop rounds final cin' out' ttl_ns)"

record ttl_worker =
  tw_running :: bool
  tw_thread :: bool

definition ttl_worker_new :: ttl_worker where
  "ttl_worker_new = \<lparr>tw_running = True, tw_thread = True\<rparr>"

text \<open>\<open>stop\<close> joins the thread, which ends with its remaining rounds and the final batch.\<close>

definition ttl_stop ::
  "(nat \<Rightarrow> u64) list \<Rightarrow> (nat \<Rightarrow> u64) \<Rightarrow> u64 \<Rightarrow> ttl_worker \<times> candidate spsc \<times> candidate spsc
    \<Rightarrow> ttl_worker \<times> candidate spsc \<times> candidate spsc" where
  "ttl_stop rounds final ttl_ns st =
     (case st of (w, cin, out) \<Rightarrow>
        let w1 = w\<lparr>tw_running := False\<rparr>
        in if tw_thread w1
           then (w1\<lparr>tw_thread := False\<rparr>, eviction_loop rounds final cin out ttl_ns)
           else (w1, cin, out))"

definition ttl_drop ::
  "(nat \<Rightarrow> u64) list \<Rightarrow> (nat \<Rightarrow> u64) \<Rightarrow> u64 \<Rightarrow> ttl_worker \<times> candidate spsc \<times> candidate spsc
    \<Rightarrow> ttl_worker \<times> candidate spsc \<times> candidate spsc" where
  "ttl_drop rounds final ttl_ns st = (if tw_thread (fst st) then ttl_stop rounds final ttl_ns st else st)"

lemma ttl_drop_after_stop:
  "ttl_drop rounds' final' ttl_ns (ttl_stop rounds final ttl_ns st) = ttl_stop rounds final ttl_ns st"
  by (auto simp: ttl_drop_def ttl_stop_def Let_def split: prod.split)

section \<open>What reaches the output queue\<close>

lemma candidates_cap_ok: "cap_ok CANDIDATES_IN_CAP"
  and expired_cap_ok: "cap_ok EXPIRED_KEYS_CAP"
  by (simp_all add: cap_ok_def is_power_of_two_def const_defs)

definition ttl_expired :: "u64 \<Rightarrow> u64 \<Rightarrow> candidate \<Rightarrow> bool" where
  "ttl_expired now ttl_ns c \<longleftrightarrow> unat (cd_last_write_ts c) + unat ttl_ns < unat now"

lemma ttl_check_items:
  assumes "spsc_inv EXPIRED_KEYS_CAP out"
  shows "spsc_inv EXPIRED_KEYS_CAP (ttl_check now ttl c out)"
    and "spsc_list EXPIRED_KEYS_CAP (ttl_check now ttl c out)
       = spsc_list EXPIRED_KEYS_CAP out
         @ (if ttl_expired now ttl c \<and> length (spsc_list EXPIRED_KEYS_CAP out) < EXPIRED_KEYS_CAP
            then [c] else [])"
proof -
  let ?e = "ttl_expired now ttl c"
  have g: "ttl < saturating_sub now (cd_last_write_ts c) \<longleftrightarrow> ?e"
    by (auto simp: ttl_expired_def saturating_sub_gt add.commute)
  have "spsc_inv EXPIRED_KEYS_CAP (ttl_check now ttl c out)
      \<and> spsc_list EXPIRED_KEYS_CAP (ttl_check now ttl c out)
       = spsc_list EXPIRED_KEYS_CAP out
         @ (if ?e \<and> length (spsc_list EXPIRED_KEYS_CAP out) < EXPIRED_KEYS_CAP then [c] else [])"
  proof (cases "length (spsc_list EXPIRED_KEYS_CAP out) < EXPIRED_KEYS_CAP")
    case True
    with spq.push_add [OF assms, of c] assms show ?thesis by (auto simp: ttl_check_def g)
  next
    case False
    with spq.items_bound [OF assms] have "length (spsc_list EXPIRED_KEYS_CAP out) = EXPIRED_KEYS_CAP" by simp
    with spq.push_drop [OF assms, of c] assms show ?thesis by (auto simp: ttl_check_def g)
  qed
  then show "spsc_inv EXPIRED_KEYS_CAP (ttl_check now ttl c out)"
    "spsc_list EXPIRED_KEYS_CAP (ttl_check now ttl c out)
       = spsc_list EXPIRED_KEYS_CAP out
         @ (if ?e \<and> length (spsc_list EXPIRED_KEYS_CAP out) < EXPIRED_KEYS_CAP then [c] else [])"
    by auto
qed

text \<open>The expired members of a batch, with the reading of the clock at each.\<close>

definition expired_in_batch :: "(nat \<Rightarrow> u64) \<Rightarrow> u64 \<Rightarrow> candidate list \<Rightarrow> candidate list" where
  "expired_in_batch now ttl cs = map fst (filter (\<lambda>(c, k). ttl_expired (now k) ttl c) (zip cs [0..<length cs]))"

lemma fold_ttl_check:
  assumes "spsc_inv EXPIRED_KEYS_CAP out"
  shows "\<exists>out'. fold (\<lambda>c (k, out). (Suc k, ttl_check (now k) ttl c out)) cs (j, out) = (j + length cs, out')
     \<and> spsc_inv EXPIRED_KEYS_CAP out'
     \<and> spsc_list EXPIRED_KEYS_CAP out' = spsc_list EXPIRED_KEYS_CAP out
         @ take (EXPIRED_KEYS_CAP - length (spsc_list EXPIRED_KEYS_CAP out))
             (map fst (filter (\<lambda>(c, k). ttl_expired (now k) ttl c) (zip cs [j..<j + length cs])))"
  using assms
proof (induction cs arbitrary: j out)
  case Nil
  then show ?case by simp
next
  case (Cons c cs)
  note ci = ttl_check_items [OF Cons.prems, of "now j" ttl c]
  let ?n = "length (spsc_list EXPIRED_KEYS_CAP out)"
  have step: "take (EXPIRED_KEYS_CAP - ?n) (c # ys) = c # take (EXPIRED_KEYS_CAP - Suc ?n) ys"
    if "?n < EXPIRED_KEYS_CAP" for ys
    using that by (metis Suc_diff_Suc take_Suc_Cons)
  have "[j..<j + length (c # cs)] = j # [Suc j..<Suc j + length cs]"
    by (simp add: upt_rec)
  then show ?case
    using Cons.IH [OF ci(1), of "Suc j"] ci(2) step by (auto simp del: length_spsc_list)
qed

text \<open>A batch empties its input and forwards the expired candidates in order, as far as they fit.\<close>

lemma drain_batch_items:
  assumes "spsc_inv CANDIDATES_IN_CAP cin" and "spsc_inv EXPIRED_KEYS_CAP out"
  shows "\<exists>cin' out'. drain_batch now cin out ttl = (cin', out')
     \<and> spsc_inv CANDIDATES_IN_CAP cin' \<and> spsc_list CANDIDATES_IN_CAP cin' = []
     \<and> spsc_inv EXPIRED_KEYS_CAP out'
     \<and> spsc_list EXPIRED_KEYS_CAP out' = spsc_list EXPIRED_KEYS_CAP out
         @ take (EXPIRED_KEYS_CAP - length (spsc_list EXPIRED_KEYS_CAP out))
             (expired_in_batch now ttl (spsc_list CANDIDATES_IN_CAP cin))"
proof -
  let ?body = "\<lambda>c (k, out). (Suc k, ttl_check (now k) ttl c out)"
  from spsc_drain_fold [OF assms(1), of ?body "(0, out)"] obtain cin' where
    d: "spsc_drain CANDIDATES_IN_CAP ?body cin (0, out)
          = (cin', fold ?body (spsc_list CANDIDATES_IN_CAP cin) (0, out))"
    "spsc_inv CANDIDATES_IN_CAP cin'" "spsc_list CANDIDATES_IN_CAP cin' = []" by blast
  from fold_ttl_check [OF assms(2), of now ttl "spsc_list CANDIDATES_IN_CAP cin" 0] d show ?thesis
    by (auto simp: drain_batch_def expired_in_batch_def)
qed

section \<open>Properties\<close>

text \<open>
  C29: a batch of the TTL worker takes every waiting candidate and forwards exactly those whose last
  write is more than the time to live before the reading of the clock at their turn, in order, as
  long as the output queue has room; a clock behind the last write never expires a candidate.
\<close>

theorem worker_forwards_expired:
  assumes "spsc_inv CANDIDATES_IN_CAP cin" and "spsc_inv EXPIRED_KEYS_CAP out"
  shows "\<exists>cin' out'. drain_batch now cin out ttl = (cin', out')
     \<and> spsc_list CANDIDATES_IN_CAP cin' = []
     \<and> spsc_list EXPIRED_KEYS_CAP out' = spsc_list EXPIRED_KEYS_CAP out
         @ take (EXPIRED_KEYS_CAP - length (spsc_list EXPIRED_KEYS_CAP out))
             (map fst (filter (\<lambda>(c, k). unat (cd_last_write_ts c) + unat ttl < unat (now k))
                (zip (spsc_list CANDIDATES_IN_CAP cin) [0..<length (spsc_list CANDIDATES_IN_CAP cin)])))"
  using drain_batch_items [OF assms, of now ttl]
  by (auto simp: expired_in_batch_def ttl_expired_def simp del: length_spsc_list)

definition sample_candidates :: "candidate spsc" where
  "sample_candidates = snd (spsc_push CANDIDATES_IN_CAP (snd (spsc_push CANDIDATES_IN_CAP
     (the (spsc_new CANDIDATES_IN_CAP)) \<lparr>cd_uid = 1, cd_last_write_ts = 5\<rparr>)) \<lparr>cd_uid = 2, cd_last_write_ts = 90\<rparr>)"

lemma new_queue_ok:
  "cap_ok cap \<Longrightarrow> spsc_inv cap (the (spsc_new cap) :: 'a spsc) \<and> spsc_list cap (the (spsc_new cap) :: 'a spsc) = []"
  by (rule spsc_new_ok) (simp_all add: spsc_new_def cap_ok_def)

theorem worker_forwards_expired_witness:
  "spsc_list EXPIRED_KEYS_CAP (snd (drain_batch (\<lambda>k. 100) sample_candidates (the (spsc_new EXPIRED_KEYS_CAP)) 50))
     = [\<lparr>cd_uid = 1, cd_last_write_ts = 5\<rparr>]"
proof -
  let ?xs = "[\<lparr>cd_uid = 1, cd_last_write_ts = 5\<rparr>, \<lparr>cd_uid = 2, cd_last_write_ts = 90\<rparr>]"
  have c: "spsc_inv CANDIDATES_IN_CAP sample_candidates \<and> spsc_list CANDIDATES_IN_CAP sample_candidates = ?xs"
  proof -
    let ?q = "the (spsc_new CANDIDATES_IN_CAP) :: candidate spsc"
    have q: "spsc_inv CANDIDATES_IN_CAP ?q" "spsc_list CANDIDATES_IN_CAP ?q = []"
      using new_queue_ok [OF candidates_cap_ok] by auto
    have "sample_candidates = spq.push_all CANDIDATES_IN_CAP ?q ?xs"
      by (simp add: sample_candidates_def spq.push_all_def)
    then show ?thesis
      using spq.push_all_items [OF q(1), of ?xs] unfolding q(2) by (simp add: CANDIDATES_IN_CAP_def)
  qed
  have q: "spsc_inv EXPIRED_KEYS_CAP (the (spsc_new EXPIRED_KEYS_CAP) :: candidate spsc)"
    "spsc_list EXPIRED_KEYS_CAP (the (spsc_new EXPIRED_KEYS_CAP) :: candidate spsc) = []"
    using new_queue_ok [OF expired_cap_ok] by auto
  have "EXPIRED_KEYS_CAP = Suc 4095" by (simp add: EXPIRED_KEYS_CAP_def)
  then show ?thesis
    using worker_forwards_expired [OF conjunct1 [OF c] q(1), of "\<lambda>k. 100" 50]
    unfolding q(2) conjunct2 [OF c] by (auto simp: upt_rec)
qed

end
