(* ===== verification/Event_Loop.thy ===== *)
theory Event_Loop
  imports Conn_Io Commands Snapshot Ttl
begin

text \<open>
  \<^verbatim>\<open>EventLoop\<close> of \<^verbatim>\<open>src/event_loop.rs\<close>. The kernel side of a connection (its socket, its epoll
  interest, whether its descriptor was closed) is part of the state; clock readings, the answers
  of \<^verbatim>\<open>fork\<close>, \<^verbatim>\<open>waitpid\<close>, \<^verbatim>\<open>accept4\<close> and \<^verbatim>\<open>epoll_wait\<close>, and the iteration order of the
  hash map are arguments. \<open>n\<close> is \<^verbatim>\<open>COMPILED_N\<close>.

  A command that spins on a full log ring goes on after a pass of the flush thread, which is the
  only thing that can let it go on (\<open>with_flush_thread\<close>).
\<close>

section \<open>The model\<close>

datatype interest = EpollIn | EpollOut

record kernel =
  k_socks :: "int \<Rightarrow> socket"
  k_epoll :: "int \<rightharpoonup> interest"
  k_closed :: "int list"

record event_loop =
  el_config :: config
  el_store :: store
  el_aof :: aof_writer
  el_snapshot :: snapshot_manager
  el_connections :: "int \<rightharpoonup> connection"
  el_epoll_fd :: int
  el_listen_fd :: int
  el_ttl_worker :: "ttl_worker option"
  el_candidates_in :: "candidate spsc"
  el_expired_out :: "candidate spsc"
  el_last_ttl_collect :: u64
  el_shutdown_flag :: bool
  el_ttl_ns :: u64
  el_kernel :: kernel

definition epoll_mod :: "event_loop \<Rightarrow> int \<Rightarrow> interest option \<Rightarrow> event_loop" where
  "epoll_mod el fd i =
     el\<lparr>el_kernel := (el_kernel el)\<lparr>k_epoll := (k_epoll (el_kernel el))(fd := i)\<rparr>\<rparr>"

definition close_fd :: "event_loop \<Rightarrow> int \<Rightarrow> event_loop" where
  "close_fd el fd = el\<lparr>el_kernel := (el_kernel el)\<lparr>k_closed := k_closed (el_kernel el) @ [fd]\<rparr>\<rparr>"

definition set_sock :: "event_loop \<Rightarrow> int \<Rightarrow> socket \<Rightarrow> event_loop" where
  "set_sock el fd sk =
     el\<lparr>el_kernel := (el_kernel el)\<lparr>k_socks := (k_socks (el_kernel el))(fd := sk)\<rparr>\<rparr>"

definition set_conn :: "event_loop \<Rightarrow> int \<Rightarrow> connection option \<Rightarrow> event_loop" where
  "set_conn el fd oc = el\<lparr>el_connections := (el_connections el)(fd := oc)\<rparr>"

text \<open>
  \<open>EventLoop::new\<close>: \<open>epoll_fd\<close> is the answer of \<^verbatim>\<open>epoll_create1\<close>. The product that gives the
  time to live wraps at 64 bits. The queue constructors cannot fail: their capacities are powers
  of two.
\<close>

definition event_loop_new ::
  "int \<Rightarrow> kernel \<Rightarrow> config \<Rightarrow> store \<Rightarrow> aof_writer \<Rightarrow> int \<Rightarrow> bool \<Rightarrow> panic + event_loop" where
  "event_loop_new epoll_fd k cfg s aof listen_fd flag =
     (if epoll_fd < 0 then Inl (Panic ''epoll_create1 failed'')
      else Inr \<lparr>el_config = cfg, el_store = s, el_aof = aof,
                el_snapshot = snapshot_manager_new (snapshot_path cfg),
                el_connections = Map.empty, el_epoll_fd = epoll_fd, el_listen_fd = listen_fd,
                el_ttl_worker = Some ttl_worker_new,
                el_candidates_in = the (spsc_new CANDIDATES_IN_CAP),
                el_expired_out = the (spsc_new EXPIRED_KEYS_CAP),
                el_last_ttl_collect = 0, el_shutdown_flag = flag,
                el_ttl_ns = ttl_seconds cfg * 1000000000,
                el_kernel = k\<lparr>k_epoll := (k_epoll k)(listen_fd \<mapsto> EpollIn)\<rparr>\<rparr>)"

subsection \<open>Eviction and sampling\<close>

text \<open>The body of the loop in \<open>drain_expired_keys\<close>, with the false-eviction guard.\<close>

definition evict_candidate :: "candidate \<Rightarrow> store \<Rightarrow> store" where
  "evict_candidate c s =
     (case store_get s (cd_uid c) of
        None \<Rightarrow> s
      | Some b \<Rightarrow> if rb_last_write_ts b = cd_last_write_ts c then store_erase s (cd_uid c) else s)"

definition drain_expired_keys :: "event_loop \<Rightarrow> event_loop" where
  "drain_expired_keys el =
     (case spsc_drain EXPIRED_KEYS_CAP evict_candidate (el_expired_out el) (el_store el) of
        (q, s) \<Rightarrow> el\<lparr>el_expired_out := q, el_store := s\<rparr>)"

definition collect_ttl_candidates :: "u64 \<Rightarrow> u32 list \<Rightarrow> event_loop \<Rightarrow> event_loop" where
  "collect_ttl_candidates now order el =
     (if now - el_last_ttl_collect el < TTL_COLLECT_INTERVAL_S * 1000000000 then el
      else let q = store_for_each order (el_store el)
                     (\<lambda>uid b q. snd (spsc_push CANDIDATES_IN_CAP q
                                   \<lparr>cd_uid = uid, cd_last_write_ts = rb_last_write_ts b\<rparr>))
                     (el_candidates_in el)
           in el\<lparr>el_last_ttl_collect := now, el_candidates_in := q\<rparr>)"

subsection \<open>Connections\<close>

text \<open>
  One round of the accept loop for each descriptor that \<^verbatim>\<open>accept4\<close> returns; the round in which
  it fails ends the loop. Each new descriptor comes with its socket and the contents of the
  uninitialised write buffer.
\<close>

fun accept_connections :: "nat \<Rightarrow> (int \<times> socket \<times> (nat \<Rightarrow> u8)) list \<Rightarrow> event_loop \<Rightarrow> event_loop" where
  "accept_connections n [] el = el"
| "accept_connections n ((fd, sk, uninit) # rest) el =
     (if fd < 0 then el
      else accept_connections n rest
             (set_conn (epoll_mod (set_sock el fd sk) fd (Some EpollIn)) fd
                (Some (connection_new n uninit fd))))"

definition handle_close :: "event_loop \<Rightarrow> int \<Rightarrow> event_loop" where
  "handle_close el fd = close_fd (epoll_mod (set_conn el fd None) fd None) fd"

definition with_flush_thread :: "(aof_writer \<Rightarrow> 'a outcome) \<Rightarrow> aof_writer \<Rightarrow> 'a outcome" where
  "with_flush_thread cmd w = (case cmd w of Blocked \<Rightarrow> cmd (flush_once w) | r \<Rightarrow> r)"

text \<open>The common end of \<open>process_command\<close> after a command has run on the removed connection.\<close>

definition finish_command :: "int \<Rightarrow> event_loop \<Rightarrow> connection \<times> store \<times> aof_writer \<Rightarrow> event_loop" where
  "finish_command fd el r =
     (case r of (c, s, w) \<Rightarrow>
        let el1 = el\<lparr>el_store := s, el_aof := w\<rparr>;
            el2 = (if cn_state c = WriteResponse then epoll_mod el1 fd (Some EpollOut) else el1)
        in set_conn el2 fd (Some (c\<lparr>cn_rbuf_pos := 0\<rparr>)))"

fun map_outcome :: "('a \<Rightarrow> 'b) \<Rightarrow> 'a outcome \<Rightarrow> 'b outcome" where
  "map_outcome f (Done a) = Done (f a)"
| "map_outcome f Blocked = Blocked"
| "map_outcome f (Crashed p w) = Crashed p w"

definition process_command :: "nat \<Rightarrow> u64 \<Rightarrow> event_loop \<Rightarrow> int \<Rightarrow> event_loop outcome" where
  "process_command n now el fd =
     (case el_connections el fd of
        None \<Rightarrow> Done el
      | Some c \<Rightarrow>
          let el1 = set_conn el fd None;
              s = el_store el1;
              opcode = header_opcode c
          in if opcode = OPCODE_PUSH
             then map_outcome (finish_command fd el1) (with_flush_thread (push_command now c s) (el_aof el1))
             else if opcode = OPCODE_GET
             then (case validate_get_count n c of
                     Inl e \<Rightarrow> Done (close_fd (epoll_mod el1 fd None) fd)
                   | Inr k \<Rightarrow>
                       (case get_command c s of
                          None \<Rightarrow> Crashed (Panic ''range out of bounds'') (el_aof el1)
                        | Some c' \<Rightarrow> Done (finish_command fd el1 (c', s, el_aof el1))))
             else if opcode = OPCODE_DEL
             then map_outcome (finish_command fd el1) (with_flush_thread (del_command now c s) (el_aof el1))
             else Done (close_fd (epoll_mod el1 fd None) fd))"

definition handle_read :: "nat \<Rightarrow> u64 \<Rightarrow> event_loop \<Rightarrow> int \<Rightarrow> event_loop outcome" where
  "handle_read n now el fd =
     (case el_connections el fd of
        None \<Rightarrow> Done el
      | Some c \<Rightarrow>
          (case read_loop c (k_socks (el_kernel el) fd) of
             ReadClose sk \<Rightarrow> Done (handle_close (set_sock el fd sk) fd)
           | ReadReturn c' sk \<Rightarrow> Done (set_conn (set_sock el fd sk) fd (Some c'))
           | ReadBreak c' sk \<Rightarrow>
               let el1 = set_conn (set_sock el fd sk) fd (Some c')
               in if cn_state c' = Process then process_command n now el1 fd else Done el1))"

definition handle_write :: "event_loop \<Rightarrow> int \<Rightarrow> event_loop outcome" where
  "handle_write el fd =
     (case el_connections el fd of
        None \<Rightarrow> Done el
      | Some c \<Rightarrow>
          (case write_loop c (k_socks (el_kernel el) fd) of
             WriteClose sk \<Rightarrow> Done (handle_close (set_sock el fd sk) fd)
           | WriteReturn c' sk \<Rightarrow> Done (set_conn (set_sock el fd sk) fd (Some c'))
           | WriteBreak c' sk \<Rightarrow> Done (set_conn (set_sock el fd sk) fd (Some c'))
           | WriteComplete c' sk \<Rightarrow>
               Done (epoll_mod (set_conn (set_sock el fd sk) fd (Some c')) fd (Some EpollIn))
           | WritePanic p \<Rightarrow> Crashed p (el_aof el)))"

subsection \<open>The loop\<close>

record ready_event =
  re_fd :: int
  re_in :: bool
  re_out :: bool
  re_accepts :: "(int \<times> socket \<times> (nat \<Rightarrow> u8)) list"
  re_now :: u64

definition dispatch_event :: "nat \<Rightarrow> event_loop \<Rightarrow> ready_event \<Rightarrow> event_loop outcome" where
  "dispatch_event n el e =
     (if re_fd e = el_listen_fd el then Done (accept_connections n (re_accepts e) el)
      else if re_in e then handle_read n (re_now e) el (re_fd e)
      else if re_out e then handle_write el (re_fd e)
      else Done el)"

fun dispatch_all :: "nat \<Rightarrow> event_loop \<Rightarrow> ready_event list \<Rightarrow> event_loop outcome" where
  "dispatch_all n el [] = Done el"
| "dispatch_all n el (e # es) =
     (case dispatch_event n el e of
        Done el' \<Rightarrow> dispatch_all n el' es
      | Blocked \<Rightarrow> Blocked
      | Crashed p w \<Rightarrow> Crashed p w)"

record tick_env =
  te_collect_now :: u64
  te_order :: "u32 list"
  te_snapshot_now :: u64
  te_wait_ret :: int
  te_fork_ret :: int
  te_events :: "ready_event list"

text \<open>
  One round of \<open>run\<close>: eviction, sampling, snapshot, then the ready events (at most
  \<open>MAX_EPOLL_EVENTS\<close> of them, none when \<^verbatim>\<open>epoll_wait\<close> fails). The second result is the
  timestamp of a snapshot child started in this round, with the store it dumps.
\<close>

definition loop_tick :: "nat \<Rightarrow> tick_env \<Rightarrow> event_loop \<Rightarrow> event_loop outcome \<times> (u64 \<times> store) option" where
  "loop_tick n env el =
     (let el1 = drain_expired_keys el;
          el2 = collect_ttl_candidates (te_collect_now env) (te_order env) el1
      in case maybe_fork (te_snapshot_now env) (te_wait_ret env) (te_fork_ret env) (el_snapshot el2)
                (ucast (snapshot_interval (el_config el2)) * 1000000000) of
           (sm, child) \<Rightarrow>
             (dispatch_all n (el2\<lparr>el_snapshot := sm\<rparr>) (take MAX_EPOLL_EVENTS (te_events env)),
              map_option (\<lambda>ts. (ts, el_store el2)) child))"

text \<open>\<open>run\<close> for a list of rounds; it stops when the flag is seen.\<close>

fun loop_run :: "nat \<Rightarrow> tick_env list \<Rightarrow> event_loop \<Rightarrow> event_loop outcome" where
  "loop_run n [] el = Done el"
| "loop_run n (env # envs) el =
     (if el_shutdown_flag el then Done el
      else case fst (loop_tick n env el) of
             Done el' \<Rightarrow> loop_run n envs el'
           | Blocked \<Rightarrow> Blocked
           | Crashed p w \<Rightarrow> Crashed p w)"

definition event_loop_shutdown ::
  "(nat \<Rightarrow> u64) list \<Rightarrow> (nat \<Rightarrow> u64) \<Rightarrow> nat \<Rightarrow> int list \<Rightarrow> event_loop \<Rightarrow> event_loop" where
  "event_loop_shutdown rounds final k fds el =
     (let el1 = (case el_ttl_worker el of
                   None \<Rightarrow> el
                 | Some w \<Rightarrow>
                     (case ttl_stop rounds final (el_ttl_ns el) (w, el_candidates_in el, el_expired_out el) of
                        (w', cin, out) \<Rightarrow>
                          el\<lparr>el_ttl_worker := None, el_candidates_in := cin, el_expired_out := out\<rparr>));
          el2 = el1\<lparr>el_aof := aof_shutdown k (el_aof el1)\<rparr>;
          el3 = fold (\<lambda>fd e. close_fd e fd) fds el2
      in close_fd (close_fd el3 (el_epoll_fd el3)) (el_listen_fd el3))"

section \<open>The invariant of the loop\<close>

definition conns_ok :: "nat \<Rightarrow> event_loop \<Rightarrow> bool" where
  "conns_ok n el \<longleftrightarrow> (\<forall>fd c. el_connections el fd = Some c \<longrightarrow> conn_inv n c \<and> cn_state c \<noteq> Process)"

definition el_inv :: "nat \<Rightarrow> event_loop \<Rightarrow> bool" where
  "el_inv n el \<longleftrightarrow>
     compiled_n_ok n \<and> store_inv (el_store el) \<and> st_capacity (el_store el) = word_of_nat n
     \<and> aof_ok (el_aof el) \<and> spsc_inv CANDIDATES_IN_CAP (el_candidates_in el)
     \<and> spsc_inv EXPIRED_KEYS_CAP (el_expired_out el) \<and> conns_ok n el"

text \<open>The effect of a step: the events it applied to the store, and the same ones on the log.\<close>

definition el_effect :: "nat \<Rightarrow> event_loop \<Rightarrow> store_event list \<Rightarrow> event_loop \<Rightarrow> bool" where
  "el_effect n el evs el' \<longleftrightarrow>
     store_view (el_store el') = abs_run n (store_view (el_store el)) evs
     \<and> aw_stream (el_aof el') = aw_stream (el_aof el) @ concat (map entry_bytes (logged evs))
     \<and> store_slots (el_store el') = store_slots (el_store el) \<and> aof_evolves (el_aof el) (el_aof el')"

lemma el_effect_refl: "el_effect n el [] el"
  by (simp add: el_effect_def)

lemma el_effect_trans:
  "el_effect n el xs el1 \<Longrightarrow> el_effect n el1 ys el2 \<Longrightarrow> el_effect n el (xs @ ys) el2"
  by (auto simp: el_effect_def intro: aof_evolves_trans)

lemma el_effect_same:
  "el_store el' = el_store el \<Longrightarrow> el_aof el' = el_aof el \<Longrightarrow> el_effect n el [] el'"
  by (simp add: el_effect_def)

lemma kernel_updates [simp]:
  "el_store (epoll_mod el fd i) = el_store el" "el_aof (epoll_mod el fd i) = el_aof el"
  "el_connections (epoll_mod el fd i) = el_connections el"
  "el_candidates_in (epoll_mod el fd i) = el_candidates_in el"
  "el_expired_out (epoll_mod el fd i) = el_expired_out el"
  "el_listen_fd (epoll_mod el fd i) = el_listen_fd el"
  "el_store (close_fd el fd) = el_store el" "el_aof (close_fd el fd) = el_aof el"
  "el_connections (close_fd el fd) = el_connections el"
  "el_candidates_in (close_fd el fd) = el_candidates_in el"
  "el_expired_out (close_fd el fd) = el_expired_out el"
  "el_listen_fd (close_fd el fd) = el_listen_fd el"
  "el_store (set_sock el fd sk) = el_store el" "el_aof (set_sock el fd sk) = el_aof el"
  "el_connections (set_sock el fd sk) = el_connections el"
  "el_candidates_in (set_sock el fd sk) = el_candidates_in el"
  "el_expired_out (set_sock el fd sk) = el_expired_out el"
  "el_listen_fd (set_sock el fd sk) = el_listen_fd el"
  "el_store (set_conn el fd oc) = el_store el" "el_aof (set_conn el fd oc) = el_aof el"
  "el_connections (set_conn el fd oc) = (el_connections el)(fd := oc)"
  "el_candidates_in (set_conn el fd oc) = el_candidates_in el"
  "el_expired_out (set_conn el fd oc) = el_expired_out el"
  "el_listen_fd (set_conn el fd oc) = el_listen_fd el"
  by (simp_all add: epoll_mod_def close_fd_def set_sock_def set_conn_def)

lemma el_inv_kernel [simp]:
  "el_inv n (epoll_mod el fd i) = el_inv n el" "el_inv n (close_fd el fd) = el_inv n el"
  "el_inv n (set_sock el fd sk) = el_inv n el"
  by (simp_all add: el_inv_def conns_ok_def)

lemma el_inv_set_conn:
  "el_inv n el \<Longrightarrow> (\<And>c. oc = Some c \<Longrightarrow> conn_inv n c \<and> cn_state c \<noteq> Process) \<Longrightarrow> el_inv n (set_conn el fd oc)"
  by (auto simp: el_inv_def conns_ok_def)

lemma el_inv_handle_close: "el_inv n el \<Longrightarrow> el_inv n (handle_close el fd)"
  by (auto simp: handle_close_def intro: el_inv_set_conn)

lemma handle_close_fields [simp]:
  "el_store (handle_close el fd) = el_store el" "el_aof (handle_close el fd) = el_aof el"
  by (simp_all add: handle_close_def)

lemma accept_one_inv:
  "el_inv n el \<Longrightarrow> el_inv n (set_conn (epoll_mod (set_sock el fd sk) fd i) fd (Some (connection_new n u fd)))"
  using conn_inv_new [of n u fd]
  by (intro el_inv_set_conn) (auto simp: connection_new_def)

lemma accept_connections_inv: "el_inv n el \<Longrightarrow> el_inv n (accept_connections n xs el)"
  by (induction n xs el rule: accept_connections.induct) (simp_all add: accept_one_inv)

lemma accept_connections_fields [simp]:
  "el_store (accept_connections n xs el) = el_store el" "el_aof (accept_connections n xs el) = el_aof el"
  by (induction n xs el rule: accept_connections.induct) simp_all

section \<open>Commands with the flush thread\<close>

lemma push_with_flush:
  assumes "aof_ok w"
  shows "\<exists>w'. aof_ok w' \<and> aw_stream w' = aw_stream w
           @ entry_bytes (LPush (header_user_id c) (record_from_bytes (slice 9 26 (cn_rbuf c))) now)
     \<and> aof_evolves w w'
     \<and> with_flush_thread (push_command now c s) w =
         (case get_or_create s (header_user_id c) of
            Inl e \<Rightarrow> Crashed e w'
          | Inr s1 \<Rightarrow> Done (write_ok_response c,
               buf_push s1 (header_user_id c) (record_from_bytes (slice 9 26 (cn_rbuf c))) now, w'))"
proof -
  let ?x = "LPush (header_user_id c) (record_from_bytes (slice 9 26 (cn_rbuf c))) now"
  have len: "length (entry_bytes ?x) \<le> AOF_BUF_SIZE" using length_entry_le [of ?x] by (simp add: AOF_BUF_SIZE_def)
  from aol.append_wait_ok [OF assms this] obtain w' where
    w': "aol.append_wait w (entry_bytes ?x) = Some w'" "aof_ok w'" "aw_stream w' = aw_stream w @ entry_bytes ?x"
    by blast
  then have "with_flush_thread (push_command now c s) w =
         (case get_or_create s (header_user_id c) of
            Inl e \<Rightarrow> Crashed e w'
          | Inr s1 \<Rightarrow> Done (write_ok_response c,
               buf_push s1 (header_user_id c) (record_from_bytes (slice 9 26 (cn_rbuf c))) now, w'))"
    by (auto simp: with_flush_thread_def push_command_def Let_def append_push_def push_entry_eq
        aol.append_wait_def simp del: entry_bytes.simps split: option.splits sum.splits)
  with w' append_wait_evolves [OF assms len w'(1)] show ?thesis by blast
qed

lemma del_with_flush:
  assumes "aof_ok w"
  shows "\<exists>w'. aof_ok w' \<and> aw_stream w' = aw_stream w @ entry_bytes (LDel (header_user_id c) now)
     \<and> aof_evolves w w'
     \<and> with_flush_thread (del_command now c s) w
         = Done (write_ok_response c, store_erase s (header_user_id c), w')"
proof -
  let ?x = "LDel (header_user_id c) now"
  have len: "length (entry_bytes ?x) \<le> AOF_BUF_SIZE" using length_entry_le [of ?x] by (simp add: AOF_BUF_SIZE_def)
  from aol.append_wait_ok [OF assms this] obtain w' where
    w': "aol.append_wait w (entry_bytes ?x) = Some w'" "aof_ok w'" "aw_stream w' = aw_stream w @ entry_bytes ?x"
    by blast
  then have "with_flush_thread (del_command now c s) w
      = Done (write_ok_response c, store_erase s (header_user_id c), w')"
    by (auto simp: with_flush_thread_def del_command_def Let_def append_del_def del_entry_eq
        aol.append_wait_def simp del: entry_bytes.simps split: option.splits)
  with w' append_wait_evolves [OF assms len w'(1)] show ?thesis by blast
qed

section \<open>What a command does\<close>

text \<open>The operation that a connection in state \<open>Process\<close> asks for, if it changes the store.\<close>

definition command_ops :: "u64 \<Rightarrow> connection \<Rightarrow> log_op list" where
  "command_ops now c =
     (if header_opcode c = OPCODE_PUSH
      then [LPush (header_user_id c) (record_from_bytes (slice 9 26 (cn_rbuf c))) now]
      else if header_opcode c = OPCODE_DEL then [LDel (header_user_id c) now]
      else [])"

lemma get_or_create_room:
  assumes "store_inv s" and "get_or_create s uid = Inr s1"
  shows "uid \<in> dom (st_map s) \<or> card (dom (st_map s)) < store_slots s"
  using get_or_create_full [OF assms(1), of uid] store_inv_card [OF assms(1)] assms(2)
  by (cases "st_map s uid") auto

lemma write_response_inv:
  assumes "conn_sizes n c"
  shows "conn_inv n ((write_response c st)\<lparr>cn_rbuf_pos := 0\<rparr>)"
  using write_response_frame(1) [OF assms, of st] WBUF_SIZE_min [of n]
  by (auto simp: conn_inv_def conn_sizes_def)

lemma finish_command_inv:
  assumes "el_inv n el" and "store_inv s" and "st_capacity s = word_of_nat n" and "aof_ok w"
    and "conn_inv n (c\<lparr>cn_rbuf_pos := 0\<rparr>)" and "cn_state c = WriteResponse"
  shows "el_inv n (finish_command fd el (c, s, w))"
  using assms by (auto simp: finish_command_def el_inv_def conns_ok_def)

lemma finish_command_fields [simp]:
  "el_store (finish_command fd el (c, s, w)) = s" "el_aof (finish_command fd el (c, s, w)) = w"
  "el_connections (finish_command fd el (c, s, w)) fd = Some (c\<lparr>cn_rbuf_pos := 0\<rparr>)"
  by (simp_all add: finish_command_def Let_def)

text \<open>
  A command never blocks for good. It crashes only for a PUSH of a new key on a full store; in every
  other case the loop goes on, the store and the log have changed by the same operation, and the
  invariant holds again.
\<close>

lemma process_push:
  assumes inv: "el_inv n (set_conn el fd None)" and c: "el_connections el fd = Some c" and "conn_sizes n c"
    and op: "header_opcode c = OPCODE_PUSH"
  shows "\<exists>w'. aof_ok w' \<and> aw_stream w' = aw_stream (el_aof el) @ concat (map entry_bytes (command_ops now c))
     \<and> (case get_or_create (el_store el) (header_user_id c) of
          Inl e \<Rightarrow> process_command n now el fd = Crashed e w'
        | Inr s1 \<Rightarrow> \<exists>el'. process_command n now el fd = Done el' \<and> el_inv n el'
             \<and> el_effect n el (map Logged (command_ops now c)) el'
             \<and> el_connections el' fd = Some ((write_ok_response c)\<lparr>cn_rbuf_pos := 0\<rparr>))"
proof -
  let ?uid = "header_user_id c" and ?r = "record_from_bytes (slice 9 26 (cn_rbuf c))" and ?s = "el_store el"
  let ?el1 = "set_conn el fd None"
  have s: "store_inv ?s" "st_capacity ?s = word_of_nat n" "aof_ok (el_aof el)" "compiled_n_ok n"
    using inv by (auto simp: el_inv_def)
  from push_with_flush [OF s(3), of c now ?s] obtain w' where
    w': "aof_ok w'" "aw_stream w' = aw_stream (el_aof el) @ entry_bytes (LPush ?uid ?r now)"
    and ev: "aof_evolves (el_aof el) w'" and w'3:
    "with_flush_thread (push_command now c ?s) (el_aof el) =
         (case get_or_create ?s ?uid of
            Inl e \<Rightarrow> Crashed e w'
          | Inr s1 \<Rightarrow> Done (write_ok_response c, buf_push s1 ?uid ?r now, w'))" by blast
  have pc: "process_command n now el fd
      = map_outcome (finish_command fd ?el1) (with_flush_thread (push_command now c ?s) (el_aof el))"
    by (simp add: process_command_def c op Let_def)
  have ops: "command_ops now c = [LPush ?uid ?r now]" by (simp add: command_ops_def op)
  have "case get_or_create ?s ?uid of
          Inl e \<Rightarrow> process_command n now el fd = Crashed e w'
        | Inr s1 \<Rightarrow> \<exists>el'. process_command n now el fd = Done el' \<and> el_inv n el'
             \<and> el_effect n el (map Logged (command_ops now c)) el'
             \<and> el_connections el' fd = Some ((write_ok_response c)\<lparr>cn_rbuf_pos := 0\<rparr>)"
  proof (cases "get_or_create ?s ?uid")
    case (Inl e)
    then show ?thesis by (simp add: pc w'3)
  next
    case (Inr s1)
    let ?s2 = "buf_push s1 ?uid ?r now"
    from store_push_room [OF s(1) get_or_create_room [OF s(1) Inr], of ?r now] Inr
    have s2: "store_inv ?s2" "store_view ?s2 = abs_push n (store_view ?s) ?uid ?r now"
      "st_capacity ?s2 = word_of_nat n" "store_slots ?s2 = store_slots ?s"
      using s(2,4) by (auto simp: store_push_def compiled_n_u16)
    let ?el' = "finish_command fd ?el1 (write_ok_response c, ?s2, w')"
    have "el_inv n ?el'"
      using inv s2 w'(1) write_response_inv [OF assms(3)]
      by (intro finish_command_inv) (simp_all add: write_ok_response_def)
    moreover have "el_effect n el (map Logged (command_ops now c)) ?el'"
      by (simp add: el_effect_def ops s2 w'(2) ev)
    ultimately show ?thesis by (simp add: pc w'3 Inr del: finish_command_fields(1,2))
  qed
  with w'(1,2) ops show ?thesis by auto
qed

lemma process_del:
  assumes inv: "el_inv n (set_conn el fd None)" and c: "el_connections el fd = Some c" and "conn_sizes n c"
    and op: "header_opcode c = OPCODE_DEL"
  shows "\<exists>el'. process_command n now el fd = Done el' \<and> el_inv n el'
     \<and> el_effect n el (map Logged (command_ops now c)) el'
     \<and> el_connections el' fd = Some ((write_ok_response c)\<lparr>cn_rbuf_pos := 0\<rparr>)"
proof -
  let ?uid = "header_user_id c" and ?s = "el_store el" and ?el1 = "set_conn el fd None"
  have s: "store_inv ?s" "st_capacity ?s = word_of_nat n" "aof_ok (el_aof el)"
    using inv by (auto simp: el_inv_def)
  from del_with_flush [OF s(3), of c now ?s] obtain w' where
    w': "aof_ok w'" "aw_stream w' = aw_stream (el_aof el) @ entry_bytes (LDel ?uid now)"
    and ev: "aof_evolves (el_aof el) w'" and w'3:
    "with_flush_thread (del_command now c ?s) (el_aof el) = Done (write_ok_response c, store_erase ?s ?uid, w')"
    by blast
  let ?el' = "finish_command fd ?el1 (write_ok_response c, store_erase ?s ?uid, w')"
  have "process_command n now el fd = Done ?el'"
    by (simp add: process_command_def c op Let_def w'3) (simp add: const_defs)
  moreover have "el_inv n ?el'"
    using inv s w'(1) store_erase_ok [OF s(1)] write_response_inv [OF assms(3)]
    by (intro finish_command_inv) (simp_all add: write_ok_response_def)
  moreover have "el_effect n el (map Logged (command_ops now c)) ?el'"
    using op by (simp add: el_effect_def command_ops_def store_erase_ok [OF s(1)] w'(2) ev) (simp add: const_defs)
  ultimately show ?thesis by auto
qed

lemma process_get:
  assumes inv: "el_inv n (set_conn el fd None)" and c: "el_connections el fd = Some c" and "conn_sizes n c"
    and op: "header_opcode c = OPCODE_GET"
  shows "\<exists>el'. process_command n now el fd = Done el' \<and> el_inv n el' \<and> el_effect n el [] el'
     \<and> (case validate_get_count n c of
          Inl e \<Rightarrow> el_connections el' fd = None
        | Inr k \<Rightarrow> \<exists>c'. el_connections el' fd = Some c' \<and> cn_state c' = WriteResponse
              \<and> conn_output c' = get_reply (store_view (el_store el)) (header_user_id c) (unat k))"
proof (cases "validate_get_count n c")
  case (Inl e)
  let ?el' = "close_fd (epoll_mod (set_conn el fd None) fd None) fd"
  have "process_command n now el fd = Done ?el'"
    by (simp add: process_command_def c op Let_def Inl) (simp add: const_defs)
  then show ?thesis using inv Inl by (auto simp: el_effect_def)
next
  case (Inr k)
  then have k: "k = get_count_field c" by (auto simp: validate_get_count_def Let_def split: if_splits)
  let ?s = "el_store el"
  have s: "store_inv ?s" "st_capacity ?s = word_of_nat n" "compiled_n_ok n" "aof_ok (el_aof el)"
    using inv by (auto simp: el_inv_def)
  from get_command_reply [OF s(1-3) assms(3)] obtain c' where
    c': "get_command c ?s = Some c'" "conn_sizes n c'" "cn_state c' = WriteResponse"
    "cn_wbuf_len c' \<le> length (cn_wbuf c')" "cn_wbuf_pos c' = 0"
    "conn_output c' = get_reply (store_view ?s) (header_user_id c) (unat k)" by (auto simp: k)
  let ?el' = "finish_command fd (set_conn el fd None) (c', ?s, el_aof el)"
  have pc: "process_command n now el fd = Done ?el'"
    by (simp add: process_command_def c op Let_def Inr c'(1)) (simp add: const_defs)
  have "5 \<le> length (get_reply (store_view ?s) (header_user_id c) (unat k))"
    by (auto simp: get_reply_def response_frame_def Let_def split: option.split)
  moreover have "length (conn_output c') \<le> cn_wbuf_len c'" by (simp add: conn_output_def)
  ultimately have "0 < cn_wbuf_len c'" using c'(6) by simp
  then have "conn_inv n (c'\<lparr>cn_rbuf_pos := 0\<rparr>)" using c' by (simp add: conn_inv_def conn_sizes_def)
  then have "el_inv n ?el'" using inv s c'(3) by (intro finish_command_inv) simp_all
  moreover have "conn_output (c'\<lparr>cn_rbuf_pos := 0\<rparr>) = conn_output c'" by (simp add: conn_output_def)
  ultimately show ?thesis using pc c'(3,6) Inr by (auto simp: el_effect_def)
qed

lemma process_command_sound:
  assumes inv: "el_inv n (set_conn el fd None)" and c: "el_connections el fd = Some c"
    and ci: "conn_inv n c" and st: "cn_state c = Process"
  shows "(\<exists>el'. process_command n now el fd = Done el' \<and> el_inv n el'
            \<and> el_effect n el (map Logged (command_ops now c)) el')
     \<or> (\<exists>e w'. process_command n now el fd = Crashed e w' \<and> header_opcode c = OPCODE_PUSH
            \<and> (\<exists>e. get_or_create (el_store el) (header_user_id c) = Inl e)
            \<and> aw_stream w' = aw_stream (el_aof el) @ concat (map entry_bytes (command_ops now c)))"
proof -
  have sz: "conn_sizes n c" using ci by (simp add: conn_inv_def)
  obtain opc uid len where v: "validate_header c = Inr (opc, uid, len)"
    using ci st by (cases "validate_header c") (auto simp: conn_inv_def)
  then consider "header_opcode c = OPCODE_PUSH" | "header_opcode c = OPCODE_GET" | "header_opcode c = OPCODE_DEL"
    using validate_header_fields [OF v] by (auto simp: expected_payload_iff)
  then show ?thesis
  proof cases
    case 1
    from process_push [OF inv c sz 1, of now] show ?thesis
      by (cases "get_or_create (el_store el) (header_user_id c)") (use 1 in auto)
  next
    case 2
    then have "command_ops now c = []" by (simp add: command_ops_def const_defs)
    with process_get [OF inv c sz 2, of now] show ?thesis by auto
  next
    case 3
    from process_del [OF inv c sz 3, of now] show ?thesis by blast
  qed
qed

section \<open>Every handler keeps the invariant\<close>

text \<open>
  The operations a handler logs, read off the connection it works on; all other handlers log
  nothing.
\<close>

definition handle_read_ops :: "u64 \<Rightarrow> event_loop \<Rightarrow> int \<Rightarrow> log_op list" where
  "handle_read_ops now el fd =
     (case el_connections el fd of
        None \<Rightarrow> []
      | Some c \<Rightarrow>
          (case read_loop c (k_socks (el_kernel el) fd) of
             ReadBreak c' sk \<Rightarrow> if cn_state c' = Process then command_ops now c' else []
           | _ \<Rightarrow> []))"

definition event_ops :: "event_loop \<Rightarrow> ready_event \<Rightarrow> log_op list" where
  "event_ops el e =
     (if re_fd e \<noteq> el_listen_fd el \<and> re_in e then handle_read_ops (re_now e) el (re_fd e) else [])"

fun dispatch_ops :: "nat \<Rightarrow> event_loop \<Rightarrow> ready_event list \<Rightarrow> log_op list" where
  "dispatch_ops n el [] = []"
| "dispatch_ops n el (e # es) =
     event_ops el e @ (case dispatch_event n el e of Done el' \<Rightarrow> dispatch_ops n el' es | _ \<Rightarrow> [])"

text \<open>What a handler may do: go on with matching changes of store and log, or crash on a full store.\<close>

definition handler_ok :: "nat \<Rightarrow> log_op list \<Rightarrow> event_loop \<Rightarrow> event_loop outcome \<Rightarrow> bool" where
  "handler_ok n ops el r \<longleftrightarrow>
     (case r of
        Done el' \<Rightarrow> el_inv n el' \<and> el_effect n el (map Logged ops) el'
      | Blocked \<Rightarrow> False
      | Crashed p w \<Rightarrow> card (dom (store_view (el_store el))) = store_slots (el_store el))"

lemma handler_ok_quiet:
  "el_inv n el' \<Longrightarrow> el_store el' = el_store el \<Longrightarrow> el_aof el' = el_aof el \<Longrightarrow> handler_ok n [] el (Done el')"
  by (simp add: handler_ok_def el_effect_def)

lemma command_ops_ts: "x \<in> set (command_ops now c) \<Longrightarrow> op_ts x = now"
  by (auto simp: command_ops_def split: if_splits)

lemma handle_read_ops_ts: "x \<in> set (handle_read_ops now el fd) \<Longrightarrow> op_ts x = now"
  by (auto simp: handle_read_ops_def dest: command_ops_ts split: option.splits read_result.splits if_splits)

lemma get_or_create_crash:
  assumes "store_inv s" and "get_or_create s uid = Inl e"
  shows "card (dom (st_map s)) = store_slots s"
proof (rule ccontr)
  assume "card (dom (st_map s)) \<noteq> store_slots s"
  then have lt: "card (dom (st_map s)) < store_slots s" using store_inv_card [OF assms(1)] by simp
  have "st_map s uid = None" using assms(2) get_or_create_old by (cases "st_map s uid") force+
  from get_or_create_new [OF assms(1) this lt] obtain s' where "get_or_create s uid = Inr s'" by blast
  with assms(2) show False by simp
qed

text \<open>The loop of \<open>handle_read\<close> has completed a request.\<close>

lemma handle_read_break_ok:
  assumes inv: "el_inv n el" and c: "el_connections el fd = Some c"
    and brk: "read_loop c (k_socks (el_kernel el) fd) = ReadBreak c' sk" and c': "conn_inv n c'" "cn_state c' = Process"
  shows "handler_ok n (handle_read_ops now el fd) el (handle_read n now el fd)"
proof -
  let ?el1 = "set_conn (set_sock el fd sk) fd (Some c')"
  have hr: "handle_read n now el fd = process_command n now ?el1 fd"
    by (simp add: handle_read_def c brk c'(2))
  have ops: "handle_read_ops now el fd = command_ops now c'"
    by (simp add: handle_read_ops_def c brk c'(2))
  have "el_inv n (set_conn ?el1 fd None)"
    using inv by (auto simp: el_inv_def conns_ok_def)
  from process_command_sound [OF this _ c', of now] consider
    el' where "process_command n now ?el1 fd = Done el'" "el_inv n el'"
      "el_effect n ?el1 (map Logged (command_ops now c')) el'"
    | e w' e' where "process_command n now ?el1 fd = Crashed e w'"
      "get_or_create (el_store el) (header_user_id c') = Inl e'" by auto
  then show ?thesis
  proof cases
    case 1
    then show ?thesis by (simp add: hr ops handler_ok_def el_effect_def)
  next
    case 2
    have "store_inv (el_store el)" using inv by (simp add: el_inv_def)
    from get_or_create_crash [OF this 2(2)] 2(1) show ?thesis by (simp add: hr handler_ok_def)
  qed
qed

lemma handle_read_ok:
  assumes inv: "el_inv n el"
  shows "handler_ok n (handle_read_ops now el fd) el (handle_read n now el fd)"
proof (cases "el_connections el fd")
  case None
  then show ?thesis using inv by (simp add: handle_read_def handle_read_ops_def handler_ok_quiet)
next
  case (Some c)
  have ci: "conn_inv n c" and np: "cn_state c \<noteq> Process" using inv Some by (auto simp: el_inv_def conns_ok_def)
  let ?sk = "k_socks (el_kernel el) fd"
  show ?thesis
  proof (cases "cn_state c = WriteResponse")
    case True
    have "read_loop c ?sk = ReadBreak c ?sk"
      by (subst read_loop.simps) (simp add: read_needed_def True)
    then show ?thesis
      using inv Some True ci np
      by (auto simp: handle_read_def handle_read_ops_def Let_def intro!: handler_ok_quiet el_inv_set_conn)
  next
    case False
    then have st: "cn_state c \<in> {ReadHeader, ReadPayload, Process}" using np by (cases "cn_state c") auto
    note ok = read_loop_ok [OF ci st, of ?sk]
    show ?thesis
    proof (cases "read_loop c ?sk")
      case (ReadClose sk)
      then show ?thesis using inv Some
        by (auto simp: handle_read_def handle_read_ops_def intro!: handler_ok_quiet el_inv_handle_close)
    next
      case (ReadReturn c' sk)
      then show ?thesis using inv Some ok
        by (auto simp: handle_read_def handle_read_ops_def read_ok_def intro!: handler_ok_quiet el_inv_set_conn)
    next
      case (ReadBreak c' sk)
      with ok have "conn_inv n c'" "cn_state c' = Process" by (simp_all add: read_ok_def)
      with handle_read_break_ok [OF inv Some ReadBreak] show ?thesis by blast
    qed
  qed
qed

lemma handle_write_ok:
  assumes inv: "el_inv n el"
  shows "handler_ok n [] el (handle_write el fd)"
proof (cases "el_connections el fd")
  case None
  then show ?thesis using inv by (simp add: handle_write_def handler_ok_quiet)
next
  case (Some c)
  have ci: "conn_inv n c" and np: "cn_state c \<noteq> Process" using inv Some by (auto simp: el_inv_def conns_ok_def)
  let ?sk = "k_socks (el_kernel el) fd"
  show ?thesis
  proof (cases "cn_state c = WriteResponse")
    case False
    then have "write_loop c ?sk = WriteBreak c ?sk" by (subst write_loop.simps) simp
    then show ?thesis
      using inv Some ci np by (auto simp: handle_write_def intro!: handler_ok_quiet el_inv_set_conn)
  next
    case True
    from write_loop_ok [OF ci True, of ?sk] show ?thesis
      using inv Some
      by (cases "write_loop c ?sk")
        (auto simp: handle_write_def write_ok_def intro!: handler_ok_quiet el_inv_set_conn el_inv_handle_close)
  qed
qed

lemma dispatch_event_ok:
  assumes "el_inv n el"
  shows "handler_ok n (event_ops el e) el (dispatch_event n el e)"
  using assms handle_read_ok [OF assms] handle_write_ok [OF assms]
  by (auto simp: dispatch_event_def event_ops_def accept_connections_inv intro!: handler_ok_quiet)

subsection \<open>Fields the handlers leave alone\<close>

definition el_frame :: "event_loop \<Rightarrow> event_loop \<Rightarrow> bool" where
  "el_frame el el' \<longleftrightarrow>
     el_expired_out el' = el_expired_out el \<and> el_candidates_in el' = el_candidates_in el
     \<and> el_ttl_ns el' = el_ttl_ns el \<and> el_shutdown_flag el' = el_shutdown_flag el
     \<and> el_listen_fd el' = el_listen_fd el \<and> el_config el' = el_config el
     \<and> el_snapshot el' = el_snapshot el"

lemma el_frame_refl [simp]: "el_frame el el"
  by (simp add: el_frame_def)

lemma el_frame_trans: "el_frame el el1 \<Longrightarrow> el_frame el1 el2 \<Longrightarrow> el_frame el el2"
  by (simp add: el_frame_def)

lemma el_frame_updates [simp]:
  "el_frame el (epoll_mod el' fd i) = el_frame el el'" "el_frame el (close_fd el' fd) = el_frame el el'"
  "el_frame el (set_sock el' fd sk) = el_frame el el'" "el_frame el (set_conn el' fd oc) = el_frame el el'"
  "el_frame el (handle_close el' fd) = el_frame el el'"
  "el_frame el (finish_command fd el' r) = el_frame el el'"
  by (simp_all add: el_frame_def epoll_mod_def close_fd_def set_sock_def set_conn_def handle_close_def
      finish_command_def Let_def split: prod.split)

lemma accept_connections_frame: "el_frame el el' \<Longrightarrow> el_frame el (accept_connections n xs el')"
  by (induction n xs el' rule: accept_connections.induct) simp_all

lemma map_outcome_Done: "map_outcome f r = Done y \<Longrightarrow> \<exists>x. r = Done x \<and> y = f x"
  by (cases r) auto

lemma process_command_frame:
  assumes "process_command n now el' fd = Done el''" and "el_frame el el'"
  shows "el_frame el el''"
  using assms
  by (auto simp: process_command_def Let_def dest!: map_outcome_Done split: option.splits if_splits sum.splits)

lemma dispatch_event_frame:
  assumes "dispatch_event n el e = Done el'"
  shows "el_frame el el'"
  using assms
  by (auto simp: dispatch_event_def handle_read_def handle_write_def Let_def accept_connections_frame
      process_command_frame split: option.splits if_splits read_result.splits write_loop_result.splits)

lemma dispatch_all_frame: "dispatch_all n el es = Done el' \<Longrightarrow> el_frame el el'"
proof (induction es arbitrary: el)
  case (Cons e es)
  then obtain el1 where "dispatch_event n el e = Done el1" "dispatch_all n el1 es = Done el'"
    by (auto split: outcome.splits)
  with Cons.IH dispatch_event_frame el_frame_trans show ?case by blast
qed simp

section \<open>Rounds of the loop\<close>

lemma dispatch_all_ok:
  assumes "el_inv n el"
  shows "case dispatch_all n el es of
           Done el' \<Rightarrow> el_inv n el' \<and> el_effect n el (map Logged (dispatch_ops n el es)) el'
         | Blocked \<Rightarrow> False
         | Crashed p w \<Rightarrow> True"
  using assms
proof (induction es arbitrary: el)
  case Nil
  then show ?case by (simp add: el_effect_refl)
next
  case (Cons e es)
  show ?case
  proof (cases "dispatch_event n el e")
    case (Done el1)
    with dispatch_event_ok [OF Cons.prems, of e] have
      1: "el_inv n el1" "el_effect n el (map Logged (event_ops el e)) el1" by (simp_all add: handler_ok_def)
    from Cons.IH [OF 1(1)] el_effect_trans [OF 1(2)] Done show ?thesis by (auto split: outcome.splits)
  next
    case Blocked
    with dispatch_event_ok [OF Cons.prems, of e] show ?thesis by (simp add: handler_ok_def)
  next
    case (Crashed p w)
    then show ?thesis by simp
  qed
qed

subsection \<open>Evictions\<close>

text \<open>The keys that a list of candidates evicts: those not written since they were sampled.\<close>

fun evictions :: "event_map \<Rightarrow> candidate list \<Rightarrow> store_event list" where
  "evictions A [] = []"
| "evictions A (c # cs) =
     (case A (cd_uid c) of
        None \<Rightarrow> evictions A cs
      | Some (h, ts) \<Rightarrow>
          if ts = cd_last_write_ts c then Evicted (cd_uid c) # evictions (abs_erase A (cd_uid c)) cs
          else evictions A cs)"

lemma logged_evictions [simp]: "logged (evictions A cs) = []"
  by (induction A cs rule: evictions.induct) (auto split: option.split)

lemma evictions_sound:
  "Evicted uid \<in> set (evictions A cs) \<Longrightarrow> \<exists>c \<in> set cs. cd_uid c = uid \<and> (\<exists>h. A uid = Some (h, cd_last_write_ts c))"
proof (induction A cs rule: evictions.induct)
  case (2 A c cs)
  show ?case
  proof (cases "A (cd_uid c)")
    case None
    with 2 show ?thesis by auto
  next
    case (Some p)
    obtain h ts where p: "p = (h, ts)" by fastforce
    show ?thesis
    proof (cases "ts = cd_last_write_ts c \<and> uid \<noteq> cd_uid c")
      case True
      with 2 Some p show ?thesis by (auto simp: abs_erase_other)
    next
      case False
      with 2 Some p show ?thesis by (auto split: if_splits)
    qed
  qed
qed simp

lemma evict_candidate_ok:
  assumes "store_inv s"
  shows "store_inv (evict_candidate c s)"
    and "store_view (evict_candidate c s) = abs_run n (store_view s) (evictions (store_view s) [c])"
    and "st_capacity (evict_candidate c s) = st_capacity s" and "store_slots (evict_candidate c s) = store_slots s"
  using assms store_erase_ok [OF assms]
  by (auto simp: evict_candidate_def store_get_def store_view_def [of s "cd_uid c"] split: option.splits)

lemma evictions_Cons:
  "evictions A (c # cs) = evictions A [c] @ evictions (abs_run n A (evictions A [c])) cs"
  by (auto split: option.split)

lemma fold_evict_ok:
  assumes "store_inv s"
  shows "store_inv (fold evict_candidate cs s)
     \<and> store_view (fold evict_candidate cs s) = abs_run n (store_view s) (evictions (store_view s) cs)
     \<and> st_capacity (fold evict_candidate cs s) = st_capacity s
     \<and> store_slots (fold evict_candidate cs s) = store_slots s"
  using assms
proof (induction cs arbitrary: s)
  case (Cons c cs)
  note e = evict_candidate_ok [OF Cons.prems, of c]
  show ?case
    using Cons.IH [OF e(1)] e by (subst evictions_Cons [where n = n]) (simp del: evictions.simps)
qed simp

lemma drain_expired_keys_ok:
  assumes "el_inv n el"
  shows "el_inv n (drain_expired_keys el)"
    and "el_effect n el (evictions (store_view (el_store el)) (spsc_list EXPIRED_KEYS_CAP (el_expired_out el)))
           (drain_expired_keys el)"
    and "spsc_list EXPIRED_KEYS_CAP (el_expired_out (drain_expired_keys el)) = []"
    and "el_ttl_ns (drain_expired_keys el) = el_ttl_ns el"
proof -
  have q: "spsc_inv EXPIRED_KEYS_CAP (el_expired_out el)" and s: "store_inv (el_store el)"
    using assms by (auto simp: el_inv_def)
  from spsc_drain_fold [OF q, of evict_candidate "el_store el"] obtain q' where
    q': "spsc_drain EXPIRED_KEYS_CAP evict_candidate (el_expired_out el) (el_store el)
           = (q', fold evict_candidate (spsc_list EXPIRED_KEYS_CAP (el_expired_out el)) (el_store el))"
    "spsc_inv EXPIRED_KEYS_CAP q'" "spsc_list EXPIRED_KEYS_CAP q' = []" by blast
  note f = fold_evict_ok [OF s, of "spsc_list EXPIRED_KEYS_CAP (el_expired_out el)" n]
  show "el_inv n (drain_expired_keys el)"
    using assms f q' by (auto simp: drain_expired_keys_def el_inv_def conns_ok_def)
  show "el_effect n el (evictions (store_view (el_store el)) (spsc_list EXPIRED_KEYS_CAP (el_expired_out el)))
           (drain_expired_keys el)"
    using f q'(1) by (simp add: drain_expired_keys_def el_effect_def)
  show "spsc_list EXPIRED_KEYS_CAP (el_expired_out (drain_expired_keys el)) = []"
    "el_ttl_ns (drain_expired_keys el) = el_ttl_ns el"
    using q' by (simp_all add: drain_expired_keys_def)
qed

subsection \<open>Sampling\<close>

definition sample_of :: "event_map \<Rightarrow> u32 \<Rightarrow> candidate" where
  "sample_of A uid = \<lparr>cd_uid = uid, cd_last_write_ts = snd (the (A uid))\<rparr>"

lemma for_each_sample:
  assumes "set order \<subseteq> dom (st_map s)"
  shows "store_for_each order s
           (\<lambda>uid b q. snd (spsc_push cap q \<lparr>cd_uid = uid, cd_last_write_ts = rb_last_write_ts b\<rparr>)) q
       = spq.push_all cap q (map (sample_of (store_view s)) order)"
  using assms
proof (induction order arbitrary: q)
  case Nil
  then show ?case by (simp add: store_for_each_def spq.push_all_def)
next
  case (Cons uid order)
  from Cons.prems obtain b where "st_map s uid = Some b" by auto
  with Cons show ?case
    by (simp add: store_for_each_def spq.push_all_def sample_of_def store_view_def)
qed

lemma collect_ttl_ok:
  assumes "el_inv n el" and "hash_order (st_map (el_store el)) order"
  shows "el_inv n (collect_ttl_candidates now order el)"
    and "el_store (collect_ttl_candidates now order el) = el_store el"
    and "el_aof (collect_ttl_candidates now order el) = el_aof el"
    and "el_expired_out (collect_ttl_candidates now order el) = el_expired_out el"
    and "el_ttl_ns (collect_ttl_candidates now order el) = el_ttl_ns el"
proof -
  have q: "spsc_inv CANDIDATES_IN_CAP (el_candidates_in el)" using assms(1) by (simp add: el_inv_def)
  have o: "set order \<subseteq> dom (st_map (el_store el))" using assms(2) by (simp add: hash_order_def)
  show "el_inv n (collect_ttl_candidates now order el)"
    using assms(1) spq.push_all_items [OF q] unfolding collect_ttl_candidates_def for_each_sample [OF o]
    by (simp add: Let_def el_inv_def conns_ok_def)
  show "el_store (collect_ttl_candidates now order el) = el_store el"
    "el_aof (collect_ttl_candidates now order el) = el_aof el"
    "el_expired_out (collect_ttl_candidates now order el) = el_expired_out el"
    "el_ttl_ns (collect_ttl_candidates now order el) = el_ttl_ns el"
    by (simp_all add: collect_ttl_candidates_def Let_def)
qed

section \<open>Requests from socket to response\<close>

lemma received_frame_fields:
  assumes "received c = request_frame opc uid payload" and "conn_inv n c" and "cn_state c = Process"
  shows "header_opcode c = opc" and "header_user_id c = uid"
    and "slice 9 (9 + length payload) (cn_rbuf c) = payload"
proof -
  have l32: "length (cn_rbuf c) = 32" and p9: "9 \<le> cn_rbuf_pos c"
    using assms(2,3) by (auto simp: conn_inv_def conn_sizes_def)
  have "received c @ [] = request_frame opc uid payload @ []" using assms(1) by simp
  note h = header_fields [OF received_header [OF this p9 l32]]
  show "header_opcode c = opc" "header_user_id c = uid" using h by simp_all
  have len: "cn_rbuf_pos c = 9 + length payload"
    using arg_cong [OF assms(1), of length] received_length [OF assms(2)] assms(3) by simp
  have "slice 9 (9 + length payload) (cn_rbuf c) = drop 9 (received c)"
    by (simp add: slice_drop_take received_def len)
  then show "slice 9 (9 + length payload) (cn_rbuf c) = payload"
    by (simp add: assms(1) request_frame_def)
qed

lemma finish_command_kernel:
  assumes "cn_state c = WriteResponse"
  shows "k_socks (el_kernel (finish_command fd el (c, s, w))) = k_socks (el_kernel el)"
    and "k_epoll (el_kernel (finish_command fd el (c, s, w))) fd = Some EpollOut"
  using assms by (simp_all add: finish_command_def Let_def set_conn_def epoll_mod_def)

lemma command_states:
  "push_command now c s w = Done (c2, s2, w2) \<Longrightarrow> cn_state c2 = WriteResponse"
  "del_command now c s w = Done (c2, s2, w2) \<Longrightarrow> cn_state c2 = WriteResponse"
  "get_command c s = Some c2 \<Longrightarrow> cn_state c2 = WriteResponse"
  by (auto simp: push_command_def del_command_def get_command_def Let_def write_ok_response_def
      write_not_found_response_def split: option.splits sum.splits)

lemma process_command_kernel:
  assumes "process_command n now el fd = Done el'" and "el_connections el' fd = Some c'"
    and "el_connections el fd = Some c"
  shows "k_socks (el_kernel el') = k_socks (el_kernel el) \<and> k_epoll (el_kernel el') fd = Some EpollOut"
proof -
  have wf: "\<exists>w. cmd w = Done r" if "with_flush_thread cmd v = Done r"
    for cmd :: "aof_writer \<Rightarrow> (connection \<times> store \<times> aof_writer) outcome" and v r
    using that by (auto simp: with_flush_thread_def split: outcome.splits)
  have fin: "k_socks (el_kernel (finish_command fd (set_conn el fd None) r)) = k_socks (el_kernel el)
      \<and> k_epoll (el_kernel (finish_command fd (set_conn el fd None) r)) fd = Some EpollOut"
    if "cn_state (fst r) = WriteResponse" for r
    using that finish_command_kernel [of "fst r" fd "set_conn el fd None" "fst (snd r)" "snd (snd r)"]
    by (cases r) (simp add: set_conn_def)
  show ?thesis
    using assms fin command_states
    by (auto simp: process_command_def Let_def dest!: map_outcome_Done wf split: if_splits sum.splits option.splits)
qed

text \<open>The read side of a complete request: the loop hands over to \<open>process_command\<close>.\<close>

lemma handle_read_request:
  assumes inv: "el_inv n el" and c: "el_connections el fd = Some c" and st: "cn_state c \<in> {ReadHeader, ReadPayload}"
    and fl: "reads_flow (k_socks (el_kernel el) fd)"
    and fr: "received c @ sk_in (k_socks (el_kernel el) fd) = request_frame opc uid payload @ rest"
    and ok: "payload_ok opc payload"
  obtains c1 sk where "handle_read n now el fd = process_command n now (set_conn (set_sock el fd sk) fd (Some c1)) fd"
    and "conn_inv n c1" and "cn_state c1 = Process" and "header_opcode c1 = opc" and "header_user_id c1 = uid"
    and "slice 9 (9 + length payload) (cn_rbuf c1) = payload" and "sk_in sk = rest"
    and "el_inv n (set_conn (set_conn (set_sock el fd sk) fd (Some c1)) fd None)"
    and "handle_read_ops now el fd = command_ops now c1"
proof -
  have "conn_inv n c" using inv c by (simp add: el_inv_def conns_ok_def)
  from read_loop_complete [OF this st fl fr ok] obtain c1 sk where
    r: "read_loop c (k_socks (el_kernel el) fd) = ReadBreak c1 sk" "conn_inv n c1" "cn_state c1 = Process"
    "received c1 = request_frame opc uid payload" "sk_in sk = rest" by blast
  note f = received_frame_fields [OF r(4,2,3)]
  have "handle_read n now el fd = process_command n now (set_conn (set_sock el fd sk) fd (Some c1)) fd"
    by (simp add: handle_read_def c r)
  moreover have "el_inv n (set_conn (set_conn (set_sock el fd sk) fd (Some c1)) fd None)"
    using inv by (auto simp: el_inv_def conns_ok_def)
  moreover have "handle_read_ops now el fd = command_ops now c1" by (simp add: handle_read_ops_def c r)
  ultimately show ?thesis using that r f by blast
qed

lemma conn_output_rbuf_pos [simp]: "conn_output (c\<lparr>cn_rbuf_pos := p\<rparr>) = conn_output c"
  by (simp add: conn_output_def)

text \<open>The state of a key after candidates were applied: the guard decides key by key.\<close>

lemma abs_run_evictions:
  "abs_run n A (evictions A cs) uid =
     (if \<exists>c \<in> set cs. cd_uid c = uid \<and> (\<exists>h. A uid = Some (h, cd_last_write_ts c)) then None else A uid)"
proof (induction A cs rule: evictions.induct)
  case (2 A c cs)
  show ?case
  proof (cases "A (cd_uid c)")
    case None
    with 2 show ?thesis by auto
  next
    case (Some p)
    obtain h ts where p: "p = (h, ts)" by fastforce
    show ?thesis
    proof (cases "ts = cd_last_write_ts c")
      case True
      with 2(2) Some p show ?thesis by (cases "uid = cd_uid c") (auto simp: abs_erase_other)
    next
      case False
      with 2(3) Some p show ?thesis by auto
    qed
  qed
qed simp

section \<open>Properties\<close>

text \<open>A running loop on the sample store, with one connection that is waiting for a request.\<close>

definition sample_config :: config where
  "sample_config = \<lparr>max_records = 2, ttl_seconds = 60, aof_path = ''log'', snapshot_path = ''d'',
     snapshot_interval = 120, listen_port = 7379, memory_pool_slots = 4, aof_fsync = Everysec\<rparr>"

definition sample_kernel :: "bytes \<Rightarrow> kernel" where
  "sample_kernel input = \<lparr>k_socks = (\<lambda>_. \<lparr>sk_in = input, sk_eof = False, sk_reads = [RLimit 4, RLimit 0], sk_out = [],
     sk_writes = []\<rparr>), k_epoll = Map.empty, k_closed = []\<rparr>"

definition sample_loop :: "bytes \<Rightarrow> event_loop" where
  "sample_loop input = set_conn (projr (event_loop_new 6 (sample_kernel input) sample_config sample_store
     (sample_writer Everysec) 3 False)) 5 (Some (connection_new 2 (\<lambda>_. 0) 5))"

lemma event_loop_new_inv:
  assumes "event_loop_new efd k cfg s w lfd flag = Inr el" and "compiled_n_ok n" and "store_inv s"
    and "st_capacity s = word_of_nat n" and "aof_ok w"
  shows "el_inv n el" and "spsc_list EXPIRED_KEYS_CAP (el_expired_out el) = []"
  using assms new_queue_ok [OF candidates_cap_ok] new_queue_ok [OF expired_cap_ok]
  by (auto simp: event_loop_new_def el_inv_def conns_ok_def split: if_splits)

text \<open>A time to live that validation accepts, but whose nanoseconds wrap to 0.29 seconds.\<close>

lemma ttl_seconds_wraps:
  "event_loop_new efd k cfg s w lfd flag = Inr el \<Longrightarrow> ttl_seconds cfg = 18446744074 \<Longrightarrow> el_ttl_ns el = 290448384"
  by (auto simp: event_loop_new_def split: if_splits)

lemma sample_loop_inv:
  "el_inv 2 (sample_loop input)" "spsc_list EXPIRED_KEYS_CAP (el_expired_out (sample_loop input)) = []"
proof -
  obtain el where el: "event_loop_new 6 (sample_kernel input) sample_config sample_store (sample_writer Everysec) 3 False
      = Inr el" by (simp add: event_loop_new_def)
  from event_loop_new_inv [OF el, of 2] have "el_inv 2 el" "spsc_list EXPIRED_KEYS_CAP (el_expired_out el) = []"
    by (simp_all add: compiled_n_ok_def sample_store_ok sample_writer_ok)
  moreover have "sample_loop input = set_conn el 5 (Some (connection_new 2 (\<lambda>_. 0) 5))"
    by (simp add: sample_loop_def el)
  ultimately show "el_inv 2 (sample_loop input)" "spsc_list EXPIRED_KEYS_CAP (el_expired_out (sample_loop input)) = []"
    using conn_inv_new [of 2 "\<lambda>_. 0" 5] by (auto intro!: el_inv_set_conn simp: connection_new_def)
qed

lemma sample_loop_fields:
  "el_connections (sample_loop input) 5 = Some (connection_new 2 (\<lambda>_. 0) 5)"
  "el_store (sample_loop input) = sample_store" "el_aof (sample_loop input) = sample_writer Everysec"
  "sk_in (k_socks (el_kernel (sample_loop input)) 5) = input" "reads_flow (k_socks (el_kernel (sample_loop input)) 5)"
  by (simp_all add: sample_loop_def event_loop_new_def set_conn_def sample_kernel_def reads_flow_def)

text \<open>From the bytes of a PUSH request to its response.\<close>

lemma push_request_ok:
  assumes "el_inv n el" and "el_connections el fd = Some c" and "cn_state c \<in> {ReadHeader, ReadPayload}"
    and "reads_flow (k_socks (el_kernel el) fd)"
    and "received c @ sk_in (k_socks (el_kernel el) fd) = request_frame OPCODE_PUSH uid (record_to_bytes r) @ rest"
    and "uid \<in> dom (store_view (el_store el)) \<or> card (dom (store_view (el_store el))) < store_slots (el_store el)"
  shows "\<exists>el' c'. handle_read n now el fd = Done el' \<and> el_inv n el'
     \<and> store_view (el_store el') = abs_push n (store_view (el_store el)) uid r now
     \<and> aw_stream (el_aof el') = aw_stream (el_aof el) @ entry_bytes (LPush uid r now)
     \<and> el_connections el' fd = Some c' \<and> conn_output c' = response_frame STATUS_OK []
     \<and> k_epoll (el_kernel el') fd = Some EpollOut \<and> sk_in (k_socks (el_kernel el') fd) = rest
     \<and> handle_read_ops now el fd = [LPush uid r now]"
proof -
  have ok: "payload_ok OPCODE_PUSH (record_to_bytes r)" by (simp add: payload_ok_def expected_payload_def)
  obtain c1 sk where
    h: "handle_read n now el fd = process_command n now (set_conn (set_sock el fd sk) fd (Some c1)) fd"
    "conn_inv n c1" "cn_state c1 = Process" "header_opcode c1 = OPCODE_PUSH" "header_user_id c1 = uid"
    "slice 9 (9 + length (record_to_bytes r)) (cn_rbuf c1) = record_to_bytes r" "sk_in sk = rest"
    "el_inv n (set_conn (set_conn (set_sock el fd sk) fd (Some c1)) fd None)"
    "handle_read_ops now el fd = command_ops now c1"
    by (rule handle_read_request [OF assms(1-5) ok])
  have rec: "slice 9 26 (cn_rbuf c1) = record_to_bytes r" using h(6) by simp
  let ?el1 = "set_conn (set_sock el fd sk) fd (Some c1)"
  have c1: "el_connections ?el1 fd = Some c1" and sz: "conn_sizes n c1" using h(2) by (simp_all add: conn_inv_def)
  have ops: "command_ops now c1 = [LPush uid r now]" by (simp add: command_ops_def h(4,5) rec)
  obtain s1 where s1: "get_or_create (el_store ?el1) (header_user_id c1) = Inr s1"
    using store_push_room [of "el_store el" uid r now] assms(1,6)
    by (auto simp: store_push_def h(5) el_inv_def split: sum.splits)
  from process_push [OF h(8) c1 sz h(4), of now] s1 obtain el' where
    el': "process_command n now ?el1 fd = Done el'" "el_inv n el'" "el_effect n ?el1 (map Logged [LPush uid r now]) el'"
    "el_connections el' fd = Some ((write_ok_response c1)\<lparr>cn_rbuf_pos := 0\<rparr>)" by (auto simp: ops)
  have "conn_output ((write_ok_response c1)\<lparr>cn_rbuf_pos := 0\<rparr>) = response_frame STATUS_OK []"
    using write_response_frame(2) [OF sz] by (simp add: write_ok_response_def)
  moreover have "k_socks (el_kernel el') fd = sk \<and> k_epoll (el_kernel el') fd = Some EpollOut"
    using process_command_kernel [OF el'(1,4) c1] by (simp add: set_conn_def set_sock_def)
  ultimately show ?thesis using h(1,7,9) ops el' by (simp add: el_effect_def)
qed

text \<open>
  C11: a PUSH request is served from socket to response. However its bytes arrive, when the store has
  a slot for the user the handler completes: the log has grown by the entry, the user's history by
  the record under the same timestamp, the success response is ready and the loop waits to send it,
  and the bytes of the next request are untouched.
\<close>

theorem push_request_served:
  assumes "el_inv n el" and "el_connections el fd = Some c" and "cn_state c \<in> {ReadHeader, ReadPayload}"
    and "reads_flow (k_socks (el_kernel el) fd)"
    and "received c @ sk_in (k_socks (el_kernel el) fd) = request_frame OPCODE_PUSH uid (record_to_bytes r) @ rest"
    and "uid \<in> dom (store_view (el_store el)) \<or> card (dom (store_view (el_store el))) < store_slots (el_store el)"
  shows "\<exists>el' c'. handle_read n now el fd = Done el' \<and> el_inv n el'
     \<and> store_view (el_store el') = abs_push n (store_view (el_store el)) uid r now
     \<and> aw_stream (el_aof el') = aw_stream (el_aof el) @ entry_bytes (LPush uid r now)
     \<and> el_connections el' fd = Some c' \<and> conn_output c' = response_frame STATUS_OK []
     \<and> k_epoll (el_kernel el') fd = Some EpollOut \<and> sk_in (k_socks (el_kernel el') fd) = rest"
  using push_request_ok [OF assms] by blast

theorem push_request_served_witness:
  "\<exists>el'. handle_read 2 40 (sample_loop (request_frame OPCODE_PUSH 7 (record_to_bytes default_record) @ [1])) 5 = Done el'
     \<and> store_view (el_store el') = [7 \<mapsto> ([default_record], 40)]"
proof -
  let ?in = "request_frame OPCODE_PUSH 7 (record_to_bytes default_record) @ [1]"
  have "received (connection_new 2 (\<lambda>_. 0) 5) = []" "cn_state (connection_new 2 (\<lambda>_. 0) 5) \<in> {ReadHeader, ReadPayload}"
    by (simp_all add: received_def connection_new_def)
  with push_request_served [OF sample_loop_inv(1) sample_loop_fields(1) _ sample_loop_fields(5),
      where input1 = ?in and uid = 7 and r = default_record and rest = "[1]" and now = 40]
  show ?thesis
    by (auto simp: sample_loop_fields sample_store_ok abs_push_def hist_records_def)
qed

text \<open>
  C18: a DEL request is served from socket to response: its entry is logged, its user and no other
  loses the history, present or not, the success response is ready to be sent, and the bytes of the
  next request are untouched.
\<close>

theorem del_request_served:
  assumes "el_inv n el" and "el_connections el fd = Some c" and "cn_state c \<in> {ReadHeader, ReadPayload}"
    and "reads_flow (k_socks (el_kernel el) fd)"
    and "received c @ sk_in (k_socks (el_kernel el) fd) = request_frame OPCODE_DEL uid [] @ rest"
  shows "\<exists>el' c'. handle_read n now el fd = Done el' \<and> el_inv n el'
     \<and> store_view (el_store el') = (store_view (el_store el))(uid := None)
     \<and> aw_stream (el_aof el') = aw_stream (el_aof el) @ entry_bytes (LDel uid now)
     \<and> el_connections el' fd = Some c' \<and> conn_output c' = response_frame STATUS_OK []
     \<and> k_epoll (el_kernel el') fd = Some EpollOut \<and> sk_in (k_socks (el_kernel el') fd) = rest"
proof -
  have ok: "payload_ok OPCODE_DEL []" by (simp add: payload_ok_def expected_payload_def const_defs)
  obtain c1 sk where
    h: "handle_read n now el fd = process_command n now (set_conn (set_sock el fd sk) fd (Some c1)) fd"
    "conn_inv n c1" "cn_state c1 = Process" "header_opcode c1 = OPCODE_DEL" "header_user_id c1 = uid" "sk_in sk = rest"
    "el_inv n (set_conn (set_conn (set_sock el fd sk) fd (Some c1)) fd None)"
    by (rule handle_read_request [OF assms(1-5) ok, of now]) blast
  let ?el1 = "set_conn (set_sock el fd sk) fd (Some c1)"
  have c1: "el_connections ?el1 fd = Some c1" and sz: "conn_sizes n c1" using h(2) by (simp_all add: conn_inv_def)
  have ops: "command_ops now c1 = [LDel uid now]" by (simp add: command_ops_def h(4,5)) (simp add: const_defs)
  from process_del [OF h(7) c1 sz h(4), of now] obtain el' where
    el': "process_command n now ?el1 fd = Done el'" "el_inv n el'" "el_effect n ?el1 (map Logged [LDel uid now]) el'"
    "el_connections el' fd = Some ((write_ok_response c1)\<lparr>cn_rbuf_pos := 0\<rparr>)" by (auto simp: ops)
  have "conn_output ((write_ok_response c1)\<lparr>cn_rbuf_pos := 0\<rparr>) = response_frame STATUS_OK []"
    using write_response_frame(2) [OF sz] by (simp add: write_ok_response_def)
  moreover have "k_socks (el_kernel el') fd = sk \<and> k_epoll (el_kernel el') fd = Some EpollOut"
    using process_command_kernel [OF el'(1,4) c1] by (simp add: set_conn_def set_sock_def)
  ultimately show ?thesis using h(1,6) el' by (simp add: el_effect_def abs_erase_def)
qed

theorem del_request_served_witness:
  "\<exists>el'. handle_read 2 40 (sample_loop (request_frame OPCODE_DEL 7 [] @ [1])) 5 = Done el'
     \<and> aw_stream (el_aof el') = entry_bytes (LDel 7 40) \<and> sk_in (k_socks (el_kernel el') 5) = [1]"
proof -
  let ?in = "request_frame OPCODE_DEL 7 [] @ [1]"
  have "received (connection_new 2 (\<lambda>_. 0) 5) = []" "cn_state (connection_new 2 (\<lambda>_. 0) 5) \<in> {ReadHeader, ReadPayload}"
    by (simp_all add: received_def connection_new_def)
  with del_request_served [OF sample_loop_inv(1) sample_loop_fields(1) _ sample_loop_fields(5),
      where input1 = ?in and uid = 7 and rest = "[1]" and now = 40]
  show ?thesis by (auto simp: sample_loop_fields sample_writer_ok)
qed

text \<open>
  C16: a GET request with a valid count is served from socket to response: the response is the reply
  computed from the user's history, and neither the store nor the log changes. A count outside the
  valid range closes the connection instead.
\<close>

theorem get_request_served:
  assumes "el_inv n el" and "el_connections el fd = Some c" and "cn_state c \<in> {ReadHeader, ReadPayload}"
    and "reads_flow (k_socks (el_kernel el) fd)"
    and "received c @ sk_in (k_socks (el_kernel el) fd) = request_frame OPCODE_GET uid (u16_to_le_bytes k) @ rest"
  shows "\<exists>el'. handle_read n now el fd = Done el' \<and> el_inv n el' \<and> el_effect n el [] el'
     \<and> (if 1 \<le> unat k \<and> unat k \<le> n
        then \<exists>c'. el_connections el' fd = Some c' \<and> cn_state c' = WriteResponse
               \<and> conn_output c' = get_reply (store_view (el_store el)) uid (unat k)
               \<and> k_epoll (el_kernel el') fd = Some EpollOut
        else el_connections el' fd = None)"
proof -
  have ok: "payload_ok OPCODE_GET (u16_to_le_bytes k)" by (simp add: payload_ok_def expected_payload_def const_defs)
  obtain c1 sk where
    h: "handle_read n now el fd = process_command n now (set_conn (set_sock el fd sk) fd (Some c1)) fd"
    "conn_inv n c1" "cn_state c1 = Process" "header_opcode c1 = OPCODE_GET" "header_user_id c1 = uid"
    "slice 9 (9 + length (u16_to_le_bytes k)) (cn_rbuf c1) = u16_to_le_bytes k" "sk_in sk = rest"
    "el_inv n (set_conn (set_conn (set_sock el fd sk) fd (Some c1)) fd None)"
    "handle_read_ops now el fd = command_ops now c1"
    by (rule handle_read_request [OF assms(1-5) ok])
  let ?el1 = "set_conn (set_sock el fd sk) fd (Some c1)"
  have c1: "el_connections ?el1 fd = Some c1" and sz: "conn_sizes n c1" using h(2) by (simp_all add: conn_inv_def)
  have k: "get_count_field c1 = k" using h(6) by (simp add: get_count_field_def)
  have z: "k = 0 \<longleftrightarrow> \<not> 1 \<le> unat k" by (simp add: unat_eq_0 not_less_eq_eq)
  have v: "validate_get_count n c1
      = (if 1 \<le> unat k \<and> unat k \<le> n then Inr k else Inl (Protocol (BadGetCount k n)))"
    using z by (auto simp: validate_get_count_def k Let_def)
  from process_get [OF h(8) c1 sz h(4), of now] obtain el' where
    el': "process_command n now ?el1 fd = Done el'" "el_inv n el'" "el_effect n ?el1 [] el'"
    "case validate_get_count n c1 of
          Inl e \<Rightarrow> el_connections el' fd = None
        | Inr k \<Rightarrow> \<exists>c'. el_connections el' fd = Some c' \<and> cn_state c' = WriteResponse
              \<and> conn_output c' = get_reply (store_view (el_store ?el1)) (header_user_id c1) (unat k)" by blast
  have ep: "k_epoll (el_kernel el') fd = Some EpollOut" if "el_connections el' fd = Some c'" for c'
    using process_command_kernel [OF el'(1) that c1] by simp
  have "el_effect n el [] el'" using el'(3) by (simp add: el_effect_def)
  with h(1) el' ep show ?thesis by (cases "1 \<le> unat k \<and> unat k \<le> n") (auto simp: v h(5))
qed

theorem get_request_served_witness:
  "\<exists>el' c'. handle_read 2 40 (sample_loop (request_frame OPCODE_GET 7 (u16_to_le_bytes 2))) 5 = Done el'
     \<and> el_connections el' 5 = Some c' \<and> conn_output c' = response_frame STATUS_NOT_FOUND []"
proof -
  let ?in = "request_frame OPCODE_GET 7 (u16_to_le_bytes 2)"
  have "received (connection_new 2 (\<lambda>_. 0) 5) = []" "cn_state (connection_new 2 (\<lambda>_. 0) 5) \<in> {ReadHeader, ReadPayload}"
    by (simp_all add: received_def connection_new_def)
  with get_request_served [OF sample_loop_inv(1) sample_loop_fields(1) _ sample_loop_fields(5),
      where input1 = ?in and uid = 7 and k = 2 and rest = "[]" and now = 40]
  show ?thesis by (auto simp: sample_loop_fields sample_store_ok get_reply_def)
qed

text \<open>
  C15: the handler for readable sockets is safe for every state and every input. It never blocks for
  good; when it returns, the invariant of the loop holds again and store and log have changed by the
  same operations, stamped with the time of the call; it panics only when the store is full.
\<close>

theorem event_handler_safe:
  assumes "el_inv n el"
  shows "(case handle_read n now el fd of
            Done el' \<Rightarrow> el_inv n el'
              \<and> store_view (el_store el') = abs_replay n (store_view (el_store el)) (handle_read_ops now el fd)
              \<and> aw_stream (el_aof el')
                  = aw_stream (el_aof el) @ concat (map entry_bytes (handle_read_ops now el fd))
              \<and> (\<forall>x \<in> set (handle_read_ops now el fd). op_ts x = now)
          | Blocked \<Rightarrow> False
          | Crashed p w \<Rightarrow> card (dom (store_view (el_store el))) = store_slots (el_store el))"
proof -
  have "el_effect n el (map Logged ops) el' \<Longrightarrow>
      store_view (el_store el') = abs_replay n (store_view (el_store el)) ops
      \<and> aw_stream (el_aof el') = aw_stream (el_aof el) @ concat (map entry_bytes ops)" for ops el'
    by (simp add: el_effect_def abs_run_Logged)
  with handle_read_ok [OF assms, of now fd] handle_read_ops_ts [of _ now el fd] show ?thesis
    unfolding handler_ok_def by (cases "handle_read n now el fd") auto
qed

theorem event_handler_safe_witness:
  "case handle_read 2 40 (sample_loop [1, 2, 3]) 5 of Done el' \<Rightarrow> el_inv 2 el' | Blocked \<Rightarrow> False | Crashed p w \<Rightarrow> False"
  using event_handler_safe [OF sample_loop_inv(1), of "[1, 2, 3]" 40 5]
  by (cases "handle_read 2 40 (sample_loop [1, 2, 3]) 5") (auto simp: sample_loop_fields sample_store_ok)

text \<open>
  C37: a PUSH of a new user on a full store brings the server down after its entry was logged: the
  handler panics, and the stream that the log then holds ends with an entry that needs the slot that
  is not there, so the next recovery meets it again.
\<close>

theorem push_on_full_store_crashes:
  assumes "el_inv n (set_conn el fd None)" and "el_connections el fd = Some c" and "conn_sizes n c"
    and "header_opcode c = OPCODE_PUSH" and "header_user_id c \<notin> dom (store_view (el_store el))"
    and "card (dom (store_view (el_store el))) = store_slots (el_store el)"
  shows "\<exists>e w. process_command n now el fd = Crashed e w
     \<and> aw_stream w = aw_stream (el_aof el)
         @ entry_bytes (LPush (header_user_id c) (record_from_bytes (slice 9 26 (cn_rbuf c))) now)"
proof -
  have "store_inv (el_store el)" using assms(1) by (simp add: el_inv_def)
  from get_or_create_full [OF this] assms(5,6) obtain e where "get_or_create (el_store el) (header_user_id c) = Inl e"
    by (auto simp: domIff)
  with process_push [OF assms(1-4), of now] show ?thesis by (auto simp: command_ops_def assms(4))
qed

text \<open>A loop whose store has no free slot, and a connection that pushes for a new user.\<close>

definition full_store :: store where
  "full_store = projr (store_run sample_store (map (\<lambda>u. LPush u default_record 1) [1, 2, 3, 4]))"

lemma full_store_ok: "store_inv full_store" "dom (store_view full_store) = {1, 2, 3, 4}" "store_slots full_store = 4"
  "st_capacity full_store = 2" "store_view full_store 3 = Some ([default_record], 1)"
proof -
  let ?ops = "map (\<lambda>u. LPush u default_record 1) [1, 2, 3, 4]"
  have "dom (store_view sample_store) \<union> op_uid ` set ?ops \<subseteq> {1, 2, 3, 4}"
    "card {1, 2, 3, 4 :: u32} \<le> store_slots sample_store" by (simp_all add: sample_store_ok)
  from es.run_view [OF sample_store_ok(1) _ this] obtain s' where
    s': "es.run sample_store ?ops = Inr s'" "store_inv s'" "store_view s' = abs_replay 2 Map.empty ?ops"
    "store_slots s' = 4" "unat (st_capacity s') = unat (2 :: u16)"
    by (auto simp: sample_store_ok simp del: abs_replay_simps)
  then have f: "full_store = s'" by (simp add: full_store_def store_run_eq)
  show "store_inv full_store" "store_slots full_store = 4" using s' by (simp_all add: f)
  show "st_capacity full_store = 2" using s'(5) unfolding f by (simp only: word_unat_eq_iff)
  show "dom (store_view full_store) = {1, 2, 3, 4}" unfolding f s'(3) by (simp add: dom_abs_push) auto
  show "store_view full_store 3 = Some ([default_record], 1)"
    unfolding f s'(3) by (simp add: abs_push_def hist_records_def)
qed

theorem push_on_full_store_crashes_witness:
  "\<exists>e w. process_command 2 9 (set_conn ((sample_loop [])\<lparr>el_store := full_store\<rparr>) 5 (Some sample_push_conn)) 5
     = Crashed e w \<and> length (aw_stream w) = 32"
proof -
  let ?el = "set_conn ((sample_loop [])\<lparr>el_store := full_store\<rparr>) 5 (Some sample_push_conn)"
  have "el_inv 2 (set_conn ?el 5 None)"
    using sample_loop_inv(1) [of "[]"] by (auto simp: el_inv_def conns_ok_def full_store_ok)
  with push_on_full_store_crashes [of 2 ?el 5 sample_push_conn 9] show ?thesis
    using full_store_ok(2) [unfolded dom_store_view]
    by (auto simp: sample_conn_sizes sample_conn_fields full_store_ok sample_loop_fields sample_writer_ok)
qed

text \<open>
  Eviction has a guard against lost updates: draining the queue of expired candidates removes
  exactly the users whose last write is still the one the candidate was sampled with; every other
  user, in particular one written since, keeps the history.
\<close>

lemma eviction_guard:
  assumes "el_inv n el"
  shows "store_view (el_store (drain_expired_keys el)) uid =
     (if \<exists>c \<in> set (spsc_list EXPIRED_KEYS_CAP (el_expired_out el)).
           cd_uid c = uid \<and> (\<exists>h. store_view (el_store el) uid = Some (h, cd_last_write_ts c))
      then None else store_view (el_store el) uid)"
  using drain_expired_keys_ok(2) [OF assms] by (simp add: el_effect_def abs_run_evictions)

text \<open>A candidate for user 3, in a loop whose store has the user.\<close>

definition sample_evicting :: "u64 \<Rightarrow> event_loop" where
  "sample_evicting ts = (sample_loop [])\<lparr>el_store := full_store,
     el_expired_out := snd (spsc_push EXPIRED_KEYS_CAP (el_expired_out (sample_loop [])) \<lparr>cd_uid = 3, cd_last_write_ts = ts\<rparr>)\<rparr>"

lemma sample_evicting_ok:
  "el_inv 2 (sample_evicting ts)" "el_store (sample_evicting ts) = full_store"
  "spsc_list EXPIRED_KEYS_CAP (el_expired_out (sample_evicting ts)) = [\<lparr>cd_uid = 3, cd_last_write_ts = ts\<rparr>]"
proof -
  have "spsc_inv EXPIRED_KEYS_CAP (el_expired_out (sample_loop []))"
    using sample_loop_inv(1) [of "[]"] by (simp add: el_inv_def)
  moreover have "length (spsc_list EXPIRED_KEYS_CAP (el_expired_out (sample_loop []))) < EXPIRED_KEYS_CAP"
    unfolding sample_loop_inv(2) by (simp add: EXPIRED_KEYS_CAP_def)
  ultimately obtain q where
    q: "spsc_push EXPIRED_KEYS_CAP (el_expired_out (sample_loop [])) \<lparr>cd_uid = 3, cd_last_write_ts = ts\<rparr> = (True, q)"
    "spsc_inv EXPIRED_KEYS_CAP q" "spsc_list EXPIRED_KEYS_CAP q = [\<lparr>cd_uid = 3, cd_last_write_ts = ts\<rparr>]"
    using spq.push_add [of EXPIRED_KEYS_CAP "el_expired_out (sample_loop [])" "\<lparr>cd_uid = 3, cd_last_write_ts = ts\<rparr>"]
    unfolding sample_loop_inv(2) by auto
  then show "el_inv 2 (sample_evicting ts)" "el_store (sample_evicting ts) = full_store"
    "spsc_list EXPIRED_KEYS_CAP (el_expired_out (sample_evicting ts)) = [\<lparr>cd_uid = 3, cd_last_write_ts = ts\<rparr>]"
    using sample_loop_inv(1) [of "[]"] by (simp_all add: sample_evicting_def el_inv_def conns_ok_def full_store_ok)
qed

end
