(* ===== verification/Recovery.thy ===== *)
theory Recovery
  imports Snapshot Aof "HOL-Library.Sublist"
begin

text \<open>
  \<^verbatim>\<open>src/recovery.rs\<close>: load the snapshot, then replay the log. The replay loop is total; on a file
  that is a run of entries followed by at most one truncated entry it applies exactly the entries
  newer than the snapshot, in their order (\<open>replay_loop_entries\<close>). Cutting the file at any byte
  gives such a file for a prefix of the entries (\<open>entries_take\<close>).
\<close>

section \<open>The model\<close>

text \<open>The entry header at a position.\<close>

definition aof_uid :: "bytes \<Rightarrow> nat \<Rightarrow> u32" where
  "aof_uid data pos = u32_from_le_bytes (slice (pos + 1) (pos + 5) data)"

definition aof_write_ts :: "bytes \<Rightarrow> nat \<Rightarrow> u64" where
  "aof_write_ts data pos = u64_from_le_bytes (slice (pos + 5) (pos + 13) data)"

definition aof_payload_len :: "bytes \<Rightarrow> nat \<Rightarrow> u16" where
  "aof_payload_len data pos = u16_from_le_bytes (slice (pos + 13) (pos + 15) data)"

text \<open>The \<^verbatim>\<open>match opcode\<close> of the loop; the result carries the increment of \<open>replayed\<close>.\<close>

definition replay_entry :: "store \<Rightarrow> u8 \<Rightarrow> u32 \<Rightarrow> u64 \<Rightarrow> bytes \<Rightarrow> panic + (store \<times> u64)" where
  "replay_entry s opcode uid write_ts payload =
     (if opcode = OPCODE_PUSH \<and> length payload = 17
      then let r = record_from_bytes payload
           in case get_or_create s uid of
                Inl e \<Rightarrow> Inl e
              | Inr s1 \<Rightarrow> Inr (buf_push s1 uid r write_ts, 1)
      else if opcode = OPCODE_DEL then Inr (store_erase s uid, 1)
      else Inr (s, 0))"

function replay_loop :: "bytes \<Rightarrow> u64 \<Rightarrow> nat \<Rightarrow> store \<Rightarrow> u64 \<Rightarrow> panic + (store \<times> u64)" where
  "replay_loop data snapshot_ts pos s replayed =
     (if length data < pos + 15 then Inr (s, replayed)
      else let opcode = data ! pos;
               uid = aof_uid data pos;
               write_ts = aof_write_ts data pos;
               payload_len = unat (aof_payload_len data pos);
               pos1 = pos + 15
           in if length data < pos1 + payload_len then Inr (s, replayed)
              else let payload = slice pos1 (pos1 + payload_len) data;
                       pos2 = pos1 + payload_len
                   in if write_ts \<le> snapshot_ts then replay_loop data snapshot_ts pos2 s replayed
                      else case replay_entry s opcode uid write_ts payload of
                             Inl e \<Rightarrow> Inl e
                           | Inr (s', k) \<Rightarrow> replay_loop data snapshot_ts pos2 s' (replayed + k))"
  by pat_completeness auto
termination
  by (relation "measure (\<lambda>(data, ts, pos, s, n). length data - pos)") auto

declare replay_loop.simps [simp del]

definition replay_aof ::
  "(string \<Rightarrow> io_error + bytes) \<Rightarrow> store \<Rightarrow> string \<Rightarrow> u64 \<Rightarrow> panic + store weloxs_result" where
  "replay_aof read_file s path snapshot_ts =
     (case read_file path of
        Inl NotFound \<Rightarrow> Inr (Inr s)
      | Inl e \<Rightarrow> Inr (Inl (Io e))
      | Inr data \<Rightarrow>
          (case replay_loop data snapshot_ts 0 s 0 of
             Inl p \<Rightarrow> Inl p
           | Inr (s', replayed) \<Rightarrow> Inr (Inr s')))"

definition recover ::
  "(string \<Rightarrow> io_error + bytes) \<Rightarrow> store \<Rightarrow> string \<Rightarrow> string \<Rightarrow> panic + store weloxs_result" where
  "recover read_file s snap_dir aof =
     (case snapshot_load read_file snap_dir s of
        Inl p \<Rightarrow> Inl p
      | Inr (Inl e) \<Rightarrow> Inr (Inl e)
      | Inr (Inr (snapshot_ts, s1)) \<Rightarrow> replay_aof read_file s1 aof snapshot_ts)"

section \<open>Replaying entries\<close>

definition op_opcode :: "log_op \<Rightarrow> u8" where
  "op_opcode x = (case x of LPush _ _ _ \<Rightarrow> OPCODE_PUSH | LDel _ _ \<Rightarrow> OPCODE_DEL)"

definition op_payload :: "log_op \<Rightarrow> bytes" where
  "op_payload x = (case x of LPush _ r _ \<Rightarrow> record_to_bytes r | LDel _ _ \<Rightarrow> [])"

lemma entry_bytes_eq:
  "entry_bytes x = op_opcode x # u32_to_le_bytes (op_uid x) @ u64_to_le_bytes (op_ts x)
     @ u16_to_le_bytes (word_of_nat (length (op_payload x))) @ op_payload x"
  by (cases x) (simp_all add: op_opcode_def op_payload_def)

lemma op_payload_length: "length (op_payload x) \<le> 17"
  by (cases x) (simp_all add: op_payload_def)

text \<open>The fields the loop reads at the start of an entry, complete or cut after its header.\<close>

lemma entry_header_fields:
  assumes "drop pos data = op_opcode x # u32_to_le_bytes (op_uid x) @ u64_to_le_bytes (op_ts x)
     @ u16_to_le_bytes (word_of_nat (length (op_payload x))) @ t"
  shows "\<not> length data < pos + 15" and "data ! pos = op_opcode x" and "aof_uid data pos = op_uid x"
    and "aof_write_ts data pos = op_ts x" and "unat (aof_payload_len data pos) = length (op_payload x)"
    and "drop (pos + 15) data = t"
proof -
  let ?h = "op_opcode x # u32_to_le_bytes (op_uid x) @ u64_to_le_bytes (op_ts x)
     @ u16_to_le_bytes (word_of_nat (length (op_payload x)))"
  have d: "drop pos data = ?h @ t" and hl: "length ?h = 15" using assms by simp_all
  have "length (drop pos data) = 15 + length t" unfolding d using hl by simp
  then show len: "\<not> length data < pos + 15" by simp
  have "data ! pos = drop pos data ! 0" using len by (simp add: not_less)
  then show "data ! pos = op_opcode x" by (simp add: d)
  show "aof_uid data pos = op_uid x"
    unfolding aof_uid_def by (simp only: slice_drop d) (simp add: slice_def)
  show "aof_write_ts data pos = op_ts x"
    unfolding aof_write_ts_def by (simp only: slice_drop d) (simp add: slice_def)
  have "length (op_payload x) < 2 ^ 16" using op_payload_length [of x] by simp
  then show "unat (aof_payload_len data pos) = length (op_payload x)"
    unfolding aof_payload_len_def by (simp only: slice_drop d) (simp add: slice_def unat_of_nat)
  show "drop (pos + 15) data = t" using drop_consume [OF d] hl by simp
qed

lemma replay_entry_op:
  "replay_entry s (op_opcode x) (op_uid x) (op_ts x) (op_payload x)
     = (case es.apply_op s x of Inl e \<Rightarrow> Inl e | Inr s' \<Rightarrow> Inr (s', 1))"
  by (cases x) (simp_all add: replay_entry_def op_opcode_def op_payload_def store_push_def const_defs
      split: sum.split)

text \<open>A tail that is shorter than the entry it announces: the loop stops there.\<close>

definition incomplete_entry :: "bytes \<Rightarrow> bool" where
  "incomplete_entry bs \<longleftrightarrow>
     length bs < 15 \<or> length bs < 15 + unat (u16_from_le_bytes (slice 13 15 bs))"

lemma replay_loop_incomplete:
  assumes "incomplete_entry (drop pos data)" and "pos \<le> length data"
  shows "replay_loop data ts pos s n = Inr (s, n)"
proof -
  have "unat (aof_payload_len data pos) = unat (u16_from_le_bytes (slice 13 15 (drop pos data)))"
    by (simp only: aof_payload_len_def slice_drop)
  with assms show ?thesis
    by (subst replay_loop.simps) (auto simp: incomplete_entry_def Let_def)
qed

lemma replay_loop_step:
  assumes "drop pos data = entry_bytes x @ rest"
  shows "replay_loop data ts pos s n =
     (if op_ts x \<le> ts then replay_loop data ts (pos + length (entry_bytes x)) s n
      else case es.apply_op s x of
             Inl e \<Rightarrow> Inl e
           | Inr s' \<Rightarrow> replay_loop data ts (pos + length (entry_bytes x)) s' (n + 1))"
proof -
  note f = entry_header_fields [of pos data x "op_payload x @ rest"]
  have d: "drop pos data = op_opcode x # u32_to_le_bytes (op_uid x) @ u64_to_le_bytes (op_ts x)
     @ u16_to_le_bytes (word_of_nat (length (op_payload x))) @ op_payload x @ rest"
    using assms by (simp add: entry_bytes_eq)
  have "length (drop (pos + 15) data) = length (op_payload x @ rest)" by (simp only: f(6) [OF d])
  then have l: "\<not> length data < pos + 15 + length (op_payload x)" using f(1) [OF d] by simp
  have p: "slice (pos + 15) (pos + 15 + length (op_payload x)) data = op_payload x"
    by (simp only: slice_drop_0 f(6) [OF d]) simp
  have e: "pos + length (entry_bytes x) = pos + 15 + length (op_payload x)"
    by (simp add: entry_bytes_eq)
  show ?thesis
    unfolding e by (subst replay_loop.simps)
      (simp add: f [OF d] Let_def l p replay_entry_op split: sum.split)
qed

lemma replay_loop_entries:
  assumes "drop pos data = concat (map entry_bytes ops) @ rest" and "incomplete_entry rest"
    and "pos \<le> length data"
  shows "replay_loop data ts pos s n =
     (case es.run s (filter (\<lambda>x. ts < op_ts x) ops) of
        Inl e \<Rightarrow> Inl e
      | Inr s' \<Rightarrow> Inr (s', n + word_of_nat (length (filter (\<lambda>x. ts < op_ts x) ops))))"
  using assms
proof (induction ops arbitrary: pos s n)
  case Nil
  then show ?case by (simp add: replay_loop_incomplete)
next
  case (Cons x ops)
  have d: "drop pos data = entry_bytes x @ concat (map entry_bytes ops) @ rest"
    using Cons.prems(1) by simp
  have "length (drop pos data) \<ge> length (entry_bytes x)" by (simp only: d) simp
  then have le: "pos + length (entry_bytes x) \<le> length data" using Cons.prems(3) by simp
  note IH = Cons.IH [OF drop_consume [OF d] Cons.prems(2) le]
  show ?case
    unfolding replay_loop_step [OF d]
    by (auto simp: IH not_less add.assoc split: sum.split)
qed

section \<open>Cutting the file anywhere\<close>

lemma strict_prefix_incomplete:
  assumes "strict_prefix bs (entry_bytes x)"
  shows "incomplete_entry bs"
proof (cases "length bs < 15")
  case False
  let ?h = "op_opcode x # u32_to_le_bytes (op_uid x) @ u64_to_le_bytes (op_ts x)
     @ u16_to_le_bytes (word_of_nat (length (op_payload x)))"
  have e: "entry_bytes x = ?h @ op_payload x" by (simp add: entry_bytes_eq)
  from assms obtain t where t: "entry_bytes x = bs @ t" by (auto simp: strict_prefix_def prefix_def)
  have hl: "length ?h = 15" by simp
  have "take 15 bs = take 15 (entry_bytes x)" using False t by simp
  also have "\<dots> = ?h" unfolding e using hl by simp
  finally have "bs = ?h @ drop 15 bs" by (metis append_take_drop_id)
  then have d: "drop 0 bs = op_opcode x # u32_to_le_bytes (op_uid x) @ u64_to_le_bytes (op_ts x)
     @ u16_to_le_bytes (word_of_nat (length (op_payload x))) @ drop 15 bs" by simp
  have "unat (u16_from_le_bytes (slice 13 15 bs)) = length (op_payload x)"
    using entry_header_fields(5) [OF d] by (simp add: aof_payload_len_def)
  moreover have "length bs < length (entry_bytes x)" using assms by (rule prefix_length_less)
  ultimately show ?thesis by (simp add: incomplete_entry_def entry_bytes_eq)
qed (simp add: incomplete_entry_def)

lemma entries_take:
  "\<exists>j rest. take k (concat (map entry_bytes ops)) = concat (map entry_bytes (take j ops)) @ rest
     \<and> incomplete_entry rest
     \<and> (\<forall>i \<le> length ops. length (concat (map entry_bytes (take i ops))) \<le> k \<longrightarrow> i \<le> j)"
proof (induction ops arbitrary: k)
  case Nil
  then show ?case by (intro exI [of _ 0]) (simp add: incomplete_entry_def)
next
  case (Cons x ops)
  show ?case
  proof (cases "k < length (entry_bytes x)")
    case True
    then have "strict_prefix (take k (entry_bytes x)) (entry_bytes x)"
      by (auto simp: strict_prefix_def take_is_prefix)
    then have "incomplete_entry (take k (entry_bytes x))" by (rule strict_prefix_incomplete)
    moreover have "i = 0" if "length (concat (map entry_bytes (take i (x # ops)))) \<le> k" for i
      using that True by (cases i) simp_all
    ultimately show ?thesis
      using True by (intro exI [of _ 0] exI [of _ "take k (entry_bytes x)"]) simp
  next
    case False
    from Cons.IH [of "k - length (entry_bytes x)"] obtain j rest where
      j: "take (k - length (entry_bytes x)) (concat (map entry_bytes ops))
         = concat (map entry_bytes (take j ops)) @ rest" "incomplete_entry rest"
      "\<forall>i \<le> length ops. length (concat (map entry_bytes (take i ops))) \<le> k - length (entry_bytes x) \<longrightarrow> i \<le> j"
      by blast
    have "i \<le> Suc j" if "i \<le> length (x # ops)" "length (concat (map entry_bytes (take i (x # ops)))) \<le> k" for i
      using that False j(3) by (cases i) (simp_all add: le_diff_conv2 add.commute)
    with False j(1,2) show ?thesis by (intro exI [of _ "Suc j"] exI [of _ rest]) simp
  qed
qed

lemma incomplete_Nil [simp]: "incomplete_entry []"
  by (simp add: incomplete_entry_def)

section \<open>Recovery from files\<close>

lemma histories_ok_apply:
  assumes "0 < cap" and "histories_ok cap A"
  shows "histories_ok cap (abs_apply cap A x)"
  using assms by (cases x) (auto simp: histories_ok_def abs_push_def abs_erase_def split: if_splits)

lemma histories_ok_replay: "0 < cap \<Longrightarrow> histories_ok cap A \<Longrightarrow> histories_ok cap (abs_replay cap A ops)"
  by (induction ops arbitrary: A) (simp_all add: histories_ok_apply)

lemma histories_ok_run:
  assumes "0 < n" and "histories_ok n A"
  shows "histories_ok n (abs_run n A evs)"
  using assms
proof (induction evs arbitrary: A)
  case (Cons e evs)
  have "histories_ok n (abs_event n A e)"
    using Cons.prems by (cases e) (auto simp: histories_ok_apply, auto simp: histories_ok_def abs_erase_def split: if_splits)
  with Cons show ?case by simp
qed simp

lemma histories_ok_empty [simp]: "histories_ok cap Map.empty"
  by (simp add: histories_ok_def)

text \<open>The log file: a run of entries and at most one truncated entry.\<close>

lemma replay_aof_entries:
  assumes "store_inv s" and "read_file path = Inr (concat (map entry_bytes ops) @ rest)"
    and "incomplete_entry rest" and "finite K" and "dom (store_view s) \<union> op_uid ` set ops \<subseteq> K"
    and "card K \<le> store_slots s"
  shows "\<exists>s'. replay_aof read_file s path ts = Inr (Inr s') \<and> store_inv s'
     \<and> store_view s' = abs_replay (unat (st_capacity s)) (store_view s) (filter (\<lambda>x. ts < op_ts x) ops)"
proof -
  let ?ops = "filter (\<lambda>x. ts < op_ts x) ops"
  have "dom (store_view s) \<union> op_uid ` set ?ops \<subseteq> K" using assms(5) by auto
  from es.run_view [OF assms(1,4) this assms(6)] obtain s' where
    "es.run s ?ops = Inr s'" "store_inv s'" "store_view s' = abs_replay (unat (st_capacity s)) (store_view s) ?ops"
    by blast
  then show ?thesis
    using replay_loop_entries [of 0 "concat (map entry_bytes ops) @ rest" ops rest ts s 0] assms(2,3)
    by (simp add: replay_aof_def)
qed

lemma recover_files:
  assumes s: "store_inv s" "store_view s = Map.empty"
    and snap: "read_file (bin_path dir) = Inr (snapshot_bytes ts order A @ junk)" "hash_order A order"
      "histories_ok (unat (st_capacity s)) A"
    and log: "read_file path = Inr (concat (map entry_bytes ops) @ rest)" "incomplete_entry rest"
    and K: "finite K" "dom A \<union> op_uid ` set ops \<subseteq> K" "card K \<le> store_slots s" "store_slots s < 2 ^ 32"
  shows "\<exists>s'. recover read_file s dir path = Inr (Inr s') \<and> store_inv s'
     \<and> store_view s' = abs_replay (unat (st_capacity s)) A (filter (\<lambda>x. ts < op_ts x) ops)"
proof -
  have "length order \<le> card K"
    unfolding hash_order_length [OF snap(2)] using K(1,2) by (intro card_mono) auto
  then have "length order \<le> store_slots s" "length order < 2 ^ 32" using K(3,4) by simp_all
  from parse_snapshot_roundtrip [OF s snap(2,3) this, of ts junk] obtain s1 where
    s1: "parse_snapshot (snapshot_bytes ts order A @ junk) s = Inr (ts, s1)" "store_inv s1" "store_view s1 = A"
    "st_capacity s1 = st_capacity s" "store_slots s1 = store_slots s" by blast
  have "snapshot_load read_file dir s = Inr (Inr (ts, s1))"
    by (simp add: snapshot_load_def snap(1) s1(1))
  with replay_aof_entries [where s = s1 and read_file = read_file and path = path, OF s1(2) log K(1), of ts] K(2,3) s1 show ?thesis
    by (simp add: recover_def)
qed

lemma recover_log_only:
  assumes s: "store_inv s" "store_view s = Map.empty" and "read_file (bin_path dir) = Inl NotFound"
    and log: "read_file path = Inr (concat (map entry_bytes ops) @ rest)" "incomplete_entry rest"
    and K: "finite K" "op_uid ` set ops \<subseteq> K" "card K \<le> store_slots s"
  shows "\<exists>s'. recover read_file s dir path = Inr (Inr s') \<and> store_inv s'
     \<and> store_view s' = abs_replay (unat (st_capacity s)) Map.empty (filter (\<lambda>x. 0 < op_ts x) ops)"
  using replay_aof_entries [where s = s and read_file = read_file and path = path, OF s(1) log K(1), of 0] assms(2,3) K(2,3)
  by (simp add: recover_def snapshot_load_def)

text \<open>
  Both cases at once: the snapshot file holds the histories \<open>A\<close> at time \<open>ts\<close>, where a missing file stands
  for no histories at time 0.
\<close>

definition snapshot_holds :: "(string \<Rightarrow> io_error + bytes) \<Rightarrow> string \<Rightarrow> u64 \<Rightarrow> event_map \<Rightarrow> bool" where
  "snapshot_holds read_file dir ts A \<longleftrightarrow>
     (read_file (bin_path dir) = Inl NotFound \<and> ts = 0 \<and> A = Map.empty)
     \<or> (\<exists>order. hash_order A order \<and> read_file (bin_path dir) = Inr (snapshot_bytes ts order A))"

lemma snapshot_holds_none: "read_file (bin_path dir) = Inl NotFound \<Longrightarrow> snapshot_holds read_file dir 0 Map.empty"
  and snapshot_holds_file:
    "read_file (bin_path dir) = Inr (snapshot_bytes ts order A) \<Longrightarrow> hash_order A order \<Longrightarrow> snapshot_holds read_file dir ts A"
  by (auto simp: snapshot_holds_def)

lemma snapshot_load_holds:
  assumes "store_inv s" and "store_view s = Map.empty" and "snapshot_holds read_file dir ts A"
    and "histories_ok (unat (st_capacity s)) A" and "card (dom A) \<le> store_slots s" and "store_slots s < 2 ^ 32"
  obtains s1 where "snapshot_load read_file dir s = Inr (Inr (ts, s1))" and "store_inv s1" and "store_view s1 = A"
    and "st_capacity s1 = st_capacity s" and "store_slots s1 = store_slots s"
proof (cases "read_file (bin_path dir)")
  case (Inl e)
  with assms that show ?thesis by (auto simp: snapshot_holds_def snapshot_load_def)
next
  case (Inr data)
  with assms(3) obtain order where o: "hash_order A order" "data = snapshot_bytes ts order A"
    by (auto simp: snapshot_holds_def)
  have "length order \<le> store_slots s" "length order < 2 ^ 32" using hash_order_length [OF o(1)] assms(5,6) by simp_all
  from parse_snapshot_roundtrip [OF assms(1,2) o(1) assms(4) this, of ts "[]"] Inr o(2) that show ?thesis
    by (auto simp: snapshot_load_def)
qed

lemma recover_holds:
  assumes s: "store_inv s" "store_view s = Map.empty" "store_slots s < 2 ^ 32"
    and snap: "snapshot_holds read_file dir ts A" "histories_ok (unat (st_capacity s)) A"
    and log: "read_file path = Inr (concat (map entry_bytes ops) @ rest)" "incomplete_entry rest"
    and K: "finite K" "dom A \<union> op_uid ` set ops \<subseteq> K" "card K \<le> store_slots s"
  shows "\<exists>s'. recover read_file s dir path = Inr (Inr s') \<and> store_inv s'
     \<and> store_view s' = abs_replay (unat (st_capacity s)) A (filter (\<lambda>x. ts < op_ts x) ops)"
proof -
  have "card (dom A) \<le> card K" using K(1,2) by (intro card_mono) auto
  then have c: "card (dom A) \<le> store_slots s" using K(3) by simp
  obtain s1 where s1: "snapshot_load read_file dir s = Inr (Inr (ts, s1))" "store_inv s1" "store_view s1 = A"
    "st_capacity s1 = st_capacity s" "store_slots s1 = store_slots s"
    by (rule snapshot_load_holds [OF s(1,2) snap c s(3)])
  with replay_aof_entries [where s = s1 and read_file = read_file and path = path, OF s1(2) log K(1), of ts] K(2,3)
  show ?thesis by (simp add: recover_def)
qed

lemma filter_newer:
  assumes "\<forall>x \<in> set old. op_ts x \<le> ts" and "\<forall>x \<in> set new. ts < op_ts x"
  shows "filter (\<lambda>x. ts < op_ts x) (take j (old @ new)) = take (j - length old) new"
proof -
  have "filter (\<lambda>x. ts < op_ts x) (take j old) = []" using assms(1) by (auto simp: leD filter_empty_conv dest: in_set_takeD)
  moreover have "filter (\<lambda>x. ts < op_ts x) (take (j - length old) new) = take (j - length old) new"
    using assms(2) by (intro filter_True) (auto dest: in_set_takeD)
  ultimately show ?thesis by simp
qed

text \<open>The log may be cut at any byte.\<close>

lemma recover_holds_cut:
  assumes s: "store_inv s" "store_view s = Map.empty" "store_slots s < 2 ^ 32"
    and snap: "snapshot_holds read_file dir ts A" "histories_ok (unat (st_capacity s)) A"
    and log: "read_file path = Inr (take k (concat (map entry_bytes (old @ new))))"
    and times: "\<forall>x \<in> set old. op_ts x \<le> ts" "\<forall>x \<in> set new. ts < op_ts x"
    and K: "finite K" "dom A \<union> op_uid ` set (old @ new) \<subseteq> K" "card K \<le> store_slots s"
  shows "\<exists>m s'. recover read_file s dir path = Inr (Inr s') \<and> store_inv s'
     \<and> store_view s' = abs_replay (unat (st_capacity s)) A (take m new)
     \<and> (\<forall>i \<le> length new. length (concat (map entry_bytes (old @ take i new))) \<le> k \<longrightarrow> i \<le> m)"
proof -
  from entries_take [of k "old @ new"] obtain j rest where
    j: "take k (concat (map entry_bytes (old @ new))) = concat (map entry_bytes (take j (old @ new))) @ rest"
      "incomplete_entry rest"
      "\<forall>i \<le> length (old @ new). length (concat (map entry_bytes (take i (old @ new)))) \<le> k \<longrightarrow> i \<le> j" by blast
  have "dom A \<union> op_uid ` set (take j (old @ new)) \<subseteq> K" using K(2) set_take_subset [of j "old @ new"] by blast
  from recover_holds [where read_file = read_file and path = path, OF s snap log [unfolded j(1)] j(2) K(1) this K(3)]
  obtain s' where "recover read_file s dir path = Inr (Inr s')" "store_inv s'"
    "store_view s' = abs_replay (unat (st_capacity s)) A (take (j - length old) new)"
    unfolding filter_newer [OF times] by blast
  moreover have "i \<le> j - length old" if "i \<le> length new" "length (concat (map entry_bytes (old @ take i new))) \<le> k" for i
    using j(3) [rule_format, of "length old + i"] that by simp
  ultimately show ?thesis by blast
qed

section \<open>Arbitrary files\<close>

text \<open>What recovery keeps whatever the files contain, and the panics of the two allocators.\<close>

definition same_shape :: "store \<Rightarrow> store \<Rightarrow> bool" where
  "same_shape s s' \<longleftrightarrow> store_inv s' \<and> st_capacity s' = st_capacity s \<and> store_slots s' = store_slots s"

definition exhausted_panics :: "panic set" where
  "exhausted_panics = {Panic ''slab exhausted -- increase memory_pool_slots'',
     Panic ''MemoryPool exhausted -- increase memory_pool_slots in config''}"

lemma same_shape_trans: "same_shape s s1 \<Longrightarrow> same_shape s1 s2 \<Longrightarrow> same_shape s s2"
  by (simp add: same_shape_def)

lemma get_or_create_shape:
  assumes "store_inv s"
  shows "case get_or_create s uid of Inl p \<Rightarrow> p \<in> exhausted_panics
           | Inr s' \<Rightarrow> same_shape s s' \<and> uid \<in> dom (st_map s')"
proof (cases "get_or_create s uid")
  case (Inl p)
  then have "sa_alloc (st_mem s) (st_alloc s) = Inl p"
    by (auto simp: get_or_create_def split: option.splits sum.splits)
  then have "p \<in> exhausted_panics"
    by (cases "st_alloc s") (auto simp: exhausted_panics_def alloc_slot_def Let_def split: sum.splits if_splits)
  with Inl show ?thesis by simp
next
  case (Inr s')
  show ?thesis
  proof (cases "st_map s uid")
    case (Some b)
    then show ?thesis using assms Inr by (auto simp: same_shape_def get_or_create_old)
  next
    case None
    have "card (dom (st_map s)) < store_slots s"
      using get_or_create_full [OF assms None] store_inv_card [OF assms] Inr by fastforce
    from get_or_create_new [OF assms None this] Inr show ?thesis by (auto simp: same_shape_def)
  qed
qed

lemma buf_push_shape: "store_inv s \<Longrightarrow> uid \<in> dom (st_map s) \<Longrightarrow>
    same_shape s (buf_push s uid r ts) \<and> dom (st_map (buf_push s uid r ts)) = dom (st_map s)"
  using buf_push_ok [of s uid _ r ts] by (auto simp: same_shape_def buf_push_def split: option.splits prod.splits)

lemma parse_records_shape:
  "store_inv s \<Longrightarrow> uid \<in> dom (st_map s) \<Longrightarrow> same_shape s (snd (parse_records data uid ts k pos s))"
proof (induction k arbitrary: pos s)
  case 0
  then show ?case by (simp add: same_shape_def)
next
  case (Suc k)
  let ?s = "buf_push s uid (record_from_bytes (slice pos (pos + 17) data)) ts"
  have b: "same_shape s ?s" "uid \<in> dom (st_map ?s)" using buf_push_shape [OF Suc.prems] Suc.prems(2) by auto
  then have "same_shape ?s (snd (parse_records data uid ts k (pos + 17) ?s))"
    using Suc.IH by (simp add: same_shape_def)
  with b(1) Suc.prems(1) show ?case by (auto simp: Let_def same_shape_def)
qed

lemma parse_keys_shape:
  "store_inv s \<Longrightarrow> (case parse_keys data k pos s of Inl p \<Rightarrow> p \<in> exhausted_panics | Inr s' \<Rightarrow> same_shape s s')"
proof (induction k arbitrary: pos s)
  case 0
  then show ?case by (simp add: same_shape_def)
next
  case (Suc k)
  let ?uid = "u32_from_le_bytes (slice pos (pos + 4) data)"
  let ?ts = "u64_from_le_bytes (slice (pos + 4) (pos + 12) data)"
  let ?cnt = "u16_from_le_bytes (slice (pos + 12) (pos + 14) data)"
  note g = get_or_create_shape [OF Suc.prems, of ?uid]
  show ?case
  proof (cases "get_or_create s ?uid")
    case (Inl p)
    with g Suc.prems show ?thesis by (simp add: Let_def same_shape_def)
  next
    case (Inr s1)
    obtain pos' s2 where pr: "parse_records data ?uid ?ts (unat ?cnt) (pos + 14) s1 = (pos', s2)" by fastforce
    have s1: "same_shape s s1" "?uid \<in> dom (st_map s1)" using g Inr by simp_all
    have "same_shape s1 s2" using parse_records_shape [of s1 ?uid data ?ts "unat ?cnt" "pos + 14"] s1 pr
      by (simp add: same_shape_def)
    then have "same_shape s s2" using s1(1) same_shape_trans by blast
    with Suc.IH [of s2 pos'] Inr pr Suc.prems show ?thesis by (auto simp: Let_def same_shape_def split: sum.splits)
  qed
qed

lemma replay_entry_shape:
  assumes "store_inv s"
  shows "case replay_entry s opcode uid ts payload of Inl p \<Rightarrow> p \<in> exhausted_panics | Inr (s', k) \<Rightarrow> same_shape s s'"
proof (cases "get_or_create s uid")
  case (Inl p)
  then show ?thesis using get_or_create_shape [OF assms, of uid] store_erase_ok [OF assms] assms
    by (simp add: replay_entry_def same_shape_def)
next
  case (Inr s1)
  with get_or_create_shape [OF assms, of uid] have s1: "same_shape s s1" "uid \<in> dom (st_map s1)" by simp_all
  then have "same_shape s (buf_push s1 uid r ts)" for r
    using buf_push_shape [of s1 uid r ts] same_shape_trans by (auto simp: same_shape_def)
  then show ?thesis using Inr store_erase_ok [OF assms] assms
    by (simp add: replay_entry_def same_shape_def)
qed

lemma replay_loop_shape:
  "store_inv s \<Longrightarrow> (case replay_loop data ts pos s k of Inl p \<Rightarrow> p \<in> exhausted_panics | Inr (s', k') \<Rightarrow> same_shape s s')"
proof (induction data ts pos s k rule: replay_loop.induct)
  case (1 data ts pos s k)
  let ?len = "unat (aof_payload_len data pos)"
  let ?r = "replay_entry s (data ! pos) (aof_uid data pos) (aof_write_ts data pos) (slice (pos + 15) (pos + 15 + ?len) data)"
  have self: "same_shape s s" using 1(3) by (simp add: same_shape_def)
  show ?case
  proof (cases "length data < pos + 15 \<or> length data < pos + 15 + ?len")
    case True
    then show ?thesis using self by (subst replay_loop.simps) (auto simp: Let_def)
  next
    case False
    show ?thesis
    proof (cases "aof_write_ts data pos \<le> ts")
      case True
      then show ?thesis using 1(1) 1(3) False by (subst replay_loop.simps) (simp add: Let_def)
    next
      case new: False
      show ?thesis
      proof (cases ?r)
        case (Inl p)
        then show ?thesis
          using replay_entry_shape [OF 1(3), of "data ! pos" "aof_uid data pos" "aof_write_ts data pos"
              "slice (pos + 15) (pos + 15 + ?len) data"] False new
          by (subst replay_loop.simps) (simp add: Let_def)
      next
        case (Inr sk)
        obtain s1 j where sk: "sk = (s1, j)" by fastforce
        have s1: "same_shape s s1"
          using replay_entry_shape [OF 1(3), of "data ! pos" "aof_uid data pos" "aof_write_ts data pos"
              "slice (pos + 15) (pos + 15 + ?len) data"] Inr sk by simp
        then have "store_inv s1" by (simp add: same_shape_def)
        then have "case replay_loop data ts (pos + 15 + ?len) s1 (k + j) of Inl p \<Rightarrow> p \<in> exhausted_panics
            | Inr (s', k') \<Rightarrow> same_shape s1 s'"
          using 1(2) [OF _ refl refl refl refl refl _ refl refl] False new Inr sk by simp
        then show ?thesis
          using False new Inr sk same_shape_trans [OF s1]
          by (subst replay_loop.simps) (auto simp: Let_def split: sum.splits)
      qed
    qed
  qed
qed

lemma snapshot_load_shape:
  assumes "store_inv s"
  shows "case snapshot_load read_file dir s of
      Inl p \<Rightarrow> p \<in> exhausted_panics
    | Inr (Inl err) \<Rightarrow> \<exists>e. err = Io e \<and> e \<noteq> NotFound \<and> read_file (bin_path dir) = Inl e
    | Inr (Inr (ts, s')) \<Rightarrow> same_shape s s'"
proof -
  have "case parse_snapshot data s of Inl p \<Rightarrow> p \<in> exhausted_panics | Inr (ts, s') \<Rightarrow> same_shape s s'" for data
    using parse_keys_shape [OF assms, of data "unat (u32_from_le_bytes (slice 13 17 data))" 17] assms
    by (auto simp: parse_snapshot_def Let_def same_shape_def split: sum.splits)
  note p = this
  show ?thesis
  proof (cases "read_file (bin_path dir)")
    case (Inl e)
    then show ?thesis using assms by (cases e) (simp_all add: snapshot_load_def same_shape_def)
  next
    case (Inr data)
    with p [of data] show ?thesis by (auto simp: snapshot_load_def split: sum.splits)
  qed
qed

lemma replay_aof_shape:
  assumes "store_inv s"
  shows "case replay_aof read_file s path ts of
      Inl p \<Rightarrow> p \<in> exhausted_panics
    | Inr (Inl err) \<Rightarrow> \<exists>e. err = Io e \<and> e \<noteq> NotFound \<and> read_file path = Inl e
    | Inr (Inr s') \<Rightarrow> same_shape s s'"
  using replay_loop_shape [OF assms, of _ ts 0 0] assms
  by (fastforce simp: replay_aof_def same_shape_def split: sum.splits io_error.splits prod.splits)

lemma recover_shape:
  assumes "store_inv s"
  shows "case recover read_file s dir path of
      Inl p \<Rightarrow> p \<in> exhausted_panics
    | Inr (Inl err) \<Rightarrow> \<exists>e. err = Io e \<and> e \<noteq> NotFound \<and> (read_file (bin_path dir) = Inl e \<or> read_file path = Inl e)
    | Inr (Inr s') \<Rightarrow> same_shape s s'"
proof -
  note l = snapshot_load_shape [OF assms, of read_file dir]
  consider p where "snapshot_load read_file dir s = Inl p" | e where "snapshot_load read_file dir s = Inr (Inl e)"
    | ts s1 where "snapshot_load read_file dir s = Inr (Inr (ts, s1))"
    by (metis old.sum.exhaust surj_pair)
  then show ?thesis
  proof cases
    case (3 ts s1)
    with l have s1: "same_shape s s1" by simp
    then have "store_inv s1" by (simp add: same_shape_def)
    from replay_aof_shape [OF this, of read_file path ts] 3 show ?thesis
      using same_shape_trans [OF s1] by (auto simp: recover_def split: sum.splits)
  qed (use l in \<open>auto simp: recover_def\<close>)
qed

section \<open>Properties\<close>

text \<open>The files of the examples: a snapshot of one user at time 10, and a log that goes on from there.\<close>

definition sample_old :: "log_op list" where
  "sample_old = [LPush 7 default_record 5]"

definition sample_new :: "log_op list" where
  "sample_new = [LPush 7 (default_record\<lparr>timestamp := 3\<rparr>) 20, LPush 9 default_record 21, LDel 9 22]"

definition sample_files :: "string \<Rightarrow> io_error + bytes" where
  "sample_files p =
     (if p = bin_path ''d'' then Inr (snapshot_bytes 10 [7] (abs_replay 2 Map.empty sample_old))
      else if p = ''log'' then Inr (concat (map entry_bytes (sample_old @ sample_new)) @ [OPCODE_PUSH])
      else Inl NotFound)"

text \<open>
  C12: recovery is exact. From a snapshot taken at time \<open>ts\<close> and a log whose entries were written up
  to \<open>ts\<close> before the snapshot and later than \<open>ts\<close> after it, possibly with a truncated entry at the
  end, recovery rebuilds the snapshot followed by the later operations, in order: earlier entries
  are not applied twice and later ones are not lost. The slots have to suffice for all keys.
\<close>

theorem recovery_exact:
  assumes "store_inv s" and "store_view s = Map.empty"
    and "read_file (bin_path dir) = Inr (snapshot_bytes ts order A)" and "hash_order A order"
    and "histories_ok (unat (st_capacity s)) A"
    and "read_file path = Inr (concat (map entry_bytes (old @ new)) @ rest)" and "incomplete_entry rest"
    and "\<forall>x \<in> set old. op_ts x \<le> ts" and "\<forall>x \<in> set new. ts < op_ts x"
    and "finite K" and "dom A \<union> op_uid ` set (old @ new) \<subseteq> K" and "card K \<le> store_slots s"
    and "store_slots s < 2 ^ 32"
  shows "\<exists>s'. recover read_file s dir path = Inr (Inr s') \<and> store_inv s'
     \<and> store_view s' = abs_replay (unat (st_capacity s)) A new"
proof -
  have f: "filter (\<lambda>x. ts < op_ts x) (old @ new) = new"
    using assms(8,9) by (simp add: filter_False filter_True leD)
  have "read_file (bin_path dir) = Inr (snapshot_bytes ts order A @ [])" using assms(3) by simp
  from recover_files [where read_file = read_file and path = path and dir = dir, OF assms(1,2) this
      assms(4,5,6,7,10,11,12,13)]
  show ?thesis by (simp only: f)
qed

theorem recovery_exact_witness:
  "\<exists>s'. recover sample_files sample_store ''d'' ''log'' = Inr (Inr s')
     \<and> store_view s' = [7 \<mapsto> ([default_record\<lparr>timestamp := 3\<rparr>, default_record], 20)]"
proof -
  have "bin_path ''d'' \<noteq> ''log''" by (simp add: bin_path_def)
  then have f: "sample_files (bin_path ''d'') = Inr (snapshot_bytes 10 [7] (abs_replay 2 Map.empty sample_old))"
    "sample_files ''log'' = Inr (concat (map entry_bytes (sample_old @ sample_new)) @ [OPCODE_PUSH])"
    by (simp_all add: sample_files_def)
  let ?A = "abs_replay 2 Map.empty sample_old"
  have A: "?A = [7 \<mapsto> ([default_record], 5)]" by (simp add: sample_old_def abs_push_def hist_records_def)
  have "hash_order ?A [7]" "histories_ok 2 ?A" "incomplete_entry [OPCODE_PUSH]"
    by (simp_all add: A hash_order_def histories_ok_def incomplete_entry_def)
  moreover have "\<forall>x \<in> set sample_old. op_ts x \<le> 10" "\<forall>x \<in> set sample_new. 10 < op_ts x"
    "dom ?A \<union> op_uid ` set (sample_old @ sample_new) \<subseteq> {7, 9}"
    unfolding A by (simp_all add: sample_old_def sample_new_def)
  moreover have "abs_replay 2 ?A sample_new = [7 \<mapsto> ([default_record\<lparr>timestamp := 3\<rparr>, default_record], 20)]"
    unfolding A by (simp add: sample_new_def abs_push_def abs_erase_def hist_records_def fun_upd_twist)
  ultimately show ?thesis
    using recovery_exact [where read_file = sample_files and path = "''log''" and old = sample_old
        and new = sample_new and rest = "[OPCODE_PUSH]" and K = "{7, 9}",
        OF sample_store_ok(1,2) f(1) _ _ f(2)] by (simp add: sample_store_ok) blast
qed

text \<open>
  C34: recovery is safe for arbitrary files, also damaged ones: it ends with a well-formed store of the
  same capacity and slots, or with an error that a file that exists could not be read, or with the
  panic of the exhausted allocator; a missing snapshot or a missing log is not an error.
\<close>

theorem recovery_robust:
  assumes "store_inv s"
  shows "case recover read_file s dir path of
      Inl p \<Rightarrow> p \<in> exhausted_panics
    | Inr (Inl err) \<Rightarrow> \<exists>e. err = Io e \<and> e \<noteq> NotFound \<and> (read_file (bin_path dir) = Inl e \<or> read_file path = Inl e)
    | Inr (Inr s') \<Rightarrow> store_inv s' \<and> st_capacity s' = st_capacity s \<and> store_slots s' = store_slots s"
  using recover_shape [OF assms, of read_file dir path] unfolding same_shape_def .

theorem recovery_robust_witness:
  "recover (\<lambda>p. Inl (OsError 13)) sample_store ''d'' ''log'' = Inr (Inl (Io (OsError 13)))
   \<and> (case recover (\<lambda>p. Inr (replicate 40 1)) sample_store ''d'' ''log'' of
        Inl p \<Rightarrow> p \<in> exhausted_panics | Inr (Inl err) \<Rightarrow> False | Inr (Inr s') \<Rightarrow> store_inv s')"
  using recovery_robust [OF sample_store_ok(1), of "\<lambda>p. Inr (replicate 40 1)" "''d''" "''log''"]
  by (auto simp: recover_def snapshot_load_def split: sum.splits)

text \<open>
  C13: a snapshot is only a shortcut, up to evictions. The snapshot holds what the events up to its
  timestamp made of an empty store, logged operations and evictions, and the log has all logged operations, with
  a slot for every key in them. Recovery from both gives what the later operations make of the
  snapshot; recovery from the log alone gives what all logged operations make of an empty store. The
  two agree on every user that was not evicted before the snapshot. They can differ on an evicted user, since
  evictions are not in the log.
\<close>

theorem snapshot_is_shortcut:
  assumes "store_inv s" and "store_view s = Map.empty" and "cap = unat (st_capacity s)"
    and "A = abs_run cap Map.empty evs" and "hash_order A order"
    and "with_snapshot (bin_path dir) = Inr (snapshot_bytes ts order A)" and "log_only (bin_path dir) = Inl NotFound"
    and "with_snapshot path = Inr (concat (map entry_bytes (logged evs @ new)) @ rest)"
    and "log_only path = Inr (concat (map entry_bytes (logged evs @ new)) @ rest)" and "incomplete_entry rest"
    and "\<forall>x \<in> set (logged evs). 0 < op_ts x \<and> op_ts x \<le> ts" and "\<forall>x \<in> set new. ts < op_ts x"
    and "card (op_uid ` set (logged evs @ new)) \<le> store_slots s" and "store_slots s < 2 ^ 32"
  shows "\<exists>s1 s2. recover with_snapshot s dir path = Inr (Inr s1) \<and> recover log_only s dir path = Inr (Inr s2)
     \<and> store_inv s1 \<and> store_inv s2
     \<and> store_view s1 = abs_replay cap A new \<and> store_view s2 = abs_replay cap Map.empty (logged evs @ new)
     \<and> (\<forall>uid. Evicted uid \<notin> set evs \<longrightarrow> store_view s1 uid = store_view s2 uid)"
proof -
  let ?old = "logged evs" let ?K = "op_uid ` set (?old @ new)"
  have n: "0 < cap" using assms(1,3) by (simp add: store_inv_def word_less_nat_alt)
  have K: "dom A \<union> ?K \<subseteq> ?K" using dom_abs_run [of cap Map.empty evs] by (auto simp: assms(4))
  have ho: "histories_ok cap A" using histories_ok_run [OF n] by (simp add: assms(4))
  have pos: "\<forall>x \<in> set (?old @ new). 0 < op_ts x" using assms(11,12) le_less_trans [OF word_zero_le] by auto
  have f: "filter (\<lambda>x. ts < op_ts x) (?old @ new) = new"
    using filter_newer [of ?old ts new "length (?old @ new)"] assms(11,12) by simp
  have f0: "filter (\<lambda>x. 0 < op_ts x) (?old @ new) = ?old @ new" using pos by (intro filter_True) auto
  from recover_holds [where read_file = with_snapshot and path = path and dir = dir,
      OF assms(1,2,14) snapshot_holds_file [of with_snapshot, OF assms(6,5)] ho [unfolded assms(3)] assms(8,10) _ K assms(13)]
  obtain s1 where 1: "recover with_snapshot s dir path = Inr (Inr s1)" "store_inv s1" "store_view s1 = abs_replay cap A new"
    unfolding f assms(3) by auto
  from recover_log_only [where read_file = log_only, OF assms(1,2,7,9,10), of ?K] assms(13) obtain s2 where
    2: "recover log_only s dir path = Inr (Inr s2)" "store_inv s2" "store_view s2 = abs_replay cap Map.empty (?old @ new)"
    unfolding f0 assms(3) by auto
  have "store_view s1 uid = store_view s2 uid" if "Evicted uid \<notin> set evs" for uid
    using abs_run_not_evicted [of uid "evs @ map Logged new" Map.empty Map.empty cap] that 1(3) 2(3)
    by (auto simp: assms(4) abs_run_Logged)
  with 1 2 show ?thesis by blast
qed

text \<open>User 9 was evicted before the snapshot: it comes back from the log alone, user 7 is the same both times.\<close>

theorem snapshot_is_shortcut_witness:
  "\<exists>s1 s2. let log = concat (map entry_bytes ([LPush 9 default_record 2] @ sample_old @ sample_new));
              evs = [Logged (LPush 9 default_record 2), Evicted 9] @ map Logged sample_old in
     recover (\<lambda>p. if p = bin_path ''d'' then Inr (snapshot_bytes 10 [7] (abs_run 2 Map.empty evs)) else Inr log)
       sample_store ''d'' ''log'' = Inr (Inr s1)
     \<and> recover (\<lambda>p. if p = bin_path ''d'' then Inl NotFound else Inr log) sample_store ''d'' ''log'' = Inr (Inr s2)
     \<and> store_view s1 7 = store_view s2 7"
proof -
  let ?evs = "[Logged (LPush 9 default_record 2), Evicted 9] @ map Logged sample_old"
  let ?ops = "[LPush 9 default_record 2] @ sample_old @ sample_new"
  let ?log = "Inr (concat (map entry_bytes ?ops)) :: io_error + bytes" and ?A = "abs_run 2 Map.empty ?evs"
  let ?r1 = "\<lambda>p. if p = bin_path ''d'' then Inr (snapshot_bytes 10 [7] ?A) else ?log"
  let ?r2 = "\<lambda>p. if p = bin_path ''d'' then Inl NotFound else ?log"
  have p: "''log'' \<noteq> bin_path ''d''" by (simp add: bin_path_def)
  have c: "2 = unat (st_capacity sample_store)" by (simp add: sample_store_ok)
  have A: "?A = [7 \<mapsto> ([default_record], 5)]"
    by (simp add: sample_old_def abs_push_def abs_erase_def hist_records_def)
  have o: "hash_order ?A [7]" unfolding A by (simp add: hash_order_def)
  have l: "logged ?evs @ sample_new = ?ops" by simp
  have f: "?r1 (bin_path ''d'') = Inr (snapshot_bytes 10 [7] ?A)" "?r2 (bin_path ''d'') = Inl NotFound"
    "?r1 ''log'' = Inr (concat (map entry_bytes (logged ?evs @ sample_new)) @ [])"
    "?r2 ''log'' = Inr (concat (map entry_bytes (logged ?evs @ sample_new)) @ [])"
    unfolding l using p by simp_all
  have t: "\<forall>x \<in> set (logged ?evs). 0 < op_ts x \<and> op_ts x \<le> 10" "\<forall>x \<in> set sample_new. 10 < op_ts x"
    "card (op_uid ` set (logged ?evs @ sample_new)) \<le> store_slots sample_store" "store_slots sample_store < 2 ^ 32"
    by (simp_all add: sample_old_def sample_new_def sample_store_ok card_insert_if)
  from snapshot_is_shortcut [where with_snapshot = ?r1 and log_only = ?r2,
      OF sample_store_ok(1,2) c refl o f incomplete_Nil t] obtain s1 s2 where
    "recover ?r1 sample_store ''d'' ''log'' = Inr (Inr s1)" "recover ?r2 sample_store ''d'' ''log'' = Inr (Inr s2)"
    "Evicted 7 \<notin> set ?evs \<longrightarrow> store_view s1 7 = store_view s2 7" by blast
  moreover have "Evicted 7 \<notin> set ?evs" by (simp add: sample_old_def)
  ultimately show ?thesis unfolding Let_def by blast
qed

text \<open>
  C38: when recovery panics. The snapshot file, or none, holds histories that fit into the slots, and the log is
  a run of entries, the last one possibly truncated. Recovery panics exactly when the histories that the
  snapshot and the entries newer than it give, without any evictions, have more keys than there are slots after
  some entry of the log. The keys that the old process had evicted count, because the log does not
  say that they are gone.
\<close>

theorem recovery_panics_iff:
  assumes "store_inv s" and "store_view s = Map.empty" and "store_slots s < 2 ^ 32"
    and "snapshot_holds read_file dir ts A" and "histories_ok (unat (st_capacity s)) A" and "card (dom A) \<le> store_slots s"
    and "read_file path = Inr (concat (map entry_bytes ops) @ rest)" and "incomplete_entry rest"
  shows "(\<exists>p. recover read_file s dir path = Inl p)
     \<longleftrightarrow> (\<exists>j. store_slots s < card (dom (abs_replay (unat (st_capacity s)) A (take j (filter (\<lambda>x. ts < op_ts x) ops)))))"
proof -
  let ?ops = "filter (\<lambda>x. ts < op_ts x) ops"
  obtain s1 where s1: "snapshot_load read_file dir s = Inr (Inr (ts, s1))" "store_inv s1" "store_view s1 = A"
    "st_capacity s1 = st_capacity s" "store_slots s1 = store_slots s"
    by (rule snapshot_load_holds [OF assms(1,2,4,5,6,3)])
  have "(\<exists>p. recover read_file s dir path = Inl p) \<longleftrightarrow> (\<exists>p. es.run s1 ?ops = Inl p)"
    using replay_loop_entries [of 0 "concat (map entry_bytes ops) @ rest" ops rest ts s1 0] assms(7,8) s1(1)
    by (auto simp: recover_def replay_aof_def split: sum.split)
  also have "\<dots> \<longleftrightarrow> (\<exists>j. store_slots s < card (dom (abs_replay (unat (st_capacity s)) A (take j ?ops))))"
    using es.run_fails_iff [OF s1(2), of ?ops] s1(3-5) by simp
  finally show ?thesis .
qed

lemma sample_deletion_fits:
  defines "pre \<equiv> map (\<lambda>u. LPush u default_record 1) [1, 2, 3, 4] @ [LDel 1 2]" and "fin \<equiv> LPush 5 default_record 3"
  shows "card (dom (abs_replay 2 Map.empty (take j (pre @ [fin])))) \<le> 4"
proof (cases "j \<le> 5")
  case True
  then have "take j (pre @ [fin]) = take j pre" by (subst take_append) (simp add: pre_def)
  moreover have "op_uid ` set (take j pre) \<subseteq> {1, 2, 3, 4}" by (auto simp: pre_def dest!: in_set_takeD)
  then have "dom (abs_replay 2 Map.empty (take j pre)) \<subseteq> {1, 2, 3, 4}" using dom_abs_replay [of 2 Map.empty "take j pre"] by auto
  then have "card (dom (abs_replay 2 Map.empty (take j pre))) \<le> card {1 :: u32, 2, 3, 4}" by (intro card_mono) auto
  ultimately show ?thesis by simp
next
  case False
  then have "take j (pre @ [fin]) = pre @ [fin]" by (simp add: pre_def)
  moreover have "dom (abs_replay 2 Map.empty (pre @ [fin])) = {2, 3, 4, 5}" by (auto simp: pre_def fin_def dom_abs_push dom_abs_erase)
  ultimately show ?thesis by simp
qed

text \<open>
  Four slots. The log pushes users 1 to 5, of which a running server may have evicted the first before
  the last came; the replay panics. With a deletion of user 1 before the last it does not.
\<close>

theorem recovery_panics_iff_witness:
  "(\<exists>p. recover (\<lambda>p. if p = ''log'' then Inr (concat (map (\<lambda>u. entry_bytes (LPush u default_record 1)) [1, 2, 3, 4, 5]))
        else Inl NotFound) sample_store ''d'' ''log'' = Inl p)
   \<and> \<not> (\<exists>p. recover (\<lambda>p. if p = ''log'' then Inr (concat (map (\<lambda>u. entry_bytes (LPush u default_record 1)) [1, 2, 3, 4])
            @ entry_bytes (LDel 1 2) @ entry_bytes (LPush 5 default_record 3)) else Inl NotFound)
        sample_store ''d'' ''log'' = Inl p)"
proof -
  define rd where "rd ops p = (if p = ''log'' then Inr (concat (map entry_bytes ops) @ []) else Inl NotFound)"
    for ops :: "log_op list" and p
  have iff: "(\<exists>p. recover (rd ops) sample_store ''d'' ''log'' = Inl p)
      \<longleftrightarrow> (\<exists>j. 4 < card (dom (abs_replay 2 Map.empty (take j (filter (\<lambda>x. 0 < op_ts x) ops)))))" for ops
  proof -
    have "rd ops (bin_path ''d'') = Inl NotFound" by (simp add: rd_def bin_path_def)
    from recovery_panics_iff [OF sample_store_ok(1,2) _ snapshot_holds_none [of "rd ops", OF this], of "''log''" ops "[]"]
    show ?thesis by (simp add: sample_store_ok rd_def)
  qed
  let ?ops = "map (\<lambda>u. LPush u default_record 1) [1, 2, 3, 4, 5]"
  have "dom (abs_replay 2 Map.empty (take 5 ?ops)) = {1, 2, 3, 4, 5}" by (auto simp: dom_abs_push)
  then have "4 < card (dom (abs_replay 2 Map.empty (take 5 ?ops)))" by simp
  then have 1: "\<exists>p. recover (rd ?ops) sample_store ''d'' ''log'' = Inl p" unfolding iff by (intro exI [of _ 5]) simp
  let ?pre = "map (\<lambda>u. LPush u default_record 1) [1, 2, 3, 4] @ [LDel 1 2]" and ?last = "LPush 5 default_record 3"
  have 2: "\<not> (\<exists>p. recover (rd (?pre @ [?last])) sample_store ''d'' ''log'' = Inl p)"
    using sample_deletion_fits unfolding iff by (simp add: not_less)
  have "rd ?ops = (\<lambda>p. if p = ''log'' then Inr (concat (map (\<lambda>u. entry_bytes (LPush u default_record 1)) [1, 2, 3, 4, 5])) else Inl NotFound)"
    "rd (?pre @ [?last]) = (\<lambda>p. if p = ''log'' then Inr (concat (map (\<lambda>u. entry_bytes (LPush u default_record 1)) [1, 2, 3, 4])
            @ entry_bytes (LDel 1 2) @ entry_bytes (LPush 5 default_record 3)) else Inl NotFound)"
    by (simp_all add: rd_def fun_eq_iff)
  with 1 2 show ?thesis by metis
qed

text \<open>A leftover byte shifts the header of the next PUSH, and its payload length is misread as 4352 or more.\<close>

lemma shifted_push_incomplete:
  assumes "length later < 4334"
  shows "incomplete_entry (b # entry_bytes (LPush uid r t) @ later)"
proof -
  let ?bs = "b # entry_bytes (LPush uid r t) @ later"
  have len: "length (u64_to_le_bytes t) = 8" by simp
  then obtain ts x where ts: "u64_to_le_bytes t = ts @ [x]" and tl: "length ts = 7"
    by (cases "u64_to_le_bytes t" rule: rev_cases) auto
  have "u16_to_le_bytes 17 = [17, 0]" unfolding u16_to_le_bytes_def numeral_2_eq_2 by simp
  then have bs: "?bs = ([b, OPCODE_PUSH] @ u32_to_le_bytes uid @ ts) @ [x, 17] @ 0 # record_to_bytes r @ later"
    using ts by simp
  have "slice 13 15 ?bs = [x, 17]" unfolding bs using tl by (simp add: slice_def)
  moreover have "from_le [x, 17] = unat x + 4352" "unat x < 256" using from_le_bound [of "[x]"] by simp_all
  ultimately have "unat (u16_from_le_bytes (slice 13 15 ?bs)) = unat x + 4352"
    unfolding u16_from_le_bytes_def by (simp only: unat_of_nat) simp
  with assms show ?thesis by (simp add: incomplete_entry_def)
qed

text \<open>
  C35: a truncated entry poisons the log. The log holds entries, one leftover byte of an entry that a crash
  cut off, and what the next process appended behind it: a PUSH and then entries of fewer than 4334 bytes in all. The
  process after that one, with or without a snapshot file, recovers exactly what the entries before the
  leftover byte give; none of the appended ones is applied.
\<close>

theorem torn_tail_loses_entries:
  assumes "store_inv s" and "store_view s = Map.empty" and "store_slots s < 2 ^ 32"
    and "snapshot_holds read_file dir ts A" and "histories_ok (unat (st_capacity s)) A"
    and "read_file path
       = Inr (concat (map entry_bytes ops) @ [b] @ concat (map entry_bytes (LPush uid r t # later)))"
    and "length (concat (map entry_bytes later)) < 4334"
    and "card (dom A \<union> op_uid ` set ops) \<le> store_slots s" and "finite (dom A)"
  shows "\<exists>s'. recover read_file s dir path = Inr (Inr s') \<and> store_inv s'
     \<and> store_view s' = abs_replay (unat (st_capacity s)) A (filter (\<lambda>x. ts < op_ts x) ops)"
proof -
  have log: "read_file path
      = Inr (concat (map entry_bytes ops) @ b # entry_bytes (LPush uid r t) @ concat (map entry_bytes later))"
    using assms(6) by simp
  from recover_holds [where read_file = read_file, OF assms(1-5) log shifted_push_incomplete [OF assms(7)] _ order_refl assms(8)] assms(9)
  show ?thesis by simp
qed

theorem torn_tail_loses_entries_witness:
  "\<exists>s'. recover (\<lambda>p. if p = ''log'' then Inr (entry_bytes (LPush 9 default_record 4) @ [OPCODE_PUSH] @ entry_bytes (LPush 7 default_record 5))
          else Inl NotFound) sample_store ''d'' ''log'' = Inr (Inr s') \<and> store_view s' = [9 \<mapsto> ([default_record], 4)]"
proof -
  let ?rd = "\<lambda>p. if p = ''log'' then Inr (entry_bytes (LPush 9 default_record 4) @ [OPCODE_PUSH] @ entry_bytes (LPush 7 default_record 5))
      else Inl NotFound"
  have "?rd (bin_path ''d'') = Inl NotFound" by (simp add: bin_path_def)
  from torn_tail_loses_entries [where read_file = ?rd and path = "''log''" and ops = "[LPush 9 default_record 4]" and later = "[]"
      and b = OPCODE_PUSH and uid = 7 and r = default_record and t = 5,
      OF sample_store_ok(1,2) _ snapshot_holds_none [of ?rd, OF this]]
  show ?thesis by (auto simp: sample_store_ok abs_push_def hist_records_def)
qed

end
