(* ===== verification/System.thy ===== *)
theory System
  imports Event_Loop Recovery
begin

text \<open>
  The server as a whole: rounds of the event loop, passes of the flush thread, batches of the TTL
  worker and the shutdown signal, in any order. Rule induction over the step relation shows that
  every reachable state satisfies the invariant of the loop, that the store is the run of the
  events so far and the log their logged part, and that keys are evicted only when they are due.
  Recovery from the files then rebuilds the store.
\<close>

section \<open>The step relation\<close>

text \<open>
  A system state is the event loop with its queues and log, and the time that has passed (no
  reading of the clock so far was later).
\<close>

type_synonym system = "event_loop \<times> nat"

text \<open>The events of one round: the evictions, then the operations the ready connections log.\<close>

definition tick_events :: "nat \<Rightarrow> tick_env \<Rightarrow> event_loop \<Rightarrow> store_event list" where
  "tick_events n env el =
     (let el1 = drain_expired_keys el;
          el2 = collect_ttl_candidates (te_collect_now env) (te_order env) el1;
          sm = fst (maybe_fork (te_snapshot_now env) (te_wait_ret env) (te_fork_ret env) (el_snapshot el2)
                  (ucast (snapshot_interval (el_config el2)) * 1000000000))
      in evictions (store_view (el_store el)) (spsc_list EXPIRED_KEYS_CAP (el_expired_out el))
         @ map Logged (dispatch_ops n (el2\<lparr>el_snapshot := sm\<rparr>) (take MAX_EPOLL_EVENTS (te_events env))))"

text \<open>A step carries the events by which it changes the store.\<close>

inductive sys_step :: "nat \<Rightarrow> system \<Rightarrow> store_event list \<Rightarrow> system \<Rightarrow> bool" for n where
  Clock: "t \<le> t' \<Longrightarrow> sys_step n (el, t) [] (el, t')"
| Tick: "\<not> el_shutdown_flag el \<Longrightarrow> hash_order (st_map (el_store (drain_expired_keys el))) (te_order env)
    \<Longrightarrow> loop_tick n env el = (Done el', child) \<Longrightarrow> sys_step n (el, t) (tick_events n env el) (el', t)"
| Flush: "sys_step n (el, t) [] (el\<lparr>el_aof := flush_once (el_aof el)\<rparr>, t)"
| Worker: "(\<And>k. unat (now k) \<le> t) \<Longrightarrow>
    drain_batch now (el_candidates_in el) (el_expired_out el) (el_ttl_ns el) = (cin, out)
    \<Longrightarrow> sys_step n (el, t) [] (el\<lparr>el_candidates_in := cin, el_expired_out := out\<rparr>, t)"
| Signal: "sys_step n (el, t) [] (el\<lparr>el_shutdown_flag := True\<rparr>, t)"

inductive sys_run :: "nat \<Rightarrow> system \<Rightarrow> store_event list \<Rightarrow> system \<Rightarrow> bool" for n where
  run_refl: "sys_run n S [] S"
| run_step: "sys_run n S evs S1 \<Longrightarrow> sys_step n S1 evs' S2 \<Longrightarrow> sys_run n S (evs @ evs') S2"

inductive_cases sys_stepE: "sys_step n (el, t) evs (el', t')"

text \<open>Every candidate that waits for eviction was last written more than the time to live ago.\<close>

definition due_queue :: "nat \<Rightarrow> event_loop \<Rightarrow> bool" where
  "due_queue t el \<longleftrightarrow> (\<forall>c \<in> set (spsc_list EXPIRED_KEYS_CAP (el_expired_out el)).
     unat (cd_last_write_ts c) + unat (el_ttl_ns el) < t)"

text \<open>Every eviction of a run hits a key whose last write is more than the time to live ago.\<close>

fun evictions_due :: "nat \<Rightarrow> nat \<Rightarrow> nat \<Rightarrow> event_map \<Rightarrow> store_event list \<Rightarrow> bool" where
  "evictions_due n ttl t A [] \<longleftrightarrow> True"
| "evictions_due n ttl t A (Logged x # evs) \<longleftrightarrow> evictions_due n ttl t (abs_apply n A x) evs"
| "evictions_due n ttl t A (Evicted uid # evs) \<longleftrightarrow>
     (case A uid of None \<Rightarrow> False | Some (h, ts) \<Rightarrow> unat ts + ttl < t) \<and> evictions_due n ttl t (abs_erase A uid) evs"

lemma evictions_due_append:
  "evictions_due n ttl t A (xs @ ys) \<longleftrightarrow> evictions_due n ttl t A xs \<and> evictions_due n ttl t (abs_run n A xs) ys"
  by (induction n ttl t A xs rule: evictions_due.induct) auto

lemma evictions_due_mono: "evictions_due n ttl t A evs \<Longrightarrow> t \<le> t' \<Longrightarrow> evictions_due n ttl t' A evs"
  by (induction n ttl t A evs rule: evictions_due.induct) (auto split: option.splits)

lemma evictions_due_logged: "evictions_due n ttl t A (map Logged ops)"
  by (induction ops arbitrary: A) simp_all

lemma evictions_due_queue:
  "(\<And>c. c \<in> set cs \<Longrightarrow> unat (cd_last_write_ts c) + ttl < t) \<Longrightarrow> evictions_due n ttl t A (evictions A cs)"
  by (induction A cs rule: evictions.induct) (auto split: option.split)

section \<open>Invariants of all runs\<close>

lemma loop_tick_ok:
  assumes inv: "el_inv n el" and order: "hash_order (st_map (el_store (drain_expired_keys el))) (te_order env)"
    and tick: "loop_tick n env el = (Done el', child)" and due: "due_queue t el"
  shows "el_inv n el'" and "el_ttl_ns el' = el_ttl_ns el" and "due_queue t el'"
    and "el_effect n el (tick_events n env el) el'"
    and "evictions_due n (unat (el_ttl_ns el)) t (store_view (el_store el)) (tick_events n env el)"
proof -
  let ?el1 = "drain_expired_keys el"
  let ?el2 = "collect_ttl_candidates (te_collect_now env) (te_order env) ?el1"
  let ?cs = "spsc_list EXPIRED_KEYS_CAP (el_expired_out el)" and ?A = "store_view (el_store el)"
  note d = drain_expired_keys_ok [OF inv]
  note c = collect_ttl_ok [OF d(1) order, of "te_collect_now env"]
  let ?el3 = "?el2\<lparr>el_snapshot := fst (maybe_fork (te_snapshot_now env) (te_wait_ret env) (te_fork_ret env)
      (el_snapshot ?el2) (ucast (snapshot_interval (el_config ?el2)) * 1000000000))\<rparr>"
  let ?es = "take MAX_EPOLL_EVENTS (te_events env)" and ?ops = "dispatch_ops n ?el3 (take MAX_EPOLL_EVENTS (te_events env))"
  from tick have da: "dispatch_all n ?el3 ?es = Done el'" by (auto simp: loop_tick_def Let_def split: prod.splits)
  have te: "tick_events n env el = evictions ?A ?cs @ map Logged ?ops" by (simp add: tick_events_def Let_def)
  have inv3: "el_inv n ?el3" using c(1) by (simp add: el_inv_def conns_ok_def)
  from dispatch_all_ok [OF inv3, of ?es] da have
    o: "el_inv n el'" "el_effect n ?el3 (map Logged ?ops) el'" by simp_all
  have fr: "el_frame ?el3 el'" by (rule dispatch_all_frame [OF da])
  show "el_inv n el'" by (rule o(1))
  show "el_ttl_ns el' = el_ttl_ns el" using fr c(5) d(4) by (simp add: el_frame_def)
  show "due_queue t el'" using fr c(4) d(3) by (simp add: due_queue_def el_frame_def)
  have "el_effect n ?el1 [] ?el3" using c(2,3) by (intro el_effect_same) simp_all
  from el_effect_trans [OF d(2) el_effect_trans [OF this o(2)]]
  show "el_effect n el (tick_events n env el) el'" by (simp add: te)
  show "evictions_due n (unat (el_ttl_ns el)) t ?A (tick_events n env el)"
    using due by (simp add: te evictions_due_append evictions_due_logged evictions_due_queue due_queue_def)
qed

lemma worker_due:
  assumes inv: "el_inv n el" and due: "due_queue t el" and now: "\<And>k. unat (now k) \<le> t"
    and dr: "drain_batch now (el_candidates_in el) (el_expired_out el) (el_ttl_ns el) = (cin, out)"
  shows "el_inv n (el\<lparr>el_candidates_in := cin, el_expired_out := out\<rparr>)"
    and "due_queue t (el\<lparr>el_candidates_in := cin, el_expired_out := out\<rparr>)"
proof -
  have q: "spsc_inv CANDIDATES_IN_CAP (el_candidates_in el)" "spsc_inv EXPIRED_KEYS_CAP (el_expired_out el)"
    using inv by (auto simp: el_inv_def)
  from drain_batch_items [OF q, of now "el_ttl_ns el"] dr have
    r: "spsc_inv CANDIDATES_IN_CAP cin" "spsc_inv EXPIRED_KEYS_CAP out"
    "spsc_list EXPIRED_KEYS_CAP out = spsc_list EXPIRED_KEYS_CAP (el_expired_out el)
         @ take (EXPIRED_KEYS_CAP - length (spsc_list EXPIRED_KEYS_CAP (el_expired_out el)))
             (expired_in_batch now (el_ttl_ns el) (spsc_list CANDIDATES_IN_CAP (el_candidates_in el)))"
    by auto
  show "el_inv n (el\<lparr>el_candidates_in := cin, el_expired_out := out\<rparr>)"
    using inv r by (simp add: el_inv_def conns_ok_def)
  have e: "unat (cd_last_write_ts c) + unat (el_ttl_ns el) < t"
    if "c \<in> set (expired_in_batch now (el_ttl_ns el) cs)" for c cs
    using that now less_le_trans by (fastforce simp: expired_in_batch_def ttl_expired_def)
  then show "due_queue t (el\<lparr>el_candidates_in := cin, el_expired_out := out\<rparr>)"
    using due by (auto simp: due_queue_def r(3) dest!: in_set_takeD)
qed

text \<open>The state after any number of steps, seen from the start.\<close>

definition sys_ok :: "nat \<Rightarrow> event_loop \<Rightarrow> store_event list \<Rightarrow> system \<Rightarrow> bool" where
  "sys_ok n el0 evs S \<longleftrightarrow>
     (case S of (el, t) \<Rightarrow>
        el_inv n el \<and> el_ttl_ns el = el_ttl_ns el0 \<and> due_queue t el \<and> el_effect n el0 evs el
        \<and> evictions_due n (unat (el_ttl_ns el0)) t (store_view (el_store el0)) evs)"

lemma sys_step_ok:
  assumes "sys_step n S evs' S'" and "sys_ok n el0 evs S"
  shows "sys_ok n el0 (evs @ evs') S'"
  using assms
proof (induction rule: sys_step.induct)
  case (Clock t t' el)
  then show ?case by (auto simp: sys_ok_def due_queue_def intro: evictions_due_mono)
next
  case (Tick el env el' child t)
  then have old: "el_inv n el" "el_ttl_ns el = el_ttl_ns el0" "due_queue t el" "el_effect n el0 evs el"
    "evictions_due n (unat (el_ttl_ns el0)) t (store_view (el_store el0)) evs" by (simp_all add: sys_ok_def)
  note k = loop_tick_ok [OF old(1) Tick(2,3) old(3)]
  have "store_view (el_store el) = abs_run n (store_view (el_store el0)) evs"
    using old(4) by (simp add: el_effect_def)
  with old k el_effect_trans [OF old(4) k(4)] show ?case by (simp add: sys_ok_def evictions_due_append)
next
  case (Flush el t)
  then have "aof_ok (el_aof el)" by (simp add: sys_ok_def el_inv_def)
  from aol.flush_ok [OF this] Flush show ?case
    by (auto simp: sys_ok_def el_inv_def conns_ok_def due_queue_def el_effect_def
        intro: aof_evolves_trans [OF _ flush_once_evolves])
next
  case (Worker now t el cin out)
  then have "el_inv n el" "due_queue t el" by (simp_all add: sys_ok_def)
  from worker_due [OF this Worker(1,2)] Worker(3) show ?case
    by (simp add: sys_ok_def el_effect_def)
next
  case (Signal el t)
  then show ?case by (auto simp: sys_ok_def el_inv_def conns_ok_def due_queue_def el_effect_def)
qed

lemma sys_run_ok:
  assumes "sys_run n (el0, t0) evs S" and "el_inv n el0" and "due_queue t0 el0"
  shows "sys_ok n el0 evs S"
  using assms
proof (induction "(el0, t0)" evs S rule: sys_run.induct)
  case run_refl
  then show ?case by (simp add: sys_ok_def el_effect_refl)
next
  case (run_step evs S1 evs' S2)
  then show ?case using sys_step_ok by blast
qed

lemma sys_run_one: "sys_step n S evs S' \<Longrightarrow> sys_run n S evs S'"
  using sys_run.run_step [OF sys_run.run_refl] by fastforce

text \<open>\<open>run\<close> is such a run: its rounds one after the other.\<close>

lemma sys_run_trans: "sys_run n S1 evs S2 \<Longrightarrow> sys_run n S2 evs' S3 \<Longrightarrow> sys_run n S1 (evs @ evs') S3"
proof (rotate_tac, induction rule: sys_run.induct)
  case (run_step S evs S1 evs' S2)
  then show ?case using sys_run.run_step by (metis append_assoc)
qed simp

fun rounds_ok :: "nat \<Rightarrow> tick_env list \<Rightarrow> event_loop \<Rightarrow> bool" where
  "rounds_ok n [] el \<longleftrightarrow> True"
| "rounds_ok n (env # envs) el \<longleftrightarrow> el_shutdown_flag el
     \<or> (hash_order (st_map (el_store (drain_expired_keys el))) (te_order env)
        \<and> (case fst (loop_tick n env el) of Done el' \<Rightarrow> rounds_ok n envs el' | _ \<Rightarrow> True))"

fun run_events :: "nat \<Rightarrow> tick_env list \<Rightarrow> event_loop \<Rightarrow> store_event list" where
  "run_events n [] el = []"
| "run_events n (env # envs) el =
     (if el_shutdown_flag el then []
      else tick_events n env el
           @ (case fst (loop_tick n env el) of Done el' \<Rightarrow> run_events n envs el' | _ \<Rightarrow> []))"

lemma loop_run_sys_run:
  "loop_run n envs el = Done el' \<Longrightarrow> rounds_ok n envs el \<Longrightarrow> sys_run n (el, t) (run_events n envs el) (el', t)"
proof (induction n envs el rule: loop_run.induct)
  case (2 n env envs el)
  show ?case
  proof (cases "el_shutdown_flag el")
    case False
    with 2(2) obtain el1 child where t: "loop_tick n env el = (Done el1, child)" "loop_run n envs el1 = Done el'"
      by (cases "loop_tick n env el") (auto split: outcome.splits)
    with False 2(3) have ok: "hash_order (st_map (el_store (drain_expired_keys el))) (te_order env)" "rounds_ok n envs el1"
      by simp_all
    have "sys_run n (el, t) (tick_events n env el) (el1, t)"
      by (rule sys_run_one [OF sys_step.Tick [OF False ok(1) t(1)]])
    with 2(1) [OF False, of el1] t ok(2) False show ?thesis by (simp add: sys_run_trans)
  qed (use 2(2) in \<open>simp add: sys_run.run_refl\<close>)
qed (simp add: sys_run.run_refl)

section \<open>Crash and recovery\<close>

text \<open>
  Recovery from a snapshot of the state after some events and a cut of the log: the operations after
  the snapshot are replayed as far as their entries are complete.
\<close>

lemma recover_cut:
  assumes n: "compiled_n_ok n"
    and s: "store_inv s" "store_view s = Map.empty" "st_capacity s = word_of_nat n" "store_slots s < 2 ^ 32"
    and A: "A = abs_run n Map.empty p"
    and snap: "hash_order A order" "read_file (bin_path dir) = Inr (snapshot_bytes ts order A)"
    and log: "read_file path = Inr (take k (concat (map entry_bytes (logged p @ logged q))))"
    and times: "\<forall>x \<in> set (logged p). op_ts x \<le> ts" "\<forall>x \<in> set (logged q). ts < op_ts x"
    and K: "finite K" "dom A \<union> op_uid ` set (logged p @ logged q) \<subseteq> K" "card K \<le> store_slots s"
  shows "\<exists>m s'. recover read_file s dir path = Inr (Inr s') \<and> store_inv s'
     \<and> store_view s' = abs_replay n A (take m (logged q))
     \<and> (\<forall>i \<le> length (logged q). length (concat (map entry_bytes (logged p @ take i (logged q)))) \<le> k \<longrightarrow> i \<le> m)"
proof -
  have cap: "unat (st_capacity s) = n" using s(3) compiled_n_u16 [OF n] by simp
  have "histories_ok (unat (st_capacity s)) A" using n by (simp add: A cap histories_ok_run compiled_n_ok_def)
  from recover_holds_cut [where read_file = read_file and path = path,
      OF s(1,2,4) snapshot_holds_file [of read_file, OF snap(2,1)] this log times K] show ?thesis unfolding cap .
qed

lemma recover_run_cut:
  assumes e1: "el_effect n el0 evs1 el1" and e2: "el_effect n el1 evs2 el2" and n: "compiled_n_ok n"
    and fresh: "store_view (el_store el0) = Map.empty" "aw_stream (el_aof el0) = []"
    and s: "store_inv s" "store_view s = Map.empty" "st_capacity s = word_of_nat n" "store_slots s < 2 ^ 32"
    and snap: "hash_order (store_view (el_store el1)) order"
      "read_file (bin_path dir) = Inr (snapshot_bytes ts order (store_view (el_store el1)))"
    and log: "read_file path = Inr (take k (aw_stream (el_aof el2)))"
    and times: "\<forall>x \<in> set (logged evs1). op_ts x \<le> ts" "\<forall>x \<in> set (logged evs2). ts < op_ts x"
    and K: "finite K" "dom (store_view (el_store el1)) \<union> op_uid ` set (logged evs1 @ logged evs2) \<subseteq> K"
      "card K \<le> store_slots s"
  shows "\<exists>m s'. recover read_file s dir path = Inr (Inr s') \<and> store_inv s'
     \<and> store_view s' = abs_replay n (store_view (el_store el1)) (take m (logged evs2))
     \<and> (\<forall>i \<le> length (logged evs2).
          length (concat (map entry_bytes (logged evs1 @ take i (logged evs2)))) \<le> k \<longrightarrow> i \<le> m)"
proof (rule recover_cut [where read_file = read_file and dir = dir and path = path, OF n s _ snap _ times K])
  show "store_view (el_store el1) = abs_run n Map.empty evs1" using e1 fresh(1) by (simp add: el_effect_def)
  show "read_file path = Inr (take k (concat (map entry_bytes (logged evs1 @ logged evs2))))"
    using log e1 e2 fresh(2) by (simp add: el_effect_def)
qed

lemma recover_run:
  assumes e1: "el_effect n el0 evs1 el1" and e2: "el_effect n el1 evs2 el2" and n: "compiled_n_ok n"
    and fresh: "store_view (el_store el0) = Map.empty" "aw_stream (el_aof el0) = []"
    and s: "store_inv s" "store_view s = Map.empty" "st_capacity s = word_of_nat n" "store_slots s < 2 ^ 32"
    and snap: "hash_order (store_view (el_store el1)) order"
      "read_file (bin_path dir) = Inr (snapshot_bytes ts order (store_view (el_store el1)))"
    and log: "read_file path = Inr (aw_stream (el_aof el2))"
    and times: "\<forall>x \<in> set (logged evs1). op_ts x \<le> ts" "\<forall>x \<in> set (logged evs2). ts < op_ts x"
    and K: "finite K" "dom (store_view (el_store el1)) \<union> op_uid ` set (logged evs1 @ logged evs2) \<subseteq> K"
      "card K \<le> store_slots s"
  shows "\<exists>s'. recover read_file s dir path = Inr (Inr s') \<and> store_inv s'
     \<and> (\<forall>uid. Evicted uid \<notin> set evs2 \<longrightarrow> store_view s' uid = store_view (el_store el2) uid)"
proof -
  let ?A = "store_view (el_store el1)" and ?all = "length (aw_stream (el_aof el2))"
  have l: "read_file path = Inr (take ?all (aw_stream (el_aof el2)))" using log by simp
  have "length (concat (map entry_bytes (logged evs1 @ take (length (logged evs2)) (logged evs2)))) \<le> ?all"
    using e1 e2 fresh(2) by (simp add: el_effect_def)
  with recover_run_cut [OF e1 e2 n fresh s snap l times K] obtain m s' where
    s': "recover read_file s dir path = Inr (Inr s')" "store_inv s'" "store_view s' = abs_replay n ?A (take m (logged evs2))"
    "length (logged evs2) \<le> m" by blast
  have "store_view s' uid = store_view (el_store el2) uid" if "Evicted uid \<notin> set evs2" for uid
    using abs_run_not_evicted [OF that, of ?A ?A n] e2 s'(3,4) by (simp add: el_effect_def)
  with s' show ?thesis by blast
qed

section \<open>Properties\<close>

text \<open>A round in which the sample connection is readable, and the state after it.\<close>

definition sample_env :: "u64 \<Rightarrow> int \<Rightarrow> tick_env" where
  "sample_env t pid = \<lparr>te_collect_now = t, te_order = [], te_snapshot_now = t + 1, te_wait_ret = 0, te_fork_ret = pid,
     te_events = [\<lparr>re_fd = 5, re_in = True, re_out = False, re_accepts = [], re_now = t + 2\<rparr>]\<rparr>"

abbreviation sample_start :: event_loop where
  "sample_start \<equiv> sample_loop (request_frame OPCODE_PUSH 7 (record_to_bytes default_record))"

lemma sample_due: "due_queue t sample_start"
  by (simp add: due_queue_def sample_loop_inv)

lemma sample_drained:
  shows "hash_order (st_map (el_store (drain_expired_keys sample_start))) []"
    and "store_view (el_store (drain_expired_keys sample_start)) = Map.empty"
    and "store_slots (el_store (drain_expired_keys sample_start)) = 4"
    and "\<not> el_shutdown_flag sample_start"
proof -
  note d = drain_expired_keys_ok [OF sample_loop_inv(1)]
  show v: "store_view (el_store (drain_expired_keys sample_start)) = Map.empty"
    "store_slots (el_store (drain_expired_keys sample_start)) = 4"
    using d(2) by (simp_all add: el_effect_def sample_loop_inv sample_loop_fields sample_store_ok)
  then show "hash_order (st_map (el_store (drain_expired_keys sample_start))) []"
    using dom_store_view [of "el_store (drain_expired_keys sample_start)"] by (simp add: hash_order_def)
  show "\<not> el_shutdown_flag sample_start" by (simp add: sample_loop_def event_loop_new_def set_conn_def)
qed

lemma sample_round:
  obtains el where "loop_tick 2 (sample_env t pid) sample_start
      = (Done el, map_option (\<lambda>ts. (ts, el_store (drain_expired_keys sample_start)))
          (snd (maybe_fork (t + 1) 0 pid (el_snapshot sample_start) 120000000000)))"
    and "tick_events 2 (sample_env t pid) sample_start = [Logged (LPush 7 default_record (t + 2))]"
    and "el_inv 2 el" and "store_view (el_store el) = [7 \<mapsto> ([default_record], t + 2)]"
    and "aw_stream (el_aof el) = entry_bytes (LPush 7 default_record (t + 2))"
proof -
  let ?el = sample_start
  let ?el1 = "drain_expired_keys ?el" let ?el2 = "collect_ttl_candidates t [] ?el1"
  note d = drain_expired_keys_ok [OF sample_loop_inv(1)] and v1 = sample_drained(2,3)
  have st1: "el_connections ?el1 = el_connections ?el" "el_kernel ?el1 = el_kernel ?el" "el_aof ?el1 = el_aof ?el"
    "el_listen_fd ?el1 = el_listen_fd ?el" "el_snapshot ?el1 = el_snapshot ?el" "el_config ?el1 = el_config ?el"
    by (simp_all add: drain_expired_keys_def split: prod.split)
  note c = collect_ttl_ok [OF d(1) sample_drained(1), of t]
  have st2: "el_connections ?el2 = el_connections ?el" "el_kernel ?el2 = el_kernel ?el" "el_listen_fd ?el2 = el_listen_fd ?el"
    "el_snapshot ?el2 = el_snapshot ?el" "el_config ?el2 = sample_config"
    using st1 by (simp_all add: collect_ttl_candidates_def Let_def sample_loop_def event_loop_new_def set_conn_def)
  obtain sm child where mf: "maybe_fork (t + 1) 0 pid (el_snapshot ?el) 120000000000 = (sm, child)" by fastforce
  have iv: "ucast (snapshot_interval (el_config ?el2)) * 1000000000 = (120000000000 :: u64)"
    by (simp add: st2(5) sample_config_def)
  let ?el3 = "?el2\<lparr>el_snapshot := sm\<rparr>"
  have inv3: "el_inv 2 ?el3" using c(1) by (simp add: el_inv_def conns_ok_def)
  let ?c = "connection_new 2 (\<lambda>_. 0) 5"
  have rc: "received ?c = []" "cn_state ?c \<in> {ReadHeader, ReadPayload}" by (simp_all add: received_def connection_new_def)
  have c3: "el_connections ?el3 5 = Some ?c" "reads_flow (k_socks (el_kernel ?el3) 5)"
    "received ?c @ sk_in (k_socks (el_kernel ?el3) 5) = request_frame OPCODE_PUSH 7 (record_to_bytes default_record) @ []"
    using st2 rc(1) by (simp_all add: sample_loop_fields)
  have room: "7 \<in> dom (store_view (el_store ?el3))
      \<or> card (dom (store_view (el_store ?el3))) < store_slots (el_store ?el3)" using c(2) v1 by simp
  from push_request_ok [OF inv3 c3(1) rc(2) c3(2,3) room, of "t + 2"] obtain el' where
    el': "handle_read 2 (t + 2) ?el3 5 = Done el'" "el_inv 2 el'"
    "store_view (el_store el') = abs_push 2 (store_view (el_store ?el3)) 7 default_record (t + 2)"
    "aw_stream (el_aof el') = aw_stream (el_aof ?el3) @ entry_bytes (LPush 7 default_record (t + 2))"
    "handle_read_ops (t + 2) ?el3 5 = [LPush 7 default_record (t + 2)]" by blast
  have ld: "el_listen_fd ?el3 = 3" using st2(3) by (simp add: sample_loop_def event_loop_new_def)
  have te: "tick_events 2 (sample_env t pid) ?el = [Logged (LPush 7 default_record (t + 2))]"
    using mf el'(1,5) ld sample_loop_inv(2) iv st2(4)
    by (simp add: tick_events_def sample_env_def MAX_EPOLL_EVENTS_def dispatch_event_def event_ops_def)
  from ld have "dispatch_all 2 ?el3 (take MAX_EPOLL_EVENTS (te_events (sample_env t pid))) = Done el'"
    using el'(1) by (simp add: sample_env_def MAX_EPOLL_EVENTS_def dispatch_event_def)
  then have "loop_tick 2 (sample_env t pid) ?el = (Done el', map_option (\<lambda>ts. (ts, el_store ?el1)) child)"
    using mf c(2) iv st2(4) by (simp add: loop_tick_def Let_def sample_env_def)
  moreover have "store_view (el_store el') = [7 \<mapsto> ([default_record], t + 2)]"
    using el'(3) c(2) v1 by (simp add: abs_push_def hist_records_def)
  moreover have "aw_stream (el_aof el') = entry_bytes (LPush 7 default_record (t + 2))"
    using el'(4) c(3) st1(3) by (simp add: sample_loop_fields sample_writer_ok)
  ultimately show ?thesis using that el'(2) te mf by simp
qed

lemma sample_tick:
  obtains el where "sys_step 2 (sample_start, 0) [Logged (LPush 7 default_record 40)] (el, 0)" and "el_inv 2 el"
    and "store_view (el_store el) = [7 \<mapsto> ([default_record], 40)]"
    and "aw_stream (el_aof el) = entry_bytes (LPush 7 default_record 40)"
proof -
  have t: "38 + 2 = (40 :: u64)" by simp
  obtain el child where
    el: "loop_tick 2 (sample_env 38 (- 1)) sample_start = (Done el, child)"
      "tick_events 2 (sample_env 38 (- 1)) sample_start = [Logged (LPush 7 default_record 40)]" "el_inv 2 el"
      "store_view (el_store el) = [7 \<mapsto> ([default_record], 40)]" "aw_stream (el_aof el) = entry_bytes (LPush 7 default_record 40)"
    using sample_round [of 38 "- 1", unfolded t] by blast
  have "hash_order (st_map (el_store (drain_expired_keys sample_start))) (te_order (sample_env 38 (- 1)))"
    using sample_drained(1) by (simp add: sample_env_def)
  from sys_step.Tick [OF sample_drained(4) this el(1), of 0] el that show ?thesis by simp
qed

text \<open>
  C2: crash recovery. A server that starts empty runs, its snapshot child dumps the store, and it
  runs on until it shuts down and drains its log. A new process that finds these two files, with a
  slot for every key in them and with timestamps that grew across the snapshot, recovers a
  well-formed store in which every user has the history and last-write time of the old server,
  except the users that the old server evicted after the snapshot.
\<close>

theorem crash_recovery:
  assumes "sys_run n (el0, t0) evs1 (el1, t1)" and "sys_run n (el1, t1) evs2 (el2, t2)"
    and "el_inv n el0" and "due_queue t0 el0"
    and "store_view (el_store el0) = Map.empty" and "aw_stream (el_aof el0) = []"
    and "hash_order (st_map (el_store el1)) order" and "dump_env_ok env"
    and "dump_to_path env order (el_store el1) dir ts fs = (Inr (), fs1)"
    and "fs2 = fs1(path \<mapsto> af_bytes (aw_file (aof_shutdown k (el_aof el2))))" and "path \<noteq> bin_path dir"
    and "\<forall>x \<in> set (logged evs1). op_ts x \<le> ts" and "\<forall>x \<in> set (logged evs2). ts < op_ts x"
    and "store_inv s" and "store_view s = Map.empty" and "st_capacity s = word_of_nat n"
    and "card (op_uid ` set (logged evs1 @ logged evs2)) \<le> store_slots s" and "store_slots s < 2 ^ 32"
  shows "\<exists>s'. recover (fs_read fs2) s dir path = Inr (Inr s') \<and> store_inv s'
     \<and> (\<forall>uid. Evicted uid \<notin> set evs2 \<longrightarrow> store_view s' uid = store_view (el_store el2) uid)"
proof -
  note r1 = sys_run_ok [OF assms(1,3,4)]
  then have e1: "el_effect n el0 evs1 el1" "el_inv n el1" "due_queue t1 el1" by (simp_all add: sys_ok_def)
  note r2 = sys_run_ok [OF assms(2) e1(2,3)]
  then have e2: "el_effect n el1 evs2 el2" "el_inv n el2" by (simp_all add: sys_ok_def)
  have n: "compiled_n_ok n" using assms(3) by (simp add: el_inv_def)
  have inv: "store_inv (el_store el1)" "aof_ok (el_aof el2)" using e1(2) e2(2) by (simp_all add: el_inv_def)
  let ?A = "store_view (el_store el1)" and ?K = "op_uid ` set (logged evs1 @ logged evs2)"
  have dom: "dom ?A \<union> ?K \<subseteq> ?K"
    using e1(1) assms(5) dom_abs_run [of n Map.empty evs1] by (auto simp: el_effect_def)
  have "fs_read fs2 (bin_path dir) = Inr (snapshot_bytes ts order ?A)"
    using dump_to_path_ok [OF inv(1) assms(7,8), of dir ts fs] assms(9-11)
    by (auto simp: fs_read_def bin_path_def tmp_path_def)
  moreover have "fs_read fs2 path = Inr (aw_stream (el_aof el2))"
    using aof_shutdown_ok [OF inv(2), of k] assms(10) by (simp add: fs_read_def)
  moreover have "hash_order ?A order" using assms(7) by (simp add: hash_order_def)
  ultimately show ?thesis
    using recover_run [OF e1(1) e2(1) n assms(5,6,14-16,18) _ _ _ assms(12,13) _ dom assms(17)] by simp
qed

theorem crash_recovery_witness:
  "\<exists>el fs2 s'. sys_run 2 (sample_start, 0) [Logged (LPush 7 default_record 40)] (el, 0)
     \<and> fs2 = (snd (dump_to_path good_env [] sample_store ''d'' 30 Map.empty))
         (''log'' \<mapsto> af_bytes (aw_file (aof_shutdown 2 (el_aof el))))
     \<and> recover (fs_read fs2) sample_store ''d'' ''log'' = Inr (Inr s')
     \<and> store_view s' 7 = Some ([default_record], 40)"
proof -
  from sample_tick obtain el where el: "sys_step 2 (sample_start, 0) [Logged (LPush 7 default_record 40)] (el, 0)"
    "store_view (el_store el) = [7 \<mapsto> ([default_record], 40)]" by blast
  note run = sys_run_one [OF el(1)]
  have order: "hash_order (st_map (el_store sample_start)) []"
    using dom_store_view [of sample_store] by (simp add: hash_order_def sample_loop_fields sample_store_ok)
  let ?fs1 = "snd (dump_to_path good_env [] sample_store ''d'' 30 Map.empty)"
  have fs1: "dump_to_path good_env [] (el_store sample_start) ''d'' 30 Map.empty = (Inr (), ?fs1)"
    using dump_to_path_ok [OF sample_store_ok(1) _ good_env_ok, of "[]" "''d''" 30 Map.empty] order
    by (simp add: sample_loop_fields)
  from crash_recovery [OF run_refl run sample_loop_inv(1) sample_due _ _ order good_env_ok fs1 refl,
      where s = sample_store and path = "''log''" and k = 2] obtain s' where
    "recover (fs_read (?fs1(''log'' \<mapsto> af_bytes (aw_file (aof_shutdown 2 (el_aof el)))))) sample_store ''d'' ''log''
       = Inr (Inr s')" "store_view s' 7 = store_view (el_store el) 7"
    by (auto simp: sample_loop_fields sample_store_ok sample_writer_ok bin_path_def)
  with run el(2) show ?thesis by fastforce
qed

text \<open>
  C4: every run of the server, whatever the clients send and however the flush thread and the TTL
  worker interleave with the loop, keeps the invariant of all components; the store is the result of
  the events of the run and the log stream grows by the entries of its logged events, in order; and
  every eviction in it hits a key last written more than the time to live ago.
\<close>

theorem server_history:
  assumes "sys_run n (el0, t0) evs (el, t)" and "el_inv n el0" and "due_queue t0 el0"
  shows "el_inv n el \<and> store_view (el_store el) = abs_run n (store_view (el_store el0)) evs
     \<and> aw_stream (el_aof el) = aw_stream (el_aof el0) @ concat (map entry_bytes (logged evs))
     \<and> evictions_due n (unat (el_ttl_ns el0)) t (store_view (el_store el0)) evs"
  using sys_run_ok [OF assms] by (simp add: sys_ok_def el_effect_def)

theorem server_history_witness:
  "\<exists>el. sys_run 2 (sample_start, 0) [Logged (LPush 7 default_record 40)] (el, 0) \<and> el_inv 2 el
     \<and> aw_stream (el_aof el) = entry_bytes (LPush 7 default_record 40)
     \<and> store_view (el_store el) = [7 \<mapsto> ([default_record], 40)]"
proof -
  from sample_tick obtain el where el: "sys_step 2 (sample_start, 0) [Logged (LPush 7 default_record 40)] (el, 0)"
    by blast
  note run = sys_run_one [OF el(1)]
  from server_history [OF run sample_loop_inv(1) sample_due] run show ?thesis
    by (intro exI [of _ el]) (simp add: sample_loop_fields sample_store_ok sample_writer_ok abs_push_def hist_records_def)
qed

text \<open>
  C14: no live key is ever evicted: in every reachable state, a round of eviction keeps the history
  of every user that was written within the time to live.
\<close>

theorem no_early_eviction:
  assumes "sys_run n (el0, t0) evs (el, t)" and "el_inv n el0" and "due_queue t0 el0"
    and "store_view (el_store el) uid = Some (h, ts)" and "t \<le> unat ts + unat (el_ttl_ns el)"
  shows "store_view (el_store (drain_expired_keys el)) uid = Some (h, ts)"
proof -
  have ok: "el_inv n el" "due_queue t el" using sys_run_ok [OF assms(1-3)] by (simp_all add: sys_ok_def)
  then have "unat ts + unat (el_ttl_ns el) < t"
    if "c \<in> set (spsc_list EXPIRED_KEYS_CAP (el_expired_out el))" "cd_last_write_ts c = ts" for c
    using that by (auto simp: due_queue_def)
  with assms(4,5) drain_expired_keys_ok(2) [OF ok(1)] show ?thesis
    by (fastforce simp: el_effect_def abs_run_evictions)
qed

theorem no_early_eviction_witness:
  "\<exists>el evs. sys_run 2 (sample_start, 0) evs (el, 50)
     \<and> store_view (el_store (drain_expired_keys el)) 7 = Some ([default_record], 40)"
proof -
  from sample_tick obtain el where el: "sys_step 2 (sample_start, 0) [Logged (LPush 7 default_record 40)] (el, 0)"
    "store_view (el_store el) = [7 \<mapsto> ([default_record], 40)]" by blast
  note run1 = sys_run_one [OF el(1)]
  have run: "sys_run 2 (sample_start, 0) ([Logged (LPush 7 default_record 40)] @ []) (el, 50)"
    by (rule run_step [OF run1]) (simp add: sys_step.Clock)
  have "el_ttl_ns el = el_ttl_ns sample_start"
    using sys_run_ok [OF run1 sample_loop_inv(1) sample_due] by (simp add: sys_ok_def)
  then have "el_ttl_ns el = 60000000000" by (simp add: sample_loop_def event_loop_new_def set_conn_def sample_config_def)
  then have "50 \<le> unat (40 :: u64) + unat (el_ttl_ns el)" by simp
  with no_early_eviction [OF run sample_loop_inv(1) sample_due, of 7 "[default_record]" 40] el(2) run
  show ?thesis by fastforce
qed

text \<open>
  C17: the data of a running server is always well typed. Every connection has its two buffers at
  their full size, with positions inside them, and is never left half-way through a command; every
  ring buffer has the compiled capacity, a head inside it and a count within it, and no two users
  share a slot.
\<close>

theorem server_data_well_typed:
  assumes "sys_run n (el0, t0) evs (el, t)" and "el_inv n el0" and "due_queue t0 el0"
  shows "(\<forall>fd c. el_connections el fd = Some c \<longrightarrow>
            length (cn_rbuf c) = 32 \<and> length (cn_wbuf c) = WBUF_SIZE n \<and> cn_state c \<noteq> Process
            \<and> (cn_state c \<noteq> WriteResponse \<longrightarrow> cn_rbuf_pos c < 26)
            \<and> (cn_state c = WriteResponse \<longrightarrow> cn_wbuf_pos c < cn_wbuf_len c \<and> cn_wbuf_len c \<le> WBUF_SIZE n))
     \<and> (\<forall>uid b. st_map (el_store el) uid = Some b \<longrightarrow>
            unat (rb_capacity b) = n \<and> rb_head b < rb_capacity b \<and> rb_count b \<le> rb_capacity b
            \<and> (\<forall>v b'. st_map (el_store el) v = Some b' \<and> rb_data b' = rb_data b \<longrightarrow> v = uid))"
proof -
  have inv: "el_inv n el" using sys_run_ok [OF assms] by (simp add: sys_ok_def)
  then have st: "store_bufs_ok (el_store el)" and cap: "unat (st_capacity (el_store el)) = n"
    using compiled_n_u16 by (auto simp: el_inv_def store_inv_def)
  have "length (cn_rbuf c) = 32 \<and> length (cn_wbuf c) = WBUF_SIZE n \<and> cn_state c \<noteq> Process
      \<and> (cn_state c \<noteq> WriteResponse \<longrightarrow> cn_rbuf_pos c < 26)
      \<and> (cn_state c = WriteResponse \<longrightarrow> cn_wbuf_pos c < cn_wbuf_len c \<and> cn_wbuf_len c \<le> WBUF_SIZE n)"
    if "el_connections el fd = Some c" for fd c
  proof -
    have c: "conn_inv n c" "cn_state c \<noteq> Process" using inv that by (auto simp: el_inv_def conns_ok_def)
    then show ?thesis
      using payload_len_le [of c] by (cases "cn_state c") (auto simp: conn_inv_def conn_sizes_def)
  qed
  moreover have "unat (rb_capacity b) = n \<and> rb_head b < rb_capacity b \<and> rb_count b \<le> rb_capacity b
      \<and> (\<forall>v b'. st_map (el_store el) v = Some b' \<and> rb_data b' = rb_data b \<longrightarrow> v = uid)"
    if "st_map (el_store el) uid = Some b" for uid b
    using store_bufs_okD [OF st that] store_bufs_ok_inj [OF st] that cap by (auto simp: rb_inv_def)
  ultimately show ?thesis by blast
qed

theorem server_data_well_typed_witness:
  "\<exists>el b. sys_run 2 (sample_start, 0) [Logged (LPush 7 default_record 40)] (el, 0)
     \<and> st_map (el_store el) 7 = Some b \<and> unat (rb_capacity b) = 2 \<and> rb_head b < rb_capacity b"
proof -
  from sample_tick obtain el where el: "sys_step 2 (sample_start, 0) [Logged (LPush 7 default_record 40)] (el, 0)"
    "store_view (el_store el) = [7 \<mapsto> ([default_record], 40)]" by blast
  note run = sys_run_one [OF el(1)]
  have "7 \<in> dom (st_map (el_store el))" using el(2) dom_store_view [of "el_store el"] by auto
  then obtain b where "st_map (el_store el) 7 = Some b" by blast
  with server_data_well_typed [OF run sample_loop_inv(1) sample_due] run show ?thesis by blast
qed

end
