(* ===== verification/Startup.thy ===== *)
theory Startup
  imports System Config
begin

text \<open>
  \<^verbatim>\<open>src/main.rs\<close>, \<^verbatim>\<open>src/time.rs\<close> and \<^verbatim>\<open>bind_listen_socket\<close> of \<^verbatim>\<open>src/event_loop.rs\<close>: the order of
  startup with every way it can end. Whatever the
  configuration file, the snapshot and the log contain, a process that gets as far as its loop is in
  a state from which the theorems of \<open>System\<close> apply (\<open>startup_inv\<close>).
\<close>

section \<open>The model\<close>

text \<open>\<^verbatim>\<open>now_ns\<close>: \<open>ret\<close>, \<open>tv_sec\<close> and \<open>tv_nsec\<close> are the answer of \<^verbatim>\<open>clock_gettime\<close>.\<close>

definition now_ns :: "int \<Rightarrow> int \<Rightarrow> int \<Rightarrow> panic + u64" where
  "now_ns ret tv_sec tv_nsec =
     (if ret \<noteq> 0 then Inl (Panic ''clock_gettime failed'')
      else Inr (word_of_int tv_sec * 1000000000 + word_of_int tv_nsec))"

text \<open>The answers of \<^verbatim>\<open>socket\<close> and \<^verbatim>\<open>bind\<close>; those of \<^verbatim>\<open>setsockopt\<close> and \<^verbatim>\<open>listen\<close> are not looked at.\<close>

definition bind_listen_socket :: "int \<Rightarrow> int \<Rightarrow> panic + int" where
  "bind_listen_socket socket_ret bind_ret =
     (if socket_ret < 0 then Inl (Panic ''socket() failed'')
      else if bind_ret \<noteq> 0 then Inl (Panic ''bind() failed'')
      else Inr socket_ret)"

text \<open>What the process finds: arguments, files, memory, descriptors.\<close>

record boot_env =
  be_args :: "string list"
  be_read_text :: "string \<Rightarrow> io_error + string"
  be_toml :: "string \<Rightarrow> toml_table option"
  be_region :: "addr option"
  be_mem :: mem
  be_socket :: int
  be_bind :: int
  be_open :: "string \<Rightarrow> io_error + int"
  be_file :: "string \<Rightarrow> aof_file"
  be_read :: "string \<Rightarrow> io_error + bytes"
  be_epoll :: int
  be_kernel :: kernel

datatype boot_failure = ExitOne weloxs_error | BootPanic panic

text \<open>\<^verbatim>\<open>main\<close> up to the call of \<^verbatim>\<open>run\<close>.\<close>

definition startup :: "nat \<Rightarrow> boot_env \<Rightarrow> boot_failure + event_loop" where
  "startup n env =
     (case config_from_args (be_read_text env) (be_toml env) n (be_args env) of
        Inl e \<Rightarrow> Inl (ExitOne e)
      | Inr cfg \<Rightarrow>
     (case with_pool_slots n (memory_pool_slots cfg) (be_region env) (be_mem env) of
        Inl p \<Rightarrow> Inl (BootPanic p)
      | Inr s \<Rightarrow>
     (case bind_listen_socket (be_socket env) (be_bind env) of
        Inl p \<Rightarrow> Inl (BootPanic p)
      | Inr listen_fd \<Rightarrow>
     (case aof_open (be_open env) (be_file env (aof_path cfg)) (aof_path cfg) (aof_fsync cfg) of
        Inl p \<Rightarrow> Inl (BootPanic p)
      | Inr (Inl e) \<Rightarrow> Inl (ExitOne e)
      | Inr (Inr aof) \<Rightarrow>
     (case recover (be_read env) s (snapshot_path cfg) (aof_path cfg) of
        Inl p \<Rightarrow> Inl (BootPanic p)
      | Inr (Inl e) \<Rightarrow> Inl (ExitOne e)
      | Inr (Inr s') \<Rightarrow>
     (case event_loop_new (be_epoll env) (be_kernel env) cfg s' aof listen_fd False of
        Inl p \<Rightarrow> Inl (BootPanic p)
      | Inr el \<Rightarrow> Inr el))))))"

subsection \<open>Signals\<close>

text \<open>
  \<^verbatim>\<open>SHUTDOWN_PTR\<close> is null or points to the flag of the loop; \<open>handle_signal\<close> gets which, and the flag.
  \<open>deliver_signal\<close> is what the kernel does with a signal under the installed dispositions: \<open>None\<close> is
  the default action, the end of the process. The loop reads the flag only at the start of a round, so
  a signal during a round is one before the next. \<open>SIGHUP\<close> stands for the signals the program leaves
  alone.
\<close>

datatype signal = SIGPIPE | SIGTERM | SIGINT | SIGHUP

datatype disposition = SIG_DFL | SIG_IGN | Handle_signal

definition handle_signal :: "bool \<Rightarrow> bool \<Rightarrow> bool" where
  "handle_signal ptr_is_null flag = (if \<not> ptr_is_null then True else flag)"

definition install_signal_handlers :: "(signal \<Rightarrow> disposition) \<Rightarrow> signal \<Rightarrow> disposition" where
  "install_signal_handlers d = d(SIGPIPE := SIG_IGN, SIGTERM := Handle_signal, SIGINT := Handle_signal)"

definition deliver_signal :: "(signal \<Rightarrow> disposition) \<Rightarrow> signal \<Rightarrow> event_loop \<Rightarrow> event_loop option" where
  "deliver_signal d sig el =
     (case d sig of
        SIG_DFL \<Rightarrow> None
      | SIG_IGN \<Rightarrow> Some el
      | Handle_signal \<Rightarrow> Some (el\<lparr>el_shutdown_flag := handle_signal False (el_shutdown_flag el)\<rparr>))"

section \<open>The state after startup\<close>

text \<open>
  What the operating system has to grant: a region for the slots, a valid descriptor, and a log
  file on which writes and syncs work.
\<close>

definition os_ok :: "nat \<Rightarrow> boot_env \<Rightarrow> config \<Rightarrow> bool" where
  "os_ok n env cfg \<longleftrightarrow>
     0 < memory_pool_slots cfg
     \<and> (case be_region env of
          None \<Rightarrow> True
        | Some base \<Rightarrow> region_ok base (sa_slot_size (word_of_nat n)) (unat (memory_pool_slots cfg)))
     \<and> (case be_open env (aof_path cfg) of Inl e \<Rightarrow> True | Inr fd \<Rightarrow> 0 \<le> fd)
     \<and> (let f = be_file env (aof_path cfg)
        in af_writes f = [] \<and> af_syncs f = [] \<and> af_durable f \<le> length (af_bytes f))"

lemma startupE:
  assumes "startup n env = Inr el"
  obtains cfg s aof listen_fd s' where
    "config_from_args (be_read_text env) (be_toml env) n (be_args env) = Inr cfg"
    and "with_pool_slots n (memory_pool_slots cfg) (be_region env) (be_mem env) = Inr s"
    and "aof_open (be_open env) (be_file env (aof_path cfg)) (aof_path cfg) (aof_fsync cfg) = Inr (Inr aof)"
    and "recover (be_read env) s (snapshot_path cfg) (aof_path cfg) = Inr (Inr s')"
    and "event_loop_new (be_epoll env) (be_kernel env) cfg s' aof listen_fd False = Inr el"
  using assms that by (auto simp: startup_def split: sum.splits)

lemma no_region_panics: "with_pool_slots n slots None m \<noteq> Inr s"
  by (auto simp: with_pool_slots_def store_alloc_new_def memory_pool_new_def Let_def split: sum.splits if_splits)

lemma startup_inv:
  assumes st: "startup n env = Inr el" and n: "compiled_n_ok n" and os: "os_ok n env (el_config el)"
  obtains s s' where
    "with_pool_slots n (memory_pool_slots (el_config el)) (be_region env) (be_mem env) = Inr s"
    and "recover (be_read env) s (snapshot_path (el_config el)) (aof_path (el_config el)) = Inr (Inr s')"
    and "el_store el = s'" and "el_inv n el" and "due_queue t el" and "config_ok n (el_config el)"
    and "aw_stream (el_aof el) = af_bytes (be_file env (aof_path (el_config el)))"
proof -
  from st obtain cfg s aof listen_fd s' where
    c: "config_from_args (be_read_text env) (be_toml env) n (be_args env) = Inr cfg"
    and s: "with_pool_slots n (memory_pool_slots cfg) (be_region env) (be_mem env) = Inr s"
    and a: "aof_open (be_open env) (be_file env (aof_path cfg)) (aof_path cfg) (aof_fsync cfg) = Inr (Inr aof)"
    and r: "recover (be_read env) s (snapshot_path cfg) (aof_path cfg) = Inr (Inr s')"
    and l: "event_loop_new (be_epoll env) (be_kernel env) cfg s' aof listen_fd False = Inr el"
    by (rule startupE)
  from l have el: "el_config el = cfg" "el_store el = s'" "el_aof el = aof"
    by (auto simp: event_loop_new_def split: if_splits)
  from s no_region_panics obtain base where base: "be_region env = Some base" by (cases "be_region env") auto
  note w = with_pool_slots_inv [OF compiled_n_u16_pos [OF n], of "memory_pool_slots cfg" base "be_mem env" s]
  have inv: "store_inv s" "st_capacity s = word_of_nat n" using w os s base el(1) by (simp_all add: os_ok_def)
  from recover_shape [OF inv(1), of "be_read env" "snapshot_path cfg" "aof_path cfg"] r
  have s': "store_inv s'" "st_capacity s' = word_of_nat n" using inv(2) by (simp_all add: same_shape_def)
  obtain fd where fd: "be_open env (aof_path cfg) = Inr fd"
    using a by (auto simp: aof_open_def split: if_splits sum.splits)
  have ok: "aof_ok aof" "aw_stream aof = af_bytes (be_file env (aof_path cfg))"
    using aof_open_ok [OF a fd] os fd el(1) by (simp_all add: os_ok_def Let_def)
  note e = event_loop_new_inv [OF l n s' ok(1)]
  have "due_queue t el" using e(2) by (simp add: due_queue_def)
  moreover have "config_ok n cfg"
    using c config_validate_ok by (auto simp: config_from_args_def config_from_file_def Let_def split: sum.splits option.splits)
  ultimately show thesis using that [of s s'] s r el e(1) ok(2) by simp
qed

lemma event_loop_shutdown_aof: "el_aof (event_loop_shutdown rounds final k fds el) = aof_shutdown k (el_aof el)"
proof -
  have "el_aof (fold (\<lambda>fd e. close_fd e fd) fds e) = el_aof e" for e
    by (induction fds arbitrary: e) simp_all
  then show ?thesis by (auto simp: event_loop_shutdown_def Let_def split: option.split prod.split)
qed

lemma startup_run:
  assumes "startup n env = Inr el0" and "compiled_n_ok n" and "os_ok n env (el_config el0)"
    and "sys_run n (el0, t0) evs (el, t)"
  shows "el_inv n el" and "el_effect n el0 evs el"
    and "af_bytes (aw_file (aof_shutdown k (el_aof el)))
       = af_bytes (be_file env (aof_path (el_config el0))) @ concat (map entry_bytes (logged evs))"
proof -
  obtain s s' where s: "el_inv n el0" "due_queue t0 el0"
    "aw_stream (el_aof el0) = af_bytes (be_file env (aof_path (el_config el0)))"
    by (rule startup_inv [OF assms(1-3)])
  show "el_inv n el" "el_effect n el0 evs el" using sys_run_ok [OF assms(4) s(1,2)] by (simp_all add: sys_ok_def)
  then have "aof_ok (el_aof el)" by (simp add: el_inv_def)
  from aof_shutdown_ok [OF this, of k] \<open>el_effect n el0 evs el\<close> s(3)
  show "af_bytes (aw_file (aof_shutdown k (el_aof el)))
      = af_bytes (be_file env (aof_path (el_config el0))) @ concat (map entry_bytes (logged evs))"
    by (simp add: el_effect_def)
qed

text \<open>The clock does not wrap before the year 2554.\<close>

lemma now_ns_exact:
  assumes "0 \<le> sec" and "sec < 18446744073" and "0 \<le> nsec" and "nsec < 1000000000"
  shows "\<exists>t. now_ns 0 sec nsec = Inr t \<and> uint t = sec * 1000000000 + nsec"
proof -
  let ?t = "word_of_int (sec * 1000000000 + nsec) :: u64"
  have t: "now_ns 0 sec nsec = Inr ?t" by (simp add: now_ns_def)
  have "0 \<le> sec * 1000000000 + nsec" "sec * 1000000000 + nsec < 2 ^ 64" using assms by simp_all
  then have "uint ?t = sec * 1000000000 + nsec" by (simp only: uint_word_of_int) (simp add: take_bit_int_eq_self)
  with t show ?thesis by blast
qed

text \<open>A process with a log of one entry.\<close>

definition sample_boot :: boot_env where
  "sample_boot = \<lparr>be_args = [''lloogg''], be_read_text = (\<lambda>_. Inr []),
     be_toml = (\<lambda>_. Some \<lparr>tt_max_records = Some 2, tt_ttl_seconds = Some 60, tt_aof_path = Some ''log'',
        tt_snapshot_path = Some ''d'', tt_snapshot_interval = None, tt_listen_port = None,
        tt_memory_pool_slots = Some 4, tt_aof_fsync = None\<rparr>),
     be_region = Some 4096, be_mem = (\<lambda>_. 0), be_socket = 3, be_bind = 0, be_open = (\<lambda>_. Inr 4),
     be_file = (\<lambda>_. sample_file\<lparr>af_bytes := entry_bytes (LPush 7 default_record 5)\<rparr>),
     be_read = (\<lambda>p. if p = ''log'' then Inr (entry_bytes (LPush 7 default_record 5)) else Inl NotFound),
     be_epoll = 6, be_kernel = sample_kernel []\<rparr>"

lemma sample_boot_recovers:
  obtains s' where "recover (be_read sample_boot) sample_store ''d'' ''log'' = Inr (Inr s')"
    and "store_view s' = [7 \<mapsto> ([default_record], 5)]"
proof -
  let ?ops = "[LPush 7 default_record 5]"
  have f: "be_read sample_boot (bin_path ''d'') = Inl NotFound"
    "be_read sample_boot ''log'' = Inr (concat (map entry_bytes ?ops) @ [])"
    by (simp_all add: sample_boot_def bin_path_def)
  from recover_log_only [where read_file = "be_read sample_boot", OF sample_store_ok(1,2) f incomplete_Nil, of "{7}"]
  obtain s' where "recover (be_read sample_boot) sample_store ''d'' ''log'' = Inr (Inr s')"
    "store_view s' = abs_replay 2 Map.empty ?ops" by (auto simp: sample_store_ok)
  then show thesis using that by (simp add: abs_push_def hist_records_def)
qed

lemma sample_boot_starts:
  obtains el where "startup 2 sample_boot = Inr el" and "os_ok 2 sample_boot (el_config el)"
    and "memory_pool_slots (el_config el) = 4" and "aof_path (el_config el) = ''log''"
    and "snapshot_path (el_config el) = ''d''"
proof -
  obtain s' where s': "recover (be_read sample_boot) sample_store ''d'' ''log'' = Inr (Inr s')"
    "store_view s' = [7 \<mapsto> ([default_record], 5)]" by (rule sample_boot_recovers)
  define cfg where "cfg = \<lparr>max_records = 2, ttl_seconds = 60, aof_path = ''log'', snapshot_path = ''d'',
     snapshot_interval = default_snapshot_interval, listen_port = default_listen_port, memory_pool_slots = 4,
     aof_fsync = Everysec\<rparr>"
  have c: "config_from_args (be_read_text sample_boot) (be_toml sample_boot) 2 (be_args sample_boot) = Inr cfg"
    by (simp add: sample_boot_def config_from_args_def config_from_file_def raw_config_of_def or_default_def
        config_validate_def parse_fsync_def default_fsync_def cfg_def const_defs)
  have w: "with_pool_slots 2 (memory_pool_slots cfg) (be_region sample_boot) (be_mem sample_boot) = Inr sample_store"
    using sample_store_new by (simp add: sample_boot_def cfg_def)
  have cf: "aof_path cfg = ''log''" "snapshot_path cfg = ''d''" by (simp_all add: cfg_def)
  have b: "bind_listen_socket (be_socket sample_boot) (be_bind sample_boot) = Inr 3"
    by (simp add: bind_listen_socket_def sample_boot_def)
  obtain aof where a: "aof_open (be_open sample_boot) (be_file sample_boot ''log'') ''log'' (aof_fsync cfg) = Inr (Inr aof)"
    by (simp add: aof_open_def sample_boot_def)
  obtain el where n: "event_loop_new (be_epoll sample_boot) (be_kernel sample_boot) cfg s' aof 3 False = Inr el"
    "el_config el = cfg" by (simp add: event_loop_new_def sample_boot_def)
  have el: "startup 2 sample_boot = Inr el" "el_config el = cfg"
    using n by (simp_all add: startup_def c w b cf a s'(1))
  have "os_ok 2 sample_boot (el_config el)"
    by (simp add: el(2) os_ok_def cfg_def sample_boot_def region_ok_def sample_slot_size sample_file_def)
  with el cf show thesis using that by (simp add: cfg_def)
qed

section \<open>Properties\<close>

text \<open>
  C5: from process start to shutdown. When startup reaches the event loop, on any configuration,
  snapshot and log files and with what the operating system has to grant, every run that follows keeps
  the invariant of all components, its store is the recovered store changed by the events of the run,
  and after the shutdown the log file is the old file followed by the entries of all logged events.
\<close>

theorem startup_serves:
  assumes "startup n env = Inr el0" and "compiled_n_ok n" and "os_ok n env (el_config el0)"
    and "sys_run n (el0, t0) evs (el, t)"
  shows "el_inv n el \<and> config_ok n (el_config el0)
     \<and> (\<exists>s s'. with_pool_slots n (memory_pool_slots (el_config el0)) (be_region env) (be_mem env) = Inr s
          \<and> recover (be_read env) s (snapshot_path (el_config el0)) (aof_path (el_config el0)) = Inr (Inr s')
          \<and> store_view (el_store el) = abs_run n (store_view s') evs)
     \<and> af_bytes (aw_file (el_aof (event_loop_shutdown rounds final k fds el)))
         = af_bytes (be_file env (aof_path (el_config el0))) @ concat (map entry_bytes (logged evs))"
proof -
  obtain s s' where s: "with_pool_slots n (memory_pool_slots (el_config el0)) (be_region env) (be_mem env) = Inr s"
    "recover (be_read env) s (snapshot_path (el_config el0)) (aof_path (el_config el0)) = Inr (Inr s')"
    "el_store el0 = s'" "config_ok n (el_config el0)"
    by (rule startup_inv [OF assms(1-3)])
  with startup_run [OF assms] show ?thesis by (auto simp: event_loop_shutdown_aof el_effect_def)
qed

theorem startup_serves_witness:
  "\<exists>el s'. startup 2 sample_boot = Inr el
     \<and> recover (be_read sample_boot) sample_store ''d'' ''log'' = Inr (Inr s')
     \<and> store_view s' = [7 \<mapsto> ([default_record], 5)] \<and> el_inv 2 el \<and> store_view (el_store el) = store_view s'
     \<and> af_bytes (aw_file (el_aof (event_loop_shutdown [] (\<lambda>_. 0) 1 [] el))) = entry_bytes (LPush 7 default_record 5)"
proof -
  obtain s' where s': "recover (be_read sample_boot) sample_store ''d'' ''log'' = Inr (Inr s')"
    "store_view s' = [7 \<mapsto> ([default_record], 5)]" by (rule sample_boot_recovers)
  obtain el where el: "startup 2 sample_boot = Inr el" "os_ok 2 sample_boot (el_config el)"
    "memory_pool_slots (el_config el) = 4" "aof_path (el_config el) = ''log''" "snapshot_path (el_config el) = ''d''"
    by (rule sample_boot_starts)
  have w: "with_pool_slots 2 4 (be_region sample_boot) (be_mem sample_boot) = Inr sample_store"
    using sample_store_new by (simp add: sample_boot_def)
  from startup_serves [OF el(1) _ el(2) run_refl, where rounds = "[]" and final = "\<lambda>_. 0" and k = 1 and fds = "[]"]
  have "el_inv 2 el" "store_view (el_store el) = store_view s'"
    "af_bytes (aw_file (el_aof (event_loop_shutdown [] (\<lambda>_. 0) 1 [] el))) = af_bytes (be_file sample_boot ''log'')"
    by (auto simp: compiled_n_ok_def el(3-5) w s'(1))
  then show ?thesis using el(1) s' by (auto simp: sample_boot_def sample_file_def)
qed

text \<open>Once the flag is set, the steps that are left change neither the store nor the log.\<close>

lemma flagged_step:
  assumes "sys_step n S evs S'" and "el_shutdown_flag (fst S)"
  shows "evs = [] \<and> el_shutdown_flag (fst S')"
  using assms by (induction rule: sys_step.induct) auto

lemma flagged_run:
  assumes "sys_run n S evs S'" and "el_shutdown_flag (fst S)"
  shows "evs = [] \<and> el_shutdown_flag (fst S')"
  using assms by (induction rule: sys_run.induct) (auto dest: flagged_step)

lemma aof_drop_after_shutdown: "aof_drop k' (aof_shutdown k w) = aof_shutdown k w"
  by (auto simp: aof_drop_def aof_shutdown_def Let_def)

text \<open>
  C6: a signal ends the server cleanly. Once the handlers are installed, \<^verbatim>\<open>SIGTERM\<close> or \<^verbatim>\<open>SIGINT\<close> does
  not kill the process; whatever the threads still do after it, no round of the loop is run any more and the
  store keeps its histories, and after the shutdown the log file is the old file followed by the entries
  of everything that was logged before the signal. Dropping the log writer afterwards does nothing.
\<close>

theorem shutdown_signal_clean:
  assumes "startup n env = Inr el0" and "compiled_n_ok n" and "os_ok n env (el_config el0)"
    and "sys_run n (el0, t0) evs (el, t)" and "sig = SIGTERM \<or> sig = SIGINT"
  shows "\<exists>el1. deliver_signal (install_signal_handlers d) sig el = Some el1
     \<and> (\<forall>evs' el2 t2. sys_run n (el1, t) evs' (el2, t2) \<longrightarrow>
          evs' = [] \<and> store_view (el_store el2) = store_view (el_store el)
          \<and> (\<forall>envs. loop_run n envs el2 = Done el2)
          \<and> (let w = el_aof (event_loop_shutdown rounds final k fds el2)
             in aof_drop k' w = w
                \<and> af_bytes (aw_file w)
                    = af_bytes (be_file env (aof_path (el_config el0))) @ concat (map entry_bytes (logged evs))))"
proof -
  define el1 where "el1 = el\<lparr>el_shutdown_flag := True\<rparr>"
  have "install_signal_handlers d sig = Handle_signal"
    using assms(5) by (elim disjE) (simp_all add: install_signal_handlers_def)
  then have d: "deliver_signal (install_signal_handlers d) sig el = Some el1"
    by (simp add: deliver_signal_def handle_signal_def el1_def)
  have "evs' = [] \<and> store_view (el_store el2) = store_view (el_store el)
      \<and> (\<forall>envs. loop_run n envs el2 = Done el2)
      \<and> (let w = el_aof (event_loop_shutdown rounds final k fds el2)
         in aof_drop k' w = w
            \<and> af_bytes (aw_file w)
                = af_bytes (be_file env (aof_path (el_config el0))) @ concat (map entry_bytes (logged evs)))"
    if r: "sys_run n (el1, t) evs' (el2, t2)" for evs' el2 t2
  proof -
    from flagged_run [OF r] have e: "evs' = []" "el_shutdown_flag el2" by (simp_all add: el1_def)
    have "sys_run n (el0, t0) (evs @ []) (el1, t)"
      unfolding el1_def by (rule run_step [OF assms(4)]) (rule sys_step.Signal)
    from sys_run_trans [OF this r] e(1) have run: "sys_run n (el0, t0) evs (el2, t2)" by simp
    note after = startup_run [OF assms(1-3) run] and before = startup_run [OF assms(1-4)]
    have "loop_run n envs el2 = Done el2" for envs using e(2) by (cases envs) simp_all
    with after(2,3) before(2) e(1) show ?thesis
      by (simp add: Let_def event_loop_shutdown_aof aof_drop_after_shutdown el_effect_def)
  qed
  with d show ?thesis by blast
qed

theorem shutdown_signal_clean_witness:
  "\<exists>el el1. startup 2 sample_boot = Inr el
     \<and> deliver_signal (install_signal_handlers (\<lambda>_. SIG_DFL)) SIGTERM el = Some el1
     \<and> af_bytes (aw_file (el_aof (event_loop_shutdown [] (\<lambda>_. 0) 1 [] el1))) = entry_bytes (LPush 7 default_record 5)"
proof -
  obtain el where el: "startup 2 sample_boot = Inr el" "os_ok 2 sample_boot (el_config el)"
    "aof_path (el_config el) = ''log''"
    by (rule sample_boot_starts)
  have n: "compiled_n_ok 2" by (simp add: compiled_n_ok_def)
  from shutdown_signal_clean [OF el(1) n el(2) run_refl, where sig = SIGTERM and d = "\<lambda>_. SIG_DFL"
      and rounds = "[]" and final = "\<lambda>_. 0" and k = 1 and fds = "[]" and k' = 0]
  obtain el1 where "deliver_signal (install_signal_handlers (\<lambda>_. SIG_DFL)) SIGTERM el = Some el1"
    "af_bytes (aw_file (el_aof (event_loop_shutdown [] (\<lambda>_. 0) 1 [] el1))) = af_bytes (be_file sample_boot ''log'')"
    using run_refl [of 2] el(3) by (fastforce simp: Let_def)
  then show ?thesis using el(1) by (auto simp: sample_boot_def sample_file_def)
qed

end
