(* ===== verification/Aof_Concurrent.thy ===== *)
theory Aof_Concurrent
  imports Aof "HOL-Library.Sublist"
begin

text \<open>
  The log ring of \<^verbatim>\<open>src/aof.rs\<close> with the event loop and the flush thread running concurrently.
  Every load of the other thread's counter, every \<^verbatim>\<open>copy_nonoverlapping\<close>, every \<^verbatim>\<open>write\<close>
  and every store of a counter is one step, and the threads interleave in any order. Writes to the
  file succeed here; theory \<open>Aof\<close> treats their failures. The ghost field \<open>as_log\<close> is everything
  whose \<open>ring_write\<close> has published its head.

  The invariant is the protocol described at \<^verbatim>\<open>AOFBuf\<close>: the cells the event loop copies into
  are never the cells the flush thread reads, so the file is always a prefix of the log.
\<close>

section \<open>The step relation\<close>

datatype appender =
    A_idle
  | A_spin bytes      \<comment> \<open>in the spin loop\<close>
  | A_room bytes      \<comment> \<open>left the loop\<close>
  | A_second bytes    \<comment> \<open>first fragment copied\<close>
  | A_copied bytes    \<comment> \<open>entry copied, head not yet published\<close>

datatype flusher =
    F_idle
  | F_head u64        \<comment> \<open>head loaded\<close>
  | F_both u64 u64    \<comment> \<open>head and tail loaded\<close>
  | F_second u64 u64  \<comment> \<open>first fragment written\<close>
  | F_written u64     \<comment> \<open>pending bytes written, tail not yet published\<close>

record asys =
  as_buf :: mem
  as_head :: u64
  as_tail :: u64
  as_a :: appender
  as_f :: flusher
  as_log :: bytes
  as_file :: bytes

inductive astep :: "asys \<Rightarrow> asys \<Rightarrow> bool" where
  a_call: "as_a s = A_idle \<Longrightarrow> length d \<le> AOF_BUF_SIZE \<Longrightarrow> astep s (s\<lparr>as_a := A_spin d\<rparr>)"
| a_full: "as_a s = A_spin d \<Longrightarrow>
    \<not> as_head s - as_tail s + word_of_nat (length d) \<le> word_of_nat AOF_BUF_SIZE \<Longrightarrow> astep s s"
| a_room: "as_a s = A_spin d \<Longrightarrow>
    as_head s - as_tail s + word_of_nat (length d) \<le> word_of_nat AOF_BUF_SIZE \<Longrightarrow>
    astep s (s\<lparr>as_a := A_room d\<rparr>)"
| a_copy: "as_a s = A_room d \<Longrightarrow> off = unat (as_head s) mod AOF_BUF_SIZE \<Longrightarrow>
    off + length d \<le> AOF_BUF_SIZE \<Longrightarrow>
    astep s (s\<lparr>as_buf := write_bytes (as_buf s) off d, as_a := A_copied d\<rparr>)"
| a_first: "as_a s = A_room d \<Longrightarrow> off = unat (as_head s) mod AOF_BUF_SIZE \<Longrightarrow>
    \<not> off + length d \<le> AOF_BUF_SIZE \<Longrightarrow>
    astep s (s\<lparr>as_buf := write_bytes (as_buf s) off (take (AOF_BUF_SIZE - off) d), as_a := A_second d\<rparr>)"
| a_second: "as_a s = A_second d \<Longrightarrow> off = unat (as_head s) mod AOF_BUF_SIZE \<Longrightarrow>
    astep s (s\<lparr>as_buf := write_bytes (as_buf s) 0 (drop (AOF_BUF_SIZE - off) d), as_a := A_copied d\<rparr>)"
| a_publish: "as_a s = A_copied d \<Longrightarrow>
    astep s (s\<lparr>as_head := as_head s + word_of_nat (length d), as_a := A_idle, as_log := as_log s @ d\<rparr>)"
| f_load_head: "as_f s = F_idle \<Longrightarrow> astep s (s\<lparr>as_f := F_head (as_head s)\<rparr>)"
| f_load_tail: "as_f s = F_head h \<Longrightarrow> astep s (s\<lparr>as_f := F_both h (as_tail s)\<rparr>)"
| f_nothing: "as_f s = F_both h t \<Longrightarrow> unat (h - t) = 0 \<Longrightarrow> astep s (s\<lparr>as_f := F_idle\<rparr>)"
| f_whole: "as_f s = F_both h t \<Longrightarrow> unat (h - t) \<noteq> 0 \<Longrightarrow> off = unat t mod AOF_BUF_SIZE \<Longrightarrow>
    off + unat (h - t) \<le> AOF_BUF_SIZE \<Longrightarrow>
    astep s (s\<lparr>as_file := as_file s @ read_bytes (as_buf s) off (unat (h - t)), as_f := F_written h\<rparr>)"
| f_first: "as_f s = F_both h t \<Longrightarrow> off = unat t mod AOF_BUF_SIZE \<Longrightarrow>
    \<not> off + unat (h - t) \<le> AOF_BUF_SIZE \<Longrightarrow>
    astep s (s\<lparr>as_file := as_file s @ read_bytes (as_buf s) off (AOF_BUF_SIZE - off), as_f := F_second h t\<rparr>)"
| f_second: "as_f s = F_second h t \<Longrightarrow> off = unat t mod AOF_BUF_SIZE \<Longrightarrow>
    astep s (s\<lparr>as_file := as_file s @ read_bytes (as_buf s) 0 (unat (h - t) - (AOF_BUF_SIZE - off)),
               as_f := F_written h\<rparr>)"
| f_publish: "as_f s = F_written h \<Longrightarrow> astep s (s\<lparr>as_tail := h, as_f := F_idle\<rparr>)"

definition asys_init :: asys where
  "asys_init = \<lparr>as_buf = (\<lambda>_. 0), as_head = 0, as_tail = 0, as_a = A_idle, as_f = F_idle,
     as_log = [], as_file = []\<rparr>"

inductive areach :: "asys \<Rightarrow> bool" where
  a_start: "areach asys_init"
| a_step: "areach s \<Longrightarrow> astep s t \<Longrightarrow> areach t"

section \<open>The invariant\<close>

text \<open>The cells of \<open>k\<close> ring positions from \<open>p\<close> on hold the bytes \<open>d\<close>.\<close>

definition holds :: "mem \<Rightarrow> nat \<Rightarrow> bytes \<Rightarrow> bool" where
  "holds buf p d \<longleftrightarrow> ring_bytes AOF_BUF_SIZE buf p (length d) = d"

fun a_inv :: "mem \<Rightarrow> nat \<Rightarrow> nat \<Rightarrow> appender \<Rightarrow> bool" where
  "a_inv buf nh nt A_idle \<longleftrightarrow> True"
| "a_inv buf nh nt (A_spin d) \<longleftrightarrow> length d \<le> AOF_BUF_SIZE"
| "a_inv buf nh nt (A_room d) \<longleftrightarrow> nh + length d \<le> nt + AOF_BUF_SIZE \<and> length d \<le> AOF_BUF_SIZE"
| "a_inv buf nh nt (A_second d) \<longleftrightarrow> nh + length d \<le> nt + AOF_BUF_SIZE \<and> length d \<le> AOF_BUF_SIZE
     \<and> \<not> nh mod AOF_BUF_SIZE + length d \<le> AOF_BUF_SIZE
     \<and> holds buf nh (take (AOF_BUF_SIZE - nh mod AOF_BUF_SIZE) d)"
| "a_inv buf nh nt (A_copied d) \<longleftrightarrow> nh + length d \<le> nt + AOF_BUF_SIZE \<and> holds buf nh d"

fun f_inv :: "bytes \<Rightarrow> bytes \<Rightarrow> nat \<Rightarrow> flusher \<Rightarrow> bool" where
  "f_inv log file nt F_idle \<longleftrightarrow> file = take nt log"
| "f_inv log file nt (F_head h) \<longleftrightarrow> file = take nt log \<and> (\<exists>k. h = word_of_nat k \<and> nt \<le> k \<and> k \<le> length log)"
| "f_inv log file nt (F_both h t) \<longleftrightarrow> file = take nt log \<and> t = word_of_nat nt
     \<and> (\<exists>k. h = word_of_nat k \<and> nt \<le> k \<and> k \<le> length log)"
| "f_inv log file nt (F_second h t) \<longleftrightarrow> t = word_of_nat nt
     \<and> (\<exists>k. h = word_of_nat k \<and> nt \<le> k \<and> k \<le> length log
          \<and> \<not> nt mod AOF_BUF_SIZE + (k - nt) \<le> AOF_BUF_SIZE
          \<and> file = take (nt + (AOF_BUF_SIZE - nt mod AOF_BUF_SIZE)) log)"
| "f_inv log file nt (F_written h) \<longleftrightarrow>
     (\<exists>k. h = word_of_nat k \<and> nt \<le> k \<and> k \<le> length log \<and> file = take k log)"

definition a_sys_inv :: "asys \<Rightarrow> nat \<Rightarrow> bool" where
  "a_sys_inv s nt \<longleftrightarrow>
     as_head s = word_of_nat (length (as_log s)) \<and> as_tail s = word_of_nat nt
     \<and> nt \<le> length (as_log s) \<and> length (as_log s) \<le> nt + AOF_BUF_SIZE
     \<and> holds (as_buf s) nt (drop nt (as_log s))
     \<and> a_inv (as_buf s) (length (as_log s)) nt (as_a s) \<and> f_inv (as_log s) (as_file s) nt (as_f s)"

section \<open>Ring positions\<close>

lemma ring_pos: "unat (word_of_nat k :: u64) mod AOF_BUF_SIZE = k mod AOF_BUF_SIZE"
  using unat_plus_mod_ring [of 0 k] by simp

lemma ring_distance:
  assumes "nt \<le> k" and "k \<le> nt + AOF_BUF_SIZE"
  shows "unat (word_of_nat k - word_of_nat nt :: u64) = k - nt"
proof -
  have "word_of_nat k - word_of_nat nt = (word_of_nat (k - nt) :: u64)"
    using assms(1) by (simp add: of_nat_diff)
  moreover have "k - nt \<le> AOF_BUF_SIZE" using assms by linarith
  moreover have "AOF_BUF_SIZE < 2 ^ 64" by (simp add: AOF_BUF_SIZE_def)
  ultimately show ?thesis by (simp add: unat_of_nat)
qed

lemma ring_room:
  assumes "nt \<le> nh" and "nh \<le> nt + AOF_BUF_SIZE" and "len \<le> AOF_BUF_SIZE"
    and "word_of_nat nh - word_of_nat nt + word_of_nat len \<le> (word_of_nat AOF_BUF_SIZE :: u64)"
  shows "nh + len \<le> nt + AOF_BUF_SIZE"
proof -
  let ?d = "word_of_nat nh - word_of_nat nt :: u64"
  have dist: "unat ?d = nh - nt" using assms(1,2) by (rule ring_distance)
  have "nh - nt \<le> AOF_BUF_SIZE" using assms(2) by linarith
  then have "unat (?d + word_of_nat len) = nh - nt + len"
    using assms(3) dist by (simp add: unat_word_ariths unat_of_nat AOF_BUF_SIZE_def)
  then have "nh - nt + len \<le> AOF_BUF_SIZE"
    using assms(4) by (simp add: word_le_nat_alt unat_of_nat AOF_BUF_SIZE_def)
  then show ?thesis using assms(1) by linarith
qed

lemma holds_iff: "holds buf p d \<longleftrightarrow> (\<forall>i < length d. buf ((p + i) mod AOF_BUF_SIZE) = d ! i)"
  unfolding holds_def list_eq_iff_nth_eq [of "ring_bytes AOF_BUF_SIZE buf p (length d)" d]
  by (simp add: ring_bytes_def)

lemma holds_append: "holds buf p (xs @ ys) \<longleftrightarrow> holds buf p xs \<and> holds buf (p + length xs) ys"
  by (simp add: holds_def ring_bytes_add append_eq_append_conv)

text \<open>A copy into the free cells keeps the window of pending bytes.\<close>

lemma holds_write_outside:
  assumes "holds buf p d" and "\<And>i. i < length d \<Longrightarrow> (p + i) mod AOF_BUF_SIZE < a
      \<or> a + length bs \<le> (p + i) mod AOF_BUF_SIZE"
  shows "holds (write_bytes buf a bs) p d"
  using assms by (simp add: holds_iff write_bytes_outside)

lemma holds_write_straight:
  assumes "p mod AOF_BUF_SIZE + length bs \<le> AOF_BUF_SIZE"
  shows "holds (write_bytes buf (p mod AOF_BUF_SIZE) bs) p bs"
  unfolding holds_def
  using ring_bytes_straight [OF assms] ring_bytes_mod [of AOF_BUF_SIZE _ p "length bs"] read_write_same by metis

text \<open>Positions of a straight piece of the free part, and of the pending part, are different cells.\<close>

lemma pending_cell_outside:
  assumes "i < h - t" and "t \<le> h" and "h + j + k \<le> t + AOF_BUF_SIZE" and "(h + j) mod AOF_BUF_SIZE + k \<le> AOF_BUF_SIZE"
  shows "(t + i) mod AOF_BUF_SIZE < (h + j) mod AOF_BUF_SIZE \<or> (h + j) mod AOF_BUF_SIZE + k \<le> (t + i) mod AOF_BUF_SIZE"
proof (rule ccontr)
  let ?S = AOF_BUF_SIZE and ?o = "(h + j) mod AOF_BUF_SIZE" and ?c = "(t + i) mod AOF_BUF_SIZE"
  assume "\<not> ?thesis"
  then have c: "?o \<le> ?c" "?c < ?o + k" by auto
  define m where "m = ?c - ?o"
  have m: "m < k" "?c = ?o + m" using c by (auto simp: m_def)
  have "(h + j + m) mod ?S = (?o + m) mod ?S" by (simp add: mod_add_left_eq)
  also have "\<dots> = ?c" using m(2) by (metis mod_mod_trivial)
  finally have eq: "(t + i) mod ?S = (h + j + m) mod ?S" by simp
  have "t + i < h + j + m" "h + j + m < t + i + ?S" using assms(1-3) m(1) by linarith+
  from mod_window_neq [OF this] eq show False by simp
qed

section \<open>Every step keeps the invariant\<close>

lemma a_sys_invD:
  assumes "a_sys_inv s nt"
  shows "as_head s = word_of_nat (length (as_log s))" and "as_tail s = word_of_nat nt"
    and "nt \<le> length (as_log s)" and "length (as_log s) \<le> nt + AOF_BUF_SIZE"
    and "holds (as_buf s) nt (drop nt (as_log s))"
    and "a_inv (as_buf s) (length (as_log s)) nt (as_a s)" and "f_inv (as_log s) (as_file s) nt (as_f s)"
  using assms unfolding a_sys_inv_def by blast+

lemma pending_kept:
  assumes inv: "a_sys_inv s nt" and "length (as_log s) + j + length bs \<le> nt + AOF_BUF_SIZE"
    and "(length (as_log s) + j) mod AOF_BUF_SIZE + length bs \<le> AOF_BUF_SIZE"
  shows "holds (write_bytes (as_buf s) ((length (as_log s) + j) mod AOF_BUF_SIZE) bs) nt (drop nt (as_log s))"
  using a_sys_invD(3,5) [OF inv] assms(2,3)
  by (intro holds_write_outside pending_cell_outside) simp_all

lemma room_distance:
  assumes "a_sys_inv s nt" and "length d \<le> AOF_BUF_SIZE"
    and "as_head s - as_tail s + word_of_nat (length d) \<le> word_of_nat AOF_BUF_SIZE"
  shows "length (as_log s) + length d \<le> nt + AOF_BUF_SIZE"
proof -
  note D = a_sys_invD [OF assms(1)]
  show ?thesis using assms(3) D(3,4) by (intro ring_room [OF _ _ assms(2)]) (simp_all add: D(1,2))
qed

lemma inv_copy:
  assumes inv: "a_sys_inv s nt" and a: "as_a s = A_room d"
    and off: "off = unat (as_head s) mod AOF_BUF_SIZE" and fits: "off + length d \<le> AOF_BUF_SIZE"
  shows "a_sys_inv (s\<lparr>as_buf := write_bytes (as_buf s) off d, as_a := A_copied d\<rparr>) nt"
proof -
  note D = a_sys_invD [OF inv]
  have o: "off = length (as_log s) mod AOF_BUF_SIZE" by (simp add: off D(1) ring_pos)
  have r: "length (as_log s) + length d \<le> nt + AOF_BUF_SIZE" using D(6) a by simp
  have "holds (write_bytes (as_buf s) off d) nt (drop nt (as_log s))"
    using pending_kept [OF inv, of 0 d] r fits o by simp
  moreover have "holds (write_bytes (as_buf s) off d) (length (as_log s)) d"
    using fits unfolding o by (rule holds_write_straight)
  ultimately show ?thesis using D r by (simp add: a_sys_inv_def)
qed

lemma inv_first:
  assumes inv: "a_sys_inv s nt" and a: "as_a s = A_room d"
    and off: "off = unat (as_head s) mod AOF_BUF_SIZE" and wrap: "\<not> off + length d \<le> AOF_BUF_SIZE"
  shows "a_sys_inv (s\<lparr>as_buf := write_bytes (as_buf s) off (take (AOF_BUF_SIZE - off) d), as_a := A_second d\<rparr>) nt"
proof -
  note D = a_sys_invD [OF inv]
  have o: "off = length (as_log s) mod AOF_BUF_SIZE" by (simp add: off D(1) ring_pos)
  let ?d1 = "take (AOF_BUF_SIZE - off) d"
  have r: "length (as_log s) + length d \<le> nt + AOF_BUF_SIZE" "length d \<le> AOF_BUF_SIZE" using D(6) a by simp_all
  have lt: "off < AOF_BUF_SIZE" using AOF_BUF_SIZE_pos by (simp add: o)
  have len: "off + length ?d1 \<le> AOF_BUF_SIZE" "length (as_log s) + length ?d1 \<le> nt + AOF_BUF_SIZE"
    using r(1) lt by simp_all
  have "holds (write_bytes (as_buf s) off ?d1) nt (drop nt (as_log s))"
    using pending_kept [OF inv, of 0 ?d1] len unfolding o by simp
  moreover have "holds (write_bytes (as_buf s) off ?d1) (length (as_log s)) ?d1"
    using len(1) unfolding o by (rule holds_write_straight)
  ultimately show ?thesis using D r wrap unfolding o by (simp add: a_sys_inv_def)
qed

lemma inv_second:
  assumes inv: "a_sys_inv s nt" and a: "as_a s = A_second d"
    and off: "off = unat (as_head s) mod AOF_BUF_SIZE"
  shows "a_sys_inv (s\<lparr>as_buf := write_bytes (as_buf s) 0 (drop (AOF_BUF_SIZE - off) d), as_a := A_copied d\<rparr>) nt"
proof -
  note D = a_sys_invD [OF inv]
  let ?H = "length (as_log s)" and ?S = AOF_BUF_SIZE
  have o: "off = ?H mod ?S" by (simp add: off D(1) ring_pos)
  let ?n = "?S - off" let ?d1 = "take ?n d" and ?d2 = "drop ?n d"
  have r: "?H + length d \<le> nt + ?S" "length d \<le> ?S" "\<not> off + length d \<le> ?S" "holds (as_buf s) ?H ?d1"
    using D(6) a unfolding o by simp_all
  have lt: "off < ?S" using AOF_BUF_SIZE_pos by (simp add: o)
  have l1: "length ?d1 = ?n" using r(3) lt by simp
  have z: "(?H + ?n) mod ?S = 0"
  proof -
    have "(?H + ?n) mod ?S = (off + ?n) mod ?S" by (simp add: o mod_add_left_eq)
    then show ?thesis using lt by simp
  qed
  let ?buf = "write_bytes (as_buf s) 0 ?d2"
  have "holds ?buf nt (drop nt (as_log s))"
    using pending_kept [OF inv, of ?n ?d2] r(1,2) l1 z by simp
  moreover have "holds ?buf ?H ?d1"
  proof (rule holds_write_outside [OF r(4)])
    fix i assume "i < length ?d1"
    then have i: "off + i < ?S" using l1 by (simp add: less_diff_conv add.commute)
    have "(?H + i) mod ?S = (off + i) mod ?S" by (simp add: o mod_add_left_eq)
    then have "(?H + i) mod ?S = off + i" using i by simp
    then show "(?H + i) mod ?S < 0 \<or> 0 + length ?d2 \<le> (?H + i) mod ?S" using r(2) lt by simp
  qed
  moreover have "holds ?buf (?H + length ?d1) ?d2"
    using holds_write_straight [of "?H + ?n" ?d2 "as_buf s"] z r(2) l1 by simp
  ultimately have "holds ?buf nt (drop nt (as_log s))" "holds ?buf ?H d"
    using holds_append [of ?buf ?H ?d1 ?d2] by simp_all
  then show ?thesis using D r(1) by (simp add: a_sys_inv_def)
qed

lemma inv_publish_head:
  assumes inv: "a_sys_inv s nt" and a: "as_a s = A_copied d"
  shows "a_sys_inv (s\<lparr>as_head := as_head s + word_of_nat (length d), as_a := A_idle, as_log := as_log s @ d\<rparr>) nt"
proof -
  note D = a_sys_invD [OF inv]
  have r: "length (as_log s) + length d \<le> nt + AOF_BUF_SIZE" "holds (as_buf s) (length (as_log s)) d"
    using D(6) a by simp_all
  have "holds (as_buf s) nt (drop nt (as_log s) @ d)"
    using D(3,5) r(2) by (simp add: holds_append)
  moreover have "f_inv (as_log s @ d) (as_file s) nt (as_f s)"
    using D(3,7) by (cases "as_f s") (auto simp: min_def intro: trans_le_add1)
  ultimately show ?thesis using D r(1) by (simp add: a_sys_inv_def)
qed

text \<open>What the flush thread reads: the log from position \<open>p\<close> to \<open>q\<close>.\<close>

lemma ring_reads_log:
  assumes "holds buf nt (drop nt log)" and "nt \<le> p" and "p \<le> q" and "q \<le> length log"
  shows "ring_bytes AOF_BUF_SIZE buf p (q - p) = take (q - p) (drop p log)"
proof (rule nth_equalityI)
  fix i assume "i < length (ring_bytes AOF_BUF_SIZE buf p (q - p))"
  then have i: "i < q - p" by simp
  then have "p - nt + i < length (drop nt log)" using assms(2-4) by simp
  then have "buf ((nt + (p - nt + i)) mod AOF_BUF_SIZE) = drop nt log ! (p - nt + i)"
    using assms(1) unfolding holds_iff by blast
  then show "ring_bytes AOF_BUF_SIZE buf p (q - p) ! i = take (q - p) (drop p log) ! i"
    using assms i by (simp add: ring_bytes_def add.assoc)
qed (use assms in simp)

lemma take_extend: "p \<le> q \<Longrightarrow> take p xs @ take (q - p) (drop p xs) = take q xs"
  by (metis le_add_diff_inverse take_add)

lemma inv_flush_straight:
  assumes inv: "a_sys_inv s nt" and pq: "nt \<le> p" "p \<le> q" "q \<le> length (as_log s)"
    and fb: "as_file s = take p (as_log s)" and fits: "p mod AOF_BUF_SIZE + (q - p) \<le> AOF_BUF_SIZE"
  shows "as_file s @ read_bytes (as_buf s) (p mod AOF_BUF_SIZE) (q - p) = take q (as_log s)"
proof -
  have "read_bytes (as_buf s) (p mod AOF_BUF_SIZE) (q - p) = ring_bytes AOF_BUF_SIZE (as_buf s) p (q - p)"
    using ring_bytes_straight [OF fits] by (simp add: ring_bytes_mod)
  then show ?thesis
    using ring_reads_log [OF a_sys_invD(5) [OF inv] pq] take_extend [OF pq(2)] fb by simp
qed

lemma inv_whole:
  assumes inv: "a_sys_inv s nt" and f: "as_f s = F_both h t" and off: "off = unat t mod AOF_BUF_SIZE"
    and fits: "off + unat (h - t) \<le> AOF_BUF_SIZE"
  shows "a_sys_inv (s\<lparr>as_file := as_file s @ read_bytes (as_buf s) off (unat (h - t)), as_f := F_written h\<rparr>) nt"
proof -
  note D = a_sys_invD [OF inv]
  from D(7) f obtain k where k: "as_file s = take nt (as_log s)" "t = word_of_nat nt" "h = word_of_nat k"
    "nt \<le> k" "k \<le> length (as_log s)" by auto
  have d: "unat (h - t) = k - nt" unfolding k(2,3) by (rule ring_distance) (use k D(4) in simp_all)
  have "as_file s @ read_bytes (as_buf s) off (unat (h - t)) = take k (as_log s)"
    using inv_flush_straight [OF inv _ k(4,5,1)] fits unfolding off d unfolding k(2) ring_pos by simp
  with D k show ?thesis by (auto simp: a_sys_inv_def)
qed

lemma inv_flush_first:
  assumes inv: "a_sys_inv s nt" and f: "as_f s = F_both h t" and off: "off = unat t mod AOF_BUF_SIZE"
    and wrap: "\<not> off + unat (h - t) \<le> AOF_BUF_SIZE"
  shows "a_sys_inv (s\<lparr>as_file := as_file s @ read_bytes (as_buf s) off (AOF_BUF_SIZE - off),
           as_f := F_second h t\<rparr>) nt"
proof -
  note D = a_sys_invD [OF inv]
  from D(7) f obtain k where k: "as_file s = take nt (as_log s)" "t = word_of_nat nt" "h = word_of_nat k"
    "nt \<le> k" "k \<le> length (as_log s)" by auto
  have d: "unat (h - t) = k - nt" unfolding k(2,3) by (rule ring_distance) (use k D(4) in simp_all)
  have o: "off = nt mod AOF_BUF_SIZE" by (simp add: off k(2) ring_pos)
  let ?q = "nt + (AOF_BUF_SIZE - off)"
  have lt: "off < AOF_BUF_SIZE" using AOF_BUF_SIZE_pos by (simp add: o)
  have q: "?q \<le> length (as_log s)" using wrap d k(5) lt by linarith
  have "as_file s @ read_bytes (as_buf s) off (AOF_BUF_SIZE - off) = take ?q (as_log s)"
    using inv_flush_straight [OF inv, of nt ?q] k(1) q lt by (simp flip: o)
  with D k wrap show ?thesis unfolding d o by (auto simp: a_sys_inv_def)
qed

lemma inv_flush_second:
  assumes inv: "a_sys_inv s nt" and f: "as_f s = F_second h t" and off: "off = unat t mod AOF_BUF_SIZE"
  shows "a_sys_inv (s\<lparr>as_file := as_file s @ read_bytes (as_buf s) 0 (unat (h - t) - (AOF_BUF_SIZE - off)),
           as_f := F_written h\<rparr>) nt"
proof -
  note D = a_sys_invD [OF inv]
  from off have off2: "unat t mod AOF_BUF_SIZE = off" by simp
  from D(7) f obtain k where k: "t = word_of_nat nt" "h = word_of_nat k" "nt \<le> k" "k \<le> length (as_log s)"
    "\<not> nt mod AOF_BUF_SIZE + (k - nt) \<le> AOF_BUF_SIZE"
    "as_file s = take (nt + (AOF_BUF_SIZE - nt mod AOF_BUF_SIZE)) (as_log s)" by auto
  have d: "unat (h - t) = k - nt" unfolding k(1,2) by (rule ring_distance) (use k D(4) in simp_all)
  have o: "off = nt mod AOF_BUF_SIZE" by (simp add: off k(1) ring_pos)
  let ?n = "AOF_BUF_SIZE - off" let ?p = "nt + ?n"
  have lt: "off < AOF_BUF_SIZE" using AOF_BUF_SIZE_pos by (simp add: o)
  have z: "?p mod AOF_BUF_SIZE = 0"
  proof -
    have "?p mod AOF_BUF_SIZE = (off + ?n) mod AOF_BUF_SIZE" by (simp add: o mod_add_left_eq)
    then show ?thesis using lt by simp
  qed
  have p: "?p \<le> k" using k(5) lt unfolding o by linarith
  have sub: "k - ?p = k - nt - ?n" "k - ?p \<le> AOF_BUF_SIZE" using p k(3,4) D(4) by linarith+
  have "as_file s @ read_bytes (as_buf s) 0 (k - ?p) = take k (as_log s)"
    using inv_flush_straight [OF inv _ p k(4)] k(6) z sub(2) by (simp add: o)
  with D k show ?thesis unfolding d sub(1) by (auto simp: a_sys_inv_def)
qed

lemma inv_publish_tail:
  assumes inv: "a_sys_inv s nt" and f: "as_f s = F_written h"
  shows "\<exists>nt'. a_sys_inv (s\<lparr>as_tail := h, as_f := F_idle\<rparr>) nt'"
proof -
  note D = a_sys_invD [OF inv]
  from D(7) f obtain k where k: "h = word_of_nat k" "nt \<le> k" "k \<le> length (as_log s)"
    "as_file s = take k (as_log s)" by auto
  have "drop nt (as_log s) = take (k - nt) (drop nt (as_log s)) @ drop k (as_log s)"
    using k(2) by (metis append_take_drop_id drop_drop le_add_diff_inverse2)
  with D(5) have "holds (as_buf s) (nt + length (take (k - nt) (drop nt (as_log s)))) (drop k (as_log s))"
    by (metis holds_append)
  moreover have "nt + length (take (k - nt) (drop nt (as_log s))) = k" using k(2,3) by simp
  ultimately have "holds (as_buf s) k (drop k (as_log s))" by simp
  moreover have "a_inv (as_buf s) (length (as_log s)) k (as_a s)"
    using D(6) k(2) by (cases "as_a s") auto
  ultimately have "a_sys_inv (s\<lparr>as_tail := h, as_f := F_idle\<rparr>) k"
    using D(1,4) k by (simp add: a_sys_inv_def)
  then show ?thesis by blast
qed

lemma astep_inv:
  assumes "astep s t" and "a_sys_inv s nt"
  shows "\<exists>nt'. a_sys_inv t nt'"
  using assms
proof (induction rule: astep.induct)
  case (a_room s d)
  note D = a_sys_invD [OF a_room(3)]
  have "length d \<le> AOF_BUF_SIZE" using D(6) a_room(1) by simp
  with room_distance [OF a_room(3) this a_room(2)] D show ?case by (auto simp: a_sys_inv_def)
next
  case (a_copy s d off)
  then show ?case using inv_copy by blast
next
  case (a_first s d off)
  then show ?case using inv_first by blast
next
  case (a_second s d off)
  then show ?case using inv_second by blast
next
  case (a_publish s d)
  then show ?case using inv_publish_head by blast
next
  case (f_load_head s)
  then show ?case by (intro exI [of _ nt]) (auto simp: a_sys_inv_def)
next
  case (f_load_tail s h)
  then show ?case by (intro exI [of _ nt]) (auto simp: a_sys_inv_def)
next
  case (f_nothing s h t)
  then show ?case by (intro exI [of _ nt]) (auto simp: a_sys_inv_def)
next
  case (f_whole s h t off)
  then show ?case using inv_whole by blast
next
  case (f_first s h t off)
  then show ?case using inv_flush_first by blast
next
  case (f_second s h t off)
  then show ?case using inv_flush_second by blast
next
  case (f_publish s h)
  then show ?case using inv_publish_tail by blast
qed (auto simp: a_sys_inv_def)

lemma areach_inv: "areach s \<Longrightarrow> \<exists>nt. a_sys_inv s nt"
proof (induction rule: areach.induct)
  case a_start
  have "a_sys_inv asys_init 0" by (simp add: a_sys_inv_def asys_init_def holds_iff)
  then show ?case by blast
next
  case (a_step s t)
  then show ?case using astep_inv by blast
qed

lemma a_sys_inv_prefix: "a_sys_inv s nt \<Longrightarrow> prefix (as_file s) (as_log s)"
  using a_sys_invD(7) [of s nt] by (cases "as_f s") (auto simp: take_is_prefix)

section \<open>The cells the two threads touch\<close>

text \<open>The cells of the next copy, and the cells of the next write to the file.\<close>

fun a_cells :: "nat \<Rightarrow> appender \<Rightarrow> nat set" where
  "a_cells off (A_room d) =
     (if off + length d \<le> AOF_BUF_SIZE then {off ..< off + length d} else {off ..< AOF_BUF_SIZE})"
| "a_cells off (A_second d) = {0 ..< length d - (AOF_BUF_SIZE - off)}"
| "a_cells off a = {}"

fun f_cells :: "flusher \<Rightarrow> nat set" where
  "f_cells (F_both h t) = (let off = unat t mod AOF_BUF_SIZE; k = unat (h - t) in
     if off + k \<le> AOF_BUF_SIZE then {off ..< off + k} else {off ..< AOF_BUF_SIZE})"
| "f_cells (F_second h t) = {0 ..< unat (h - t) - (AOF_BUF_SIZE - unat t mod AOF_BUF_SIZE)}"
| "f_cells f = {}"

text \<open>A cell of a straight or wrapped piece is a position of the window it belongs to.\<close>

lemma cell_position:
  assumes "p mod AOF_BUF_SIZE \<le> c" and "c < AOF_BUF_SIZE" and "c < p mod AOF_BUF_SIZE + k"
  obtains i where "i < k" and "c = (p + i) mod AOF_BUF_SIZE"
proof (rule that [of "c - p mod AOF_BUF_SIZE"])
  let ?S = AOF_BUF_SIZE
  show "c - p mod ?S < k" using assms(1,3) by linarith
  have "(p + (c - p mod ?S)) mod ?S = (p mod ?S + (c - p mod ?S)) mod ?S" by (simp add: mod_add_left_eq)
  then show "c = (p + (c - p mod ?S)) mod ?S" using assms(1,2) by simp
qed

lemma cell_position_wrapped:
  assumes "c < k - (AOF_BUF_SIZE - p mod AOF_BUF_SIZE)" and "k \<le> AOF_BUF_SIZE"
  obtains i where "i < k" and "c = (p + i) mod AOF_BUF_SIZE"
proof (rule that [of "AOF_BUF_SIZE - p mod AOF_BUF_SIZE + c"])
  let ?S = AOF_BUF_SIZE
  have lt: "p mod ?S < ?S" using AOF_BUF_SIZE_pos by simp
  show "?S - p mod ?S + c < k" using assms(1) by linarith
  have "(p + (?S - p mod ?S + c)) mod ?S = (p mod ?S + (?S - p mod ?S + c)) mod ?S" by (simp add: mod_add_left_eq)
  also have "p mod ?S + (?S - p mod ?S + c) = c + ?S" using lt by linarith
  finally show "c = (p + (?S - p mod ?S + c)) mod ?S" using assms lt by simp
qed

lemma a_cells_window:
  assumes inv: "a_sys_inv s nt" and c: "c \<in> a_cells (unat (as_head s) mod AOF_BUF_SIZE) (as_a s)"
  obtains i where "c = (length (as_log s) + i) mod AOF_BUF_SIZE" and "length (as_log s) + i < nt + AOF_BUF_SIZE"
proof -
  note D = a_sys_invD [OF inv]
  have o: "unat (as_head s) mod AOF_BUF_SIZE = length (as_log s) mod AOF_BUF_SIZE" by (simp add: D(1) ring_pos)
  show ?thesis
  proof (cases "as_a s")
    case (A_room d)
    then have "length (as_log s) mod AOF_BUF_SIZE \<le> c" "c < AOF_BUF_SIZE"
      "c < length (as_log s) mod AOF_BUF_SIZE + length d" using c by (auto simp: o split: if_splits)
    then obtain i where "i < length d" "c = (length (as_log s) + i) mod AOF_BUF_SIZE" by (rule cell_position)
    with that [of i] D(6) A_room show ?thesis by simp
  next
    case (A_second d)
    then have "c < length d - (AOF_BUF_SIZE - length (as_log s) mod AOF_BUF_SIZE)" "length d \<le> AOF_BUF_SIZE"
      using c D(6) by (auto simp: o)
    then obtain i where "i < length d" "c = (length (as_log s) + i) mod AOF_BUF_SIZE" by (rule cell_position_wrapped)
    with that [of i] D(6) A_second show ?thesis by simp
  qed (use c in simp_all)
qed

lemma f_cells_window:
  assumes inv: "a_sys_inv s nt" and c: "c \<in> f_cells (as_f s)"
  obtains i where "c = (nt + i) mod AOF_BUF_SIZE" and "nt + i < length (as_log s)"
proof -
  note D = a_sys_invD [OF inv]
  show ?thesis
  proof (cases "as_f s")
    case (F_both h t)
    then obtain k where k: "t = word_of_nat nt" "h = word_of_nat k" "nt \<le> k" "k \<le> length (as_log s)"
      using D(7) by auto
    have d: "unat (h - t) = k - nt" unfolding k(1,2) by (rule ring_distance) (use k D(4) in simp_all)
    have o: "unat t mod AOF_BUF_SIZE = nt mod AOF_BUF_SIZE" by (simp add: k(1) ring_pos)
    have "nt mod AOF_BUF_SIZE \<le> c" "c < AOF_BUF_SIZE" "c < nt mod AOF_BUF_SIZE + (k - nt)"
      using c F_both by (auto simp: d Let_def o split: if_splits)
    then obtain i where "i < k - nt" "c = (nt + i) mod AOF_BUF_SIZE" by (rule cell_position)
    with that [of i] k(4) show ?thesis by simp
  next
    case (F_second h t)
    then obtain k where k: "t = word_of_nat nt" "h = word_of_nat k" "nt \<le> k" "k \<le> length (as_log s)"
      using D(7) by auto
    have d: "unat (h - t) = k - nt" unfolding k(1,2) by (rule ring_distance) (use k D(4) in simp_all)
    have o: "unat t mod AOF_BUF_SIZE = nt mod AOF_BUF_SIZE" by (simp add: k(1) ring_pos)
    have "c < k - nt - (AOF_BUF_SIZE - nt mod AOF_BUF_SIZE)" "k - nt \<le> AOF_BUF_SIZE"
      using c F_second k(4) D(4) by (auto simp: d o)
    then obtain i where "i < k - nt" "c = (nt + i) mod AOF_BUF_SIZE" by (rule cell_position_wrapped)
    with that [of i] k(4) show ?thesis by simp
  qed (use c in simp_all)
qed

section \<open>Properties\<close>

text \<open>
  In every interleaving of the event loop and the flush thread, the file is a prefix of the
  entries logged so far, the rest is at most the size of the ring, and while the flush thread is
  between passes the distance of the counters is the number of bytes the file lacks.
\<close>

lemma log_file_prefix:
  assumes "areach s"
  shows "prefix (as_file s) (as_log s) \<and> length (as_log s) \<le> length (as_file s) + AOF_BUF_SIZE
     \<and> (as_f s = F_idle \<longrightarrow> length (as_file s) + unat (as_head s - as_tail s) = length (as_log s))"
proof -
  from areach_inv [OF assms] obtain nt where inv: "a_sys_inv s nt" ..
  note D = a_sys_invD [OF inv]
  have "nt \<le> length (as_file s)" using D(3,7) by (cases "as_f s") auto
  then have "length (as_log s) \<le> length (as_file s) + AOF_BUF_SIZE" using D(4) by linarith
  moreover have "length (as_file s) + unat (as_head s - as_tail s) = length (as_log s)" if "as_f s = F_idle"
    using D(1-4,7) that by (simp add: ring_distance)
  ultimately show ?thesis using a_sys_inv_prefix [OF inv] by blast
qed

text \<open>A run: one entry is published, the flush thread has loaded both counters, the next entry has room.\<close>

definition sample_asys :: "appender \<Rightarrow> flusher \<Rightarrow> asys" where
  "sample_asys a f = \<lparr>as_buf = write_bytes (\<lambda>_. 0) 0 [65], as_head = 1, as_tail = 0, as_a = a, as_f = f,
     as_log = [65], as_file = []\<rparr>"

lemma sample_published: "areach (sample_asys A_idle F_idle)"
proof -
  let ?s0 = asys_init let ?s1 = "?s0\<lparr>as_a := A_spin [65]\<rparr>" let ?s2 = "?s0\<lparr>as_a := A_room [65]\<rparr>"
  let ?s3 = "?s0\<lparr>as_buf := write_bytes (\<lambda>_. 0) 0 [65], as_a := A_copied [65]\<rparr>"
  have r1: "areach ?s1"
    by (rule a_step [OF a_start a_call]) (simp_all add: asys_init_def AOF_BUF_SIZE_def)
  have "astep ?s1 (?s1\<lparr>as_a := A_room [65]\<rparr>)"
    by (rule astep.a_room) (simp_all add: asys_init_def AOF_BUF_SIZE_def)
  then have r2: "areach ?s2" using a_step [OF r1] by simp
  have "astep ?s2 (?s2\<lparr>as_buf := write_bytes (as_buf ?s2) 0 [65], as_a := A_copied [65]\<rparr>)"
    by (rule astep.a_copy) (simp_all add: asys_init_def AOF_BUF_SIZE_def)
  then have r3: "areach ?s3" using a_step [OF r2] by (simp add: asys_init_def)
  have "astep ?s3 (?s3\<lparr>as_head := as_head ?s3 + word_of_nat (length [65 :: 8 word]), as_a := A_idle, as_log := as_log ?s3 @ [65]\<rparr>)"
    by (rule astep.a_publish) simp
  then show ?thesis using a_step [OF r3] by (simp add: asys_init_def sample_asys_def)
qed

lemma sample_loaded: "areach (sample_asys A_idle (F_both 1 0))"
proof -
  have "astep (sample_asys A_idle F_idle) (sample_asys A_idle (F_head 1))"
    using astep.f_load_head [of "sample_asys A_idle F_idle"] by (simp add: sample_asys_def)
  moreover have "astep (sample_asys A_idle (F_head 1)) (sample_asys A_idle (F_both 1 0))"
    using astep.f_load_tail [of "sample_asys A_idle (F_head 1)"] by (simp add: sample_asys_def)
  ultimately show ?thesis using sample_published a_step by blast
qed

lemma sample_both_active: "areach (sample_asys (A_room [66]) (F_both 1 0))"
proof -
  let ?f = "F_both 1 0"
  have "astep (sample_asys A_idle ?f) (sample_asys (A_spin [66]) ?f)"
    using astep.a_call [of "sample_asys A_idle ?f" "[66]"] by (simp add: sample_asys_def AOF_BUF_SIZE_def)
  moreover have "astep (sample_asys (A_spin [66]) ?f) (sample_asys (A_room [66]) ?f)"
    using astep.a_room [of "sample_asys (A_spin [66]) ?f" "[66]"] by (simp add: sample_asys_def AOF_BUF_SIZE_def)
  ultimately show ?thesis using sample_loaded a_step by blast
qed

text \<open>
  The event loop and the flush thread never race on the buffer: in every reachable state the
  cells that the next copy of the event loop writes are disjoint from the cells that the next write
  of the flush thread reads.
\<close>

lemma log_race_free:
  assumes "areach s"
  shows "a_cells (unat (as_head s) mod AOF_BUF_SIZE) (as_a s) \<inter> f_cells (as_f s) = {}"
proof (rule equals0I)
  from areach_inv [OF assms] obtain nt where inv: "a_sys_inv s nt" ..
  fix c assume "c \<in> a_cells (unat (as_head s) mod AOF_BUF_SIZE) (as_a s) \<inter> f_cells (as_f s)"
  then obtain i j where
    c: "c = (length (as_log s) + i) mod AOF_BUF_SIZE" "length (as_log s) + i < nt + AOF_BUF_SIZE"
      "c = (nt + j) mod AOF_BUF_SIZE" "nt + j < length (as_log s)"
    by (auto elim!: a_cells_window [OF inv] f_cells_window [OF inv])
  have "nt + j < length (as_log s) + i" "length (as_log s) + i < nt + j + AOF_BUF_SIZE" using c(2,4) by linarith+
  from mod_window_neq [OF this] c(1,3) show False by simp
qed

end
