(* ===== verification/Aof_Liveness.thy ===== *)
theory Aof_Liveness
  imports Aof_Concurrent
begin

text \<open>
  Progress of the log ring of \<^verbatim>\<open>src/aof.rs\<close> under a fair scheduler. An infinite execution is a
  sequence of states of the step relation of \<open>Aof_Concurrent\<close>; the steps of the flush thread are
  those that change its control state, all others belong to the event loop. A rank counts the steps
  the flush thread needs until its tail has passed a given position of the log: its own steps
  decrease it, those of the event loop leave it alone.
\<close>

section \<open>Executions\<close>

definition a_exec :: "(nat \<Rightarrow> asys) \<Rightarrow> bool" where
  "a_exec \<sigma> \<longleftrightarrow> \<sigma> 0 = asys_init \<and> (\<forall>i. astep (\<sigma> i) (\<sigma> (Suc i)))"

definition flush_step :: "asys \<Rightarrow> asys \<Rightarrow> bool" where
  "flush_step s t \<longleftrightarrow> as_f t \<noteq> as_f s"

definition flush_fair :: "(nat \<Rightarrow> asys) \<Rightarrow> bool" where
  "flush_fair \<sigma> \<longleftrightarrow> (\<forall>i. \<exists>j \<ge> i. flush_step (\<sigma> j) (\<sigma> (Suc j)))"

definition append_fair :: "(nat \<Rightarrow> asys) \<Rightarrow> bool" where
  "append_fair \<sigma> \<longleftrightarrow> (\<forall>i. \<exists>j \<ge> i. \<not> flush_step (\<sigma> j) (\<sigma> (Suc j)))"

lemma a_exec_reach: "a_exec \<sigma> \<Longrightarrow> areach (\<sigma> i)"
  by (induction i) (auto simp: a_exec_def intro: areach.intros)

lemma a_exec_inv: "a_exec \<sigma> \<Longrightarrow> \<exists>nt. a_sys_inv (\<sigma> i) nt"
  using a_exec_reach areach_inv by blast

section \<open>The rank\<close>

text \<open>The position of the tail, and the position up to which the current pass of the flush thread goes.\<close>

definition ntail :: "asys \<Rightarrow> nat" where
  "ntail s = length (as_log s) - unat (as_head s - as_tail s)"

definition pass_end :: "asys \<Rightarrow> u64 \<Rightarrow> nat" where
  "pass_end s h = ntail s + unat (h - as_tail s)"

definition flush_rank :: "nat \<Rightarrow> asys \<Rightarrow> nat" where
  "flush_rank L s =
     (if L \<le> ntail s then 0
      else case as_f s of
             F_idle \<Rightarrow> 5
           | F_head h \<Rightarrow> if L \<le> pass_end s h then 4 else 9
           | F_both h t \<Rightarrow> if L \<le> pass_end s h then 3 else 8
           | F_second h t \<Rightarrow> if L \<le> pass_end s h then 2 else 7
           | F_written h \<Rightarrow> if L \<le> pass_end s h then 1 else 6)"

lemma ntail_eq:
  assumes "a_sys_inv s nt"
  shows "ntail s = nt"
proof -
  note D = a_sys_invD [OF assms]
  have "unat (as_head s - as_tail s) = length (as_log s) - nt" using D(1-4) by (simp add: ring_distance)
  then show ?thesis using D(3) by (simp add: ntail_def)
qed

lemma pass_end_eq:
  assumes "a_sys_inv s nt" and "nt \<le> k" and "k \<le> length (as_log s)"
  shows "pass_end s (word_of_nat k) = k"
proof -
  note D = a_sys_invD [OF assms(1)]
  have "unat (word_of_nat k - as_tail s) = k - nt" using D(2,4) assms(2,3) by (simp add: ring_distance)
  then show ?thesis using assms(2) by (simp add: pass_end_def ntail_eq [OF assms(1)])
qed

lemma ntail_bounds: "a_sys_inv s nt \<Longrightarrow> ntail s \<le> length (as_file s) \<and> ntail s \<le> length (as_log s)"
  using a_sys_invD(3,7) [of s nt] ntail_eq [of s nt] by (cases "as_f s") auto

section \<open>Steps of the two threads\<close>

inductive_cases astep_elim: "astep s t"

text \<open>The event loop: the tail and the file stay, the log only grows.\<close>

lemma append_step:
  assumes "astep s t" and "\<not> flush_step s t"
  shows "as_f t = as_f s" and "as_tail t = as_tail s" and "as_file t = as_file s" and "prefix (as_log s) (as_log t)"
  using assms by (auto elim!: astep_elim simp: flush_step_def)

lemma append_inv:
  assumes "astep s t" and "\<not> flush_step s t" and inv: "a_sys_inv s nt"
  shows "a_sys_inv t nt"
  using assms(1)
proof (cases rule: astep.cases)
  case (a_room d)
  note D = a_sys_invD [OF inv]
  have "length d \<le> AOF_BUF_SIZE" using D(6) a_room(2) by simp
  with room_distance [OF inv this a_room(3)] D show ?thesis unfolding a_room(1) by (simp add: a_sys_inv_def)
next
  case (a_copy d off)
  then show ?thesis using inv_copy [OF inv] by blast
next
  case (a_first d off)
  then show ?thesis using inv_first [OF inv] by blast
next
  case (a_second d off)
  then show ?thesis using inv_second [OF inv] by blast
next
  case (a_publish d)
  then show ?thesis using inv_publish_head [OF inv] by blast
qed (use assms(2) inv in \<open>auto simp: flush_step_def a_sys_inv_def\<close>)

lemma append_rank:
  assumes "astep s t" and "\<not> flush_step s t" and inv: "a_sys_inv s nt"
  shows "flush_rank L t = flush_rank L s"
proof -
  have "ntail t = ntail s" using ntail_eq [OF append_inv [OF assms]] ntail_eq [OF inv] by simp
  moreover from this have "pass_end t h = pass_end s h" for h
    using append_step(2) [OF assms(1,2)] by (simp add: pass_end_def)
  ultimately show ?thesis using append_step(1) [OF assms(1,2)]
    by (simp add: flush_rank_def split: flusher.split)
qed

text \<open>The flush thread: the head and the log stay; it never changes what the event loop is doing.\<close>

lemma flush_step_frame:
  assumes "astep s t" and "flush_step s t"
  shows "as_head t = as_head s" and "as_log t = as_log s" and "as_a t = as_a s"
  using assms by (auto elim!: astep_elim simp: flush_step_def)

lemma publish_ntail:
  assumes inv: "a_sys_inv s nt" and f: "as_f s = F_written h"
  shows "ntail (s\<lparr>as_tail := h, as_f := F_idle\<rparr>) = pass_end s h" and "nt \<le> pass_end s h"
proof -
  note D = a_sys_invD [OF inv]
  from D(7) f obtain k where k: "h = word_of_nat k" "nt \<le> k" "k \<le> length (as_log s)" by auto
  have e: "pass_end s h = k" unfolding k(1) by (rule pass_end_eq [OF inv k(2,3)])
  have "unat (as_head s - h) = length (as_log s) - k"
    unfolding D(1) k(1) by (rule ring_distance) (use k D(4) in simp_all)
  then show "ntail (s\<lparr>as_tail := h, as_f := F_idle\<rparr>) = pass_end s h" "nt \<le> pass_end s h"
    using k e by (simp_all add: ntail_def)
qed

text \<open>A step of the flush thread decreases the rank until it is zero, where it stays.\<close>

lemma flush_rank_step:
  assumes "astep s t" and "flush_step s t" and inv: "a_sys_inv s nt" and L: "L \<le> length (as_log s)"
  shows "flush_rank L t < flush_rank L s \<or> (flush_rank L t = 0 \<and> flush_rank L s = 0)"
  using assms(1)
proof (cases rule: astep.cases)
  case f_load_head
  have "pass_end s (as_head s) = length (as_log s)"
    using pass_end_eq [OF inv, of "length (as_log s)"] a_sys_invD(1,3) [OF inv] by simp
  with f_load_head L show ?thesis by (auto simp: flush_rank_def ntail_def pass_end_def)
next
  case (f_nothing h t')
  have "t' = as_tail s" using a_sys_invD(2,7) [OF inv] f_nothing(2) by simp
  with f_nothing show ?thesis by (auto simp: flush_rank_def ntail_def pass_end_def)
next
  case (f_publish h)
  with publish_ntail [OF inv f_publish(2)] ntail_eq [OF inv] show ?thesis
    by (auto simp: flush_rank_def)
qed (use assms(2) in \<open>auto simp: flush_rank_def ntail_def pass_end_def flush_step_def\<close>)

section \<open>Progress\<close>

lemma exec_step: "a_exec \<sigma> \<Longrightarrow> astep (\<sigma> i) (\<sigma> (Suc i))"
  by (simp add: a_exec_def)

lemma exec_log_mono:
  assumes ex: "a_exec \<sigma>" and "i \<le> j"
  shows "prefix (as_log (\<sigma> i)) (as_log (\<sigma> j))"
  using assms(2)
proof (induction j rule: dec_induct)
  case (step j)
  show ?case
  proof (cases "flush_step (\<sigma> j) (\<sigma> (Suc j))")
    case True
    then show ?thesis using step flush_step_frame(2) [OF exec_step [OF ex]] by simp
  next
    case False
    then show ?thesis using step append_step(4) [OF exec_step [OF ex]] prefix_order.trans by blast
  qed
qed simp

lemma exec_rank_mono:
  assumes ex: "a_exec \<sigma>" and L: "L \<le> length (as_log (\<sigma> i))" and "i \<le> j"
  shows "flush_rank L (\<sigma> j) \<le> flush_rank L (\<sigma> i)"
  using assms(3)
proof (induction j rule: dec_induct)
  case (step j)
  from a_exec_inv [OF ex] obtain nt where inv: "a_sys_inv (\<sigma> j) nt" ..
  have "L \<le> length (as_log (\<sigma> j))" using L prefix_length_le [OF exec_log_mono [OF ex step(1)]] by simp
  then have "flush_rank L (\<sigma> (Suc j)) \<le> flush_rank L (\<sigma> j)"
    using flush_rank_step [OF exec_step [OF ex] _ inv] append_rank [OF exec_step [OF ex] _ inv]
    by (cases "flush_step (\<sigma> j) (\<sigma> (Suc j))") fastforce+
  with step show ?case by simp
qed simp

text \<open>Every position of the log is eventually behind the tail, and stays there.\<close>

lemma rank_zero_eventually:
  assumes ex: "a_exec \<sigma>" and fair: "flush_fair \<sigma>" and "L \<le> length (as_log (\<sigma> i))"
  shows "\<exists>j \<ge> i. flush_rank L (\<sigma> j) = 0"
  using assms(3)
proof (induction "flush_rank L (\<sigma> i)" arbitrary: i rule: less_induct)
  case less
  show ?case
  proof (cases "flush_rank L (\<sigma> i) = 0")
    case False
    from fair obtain j where j: "i \<le> j" "flush_step (\<sigma> j) (\<sigma> (Suc j))" by (auto simp: flush_fair_def)
    from a_exec_inv [OF ex] obtain nt where inv: "a_sys_inv (\<sigma> j) nt" ..
    have Lj: "L \<le> length (as_log (\<sigma> j))" "L \<le> length (as_log (\<sigma> (Suc j)))"
      using less.prems prefix_length_le [OF exec_log_mono [OF ex, of i]] j(1) le_trans by (meson le_SucI)+
    have le: "flush_rank L (\<sigma> j) \<le> flush_rank L (\<sigma> i)" by (rule exec_rank_mono [OF ex less.prems j(1)])
    from flush_rank_step [OF exec_step [OF ex] j(2) inv Lj(1)] le False
    consider "flush_rank L (\<sigma> (Suc j)) < flush_rank L (\<sigma> i)" | "flush_rank L (\<sigma> j) = 0" by fastforce
    then show ?thesis
    proof cases
      case 1
      from less.hyps [OF 1 Lj(2)] j(1) show ?thesis by (meson Suc_leD le_trans)
    qed (use j(1) in blast)
  qed blast
qed

lemma rank_zero_iff: "flush_rank L s = 0 \<longleftrightarrow> L \<le> ntail s"
  by (auto simp: flush_rank_def split: flusher.splits)

text \<open>While the event loop spins, it stays in the spin loop until it finds room.\<close>

lemma spin_step:
  assumes "astep s t" and "as_a s = A_spin d"
  shows "as_a t = A_room d \<or> (as_a t = A_spin d \<and> as_log t = as_log s \<and> as_head t = as_head s)"
  using assms by (auto elim!: astep_elim)

lemma spin_leaves_when_drained:
  assumes "astep s t" and "\<not> flush_step s t" and "as_a s = A_spin d" and inv: "a_sys_inv s nt"
    and "length (as_log s) \<le> ntail s"
  shows "as_a t = A_room d"
proof -
  note D = a_sys_invD [OF inv]
  have "nt = length (as_log s)" using assms(5) ntail_eq [OF inv] D(3) by simp
  then have "as_head s = as_tail s" using D(1,2) by simp
  moreover have "length d \<le> AOF_BUF_SIZE" using D(6) assms(3) by simp
  then have "(word_of_nat (length d) :: u64) \<le> word_of_nat AOF_BUF_SIZE"
    by (simp add: word_le_nat_alt unat_of_nat AOF_BUF_SIZE_def)
  ultimately show ?thesis using assms(1-3) by (auto elim!: astep_elim simp: flush_step_def)
qed

section \<open>Properties\<close>

text \<open>
  A fair execution: one entry is logged and flushed, then both threads go on forever, the flush
  thread finding nothing to do and the event loop logging empty entries.
\<close>

definition sample_flushed :: "appender \<Rightarrow> flusher \<Rightarrow> asys" where
  "sample_flushed a f = (sample_asys a f)\<lparr>as_tail := 1, as_file := [65]\<rparr>"

definition sample_start_states :: "asys list" where
  "sample_start_states =
     [asys_init, asys_init\<lparr>as_a := A_spin [65]\<rparr>, asys_init\<lparr>as_a := A_room [65]\<rparr>,
      asys_init\<lparr>as_buf := write_bytes (\<lambda>_. 0) 0 [65], as_a := A_copied [65]\<rparr>,
      sample_asys A_idle F_idle, sample_asys A_idle (F_head 1), sample_asys A_idle (F_both 1 0),
      (sample_asys A_idle (F_written 1))\<lparr>as_file := [65]\<rparr>]"

definition sample_cycle :: "asys list" where
  "sample_cycle =
     [sample_flushed A_idle F_idle, sample_flushed A_idle (F_head 1), sample_flushed A_idle (F_both 1 1),
      sample_flushed A_idle F_idle, sample_flushed (A_spin []) F_idle, sample_flushed (A_room []) F_idle,
      sample_flushed (A_copied []) F_idle]"

definition sample_exec :: "nat \<Rightarrow> asys" where
  "sample_exec i = (if i < 8 then sample_start_states ! i else sample_cycle ! ((i - 8) mod 7))"

lemma write_bytes_nothing: "write_bytes m a [] = m"
  by (rule ext) (auto simp: write_bytes_def)

lemma write_read_sample: "read_bytes (write_bytes (\<lambda>_. 0) 0 [65]) 0 1 = [65]"
  using read_write_same [of "\<lambda>_. 0" 0 "[65]"] by simp

lemma sample_start_step: "i < 7 \<Longrightarrow> astep (sample_start_states ! i) (sample_start_states ! Suc i)"
proof -
  have 0: "astep asys_init (asys_init\<lparr>as_a := A_spin [65]\<rparr>)"
    by (rule astep.a_call) (simp_all add: asys_init_def AOF_BUF_SIZE_def)
  have 1: "astep (asys_init\<lparr>as_a := A_spin [65]\<rparr>) (asys_init\<lparr>as_a := A_room [65]\<rparr>)"
    using astep.a_room [of "asys_init\<lparr>as_a := A_spin [65]\<rparr>" "[65]"] by (simp add: asys_init_def AOF_BUF_SIZE_def)
  have 2: "astep (asys_init\<lparr>as_a := A_room [65]\<rparr>)
      (asys_init\<lparr>as_buf := write_bytes (\<lambda>_. 0) 0 [65], as_a := A_copied [65]\<rparr>)"
    using astep.a_copy [of "asys_init\<lparr>as_a := A_room [65]\<rparr>" "[65]" 0] by (simp add: asys_init_def AOF_BUF_SIZE_def)
  have 3: "astep (asys_init\<lparr>as_buf := write_bytes (\<lambda>_. 0) 0 [65], as_a := A_copied [65]\<rparr>) (sample_asys A_idle F_idle)"
    using astep.a_publish [of "asys_init\<lparr>as_buf := write_bytes (\<lambda>_. 0) 0 [65], as_a := A_copied [65]\<rparr>" "[65]"]
    by (simp add: asys_init_def sample_asys_def)
  have 4: "astep (sample_asys A_idle F_idle) (sample_asys A_idle (F_head 1))"
    using astep.f_load_head [of "sample_asys A_idle F_idle"] by (simp add: sample_asys_def)
  have 5: "astep (sample_asys A_idle (F_head 1)) (sample_asys A_idle (F_both 1 0))"
    using astep.f_load_tail [of "sample_asys A_idle (F_head 1)"] by (simp add: sample_asys_def)
  have 6: "astep (sample_asys A_idle (F_both 1 0)) ((sample_asys A_idle (F_written 1))\<lparr>as_file := [65]\<rparr>)"
    using astep.f_whole [of "sample_asys A_idle (F_both 1 0)" 1 0 0] write_read_sample
    by (simp add: sample_asys_def AOF_BUF_SIZE_def)
  assume "i < 7"
  then consider "i = 0" | "i = 1" | "i = 2" | "i = 3" | "i = 4" | "i = 5" | "i = 6" by linarith
  then show ?thesis by cases (use 0 1 2 3 4 5 6 in \<open>simp_all add: sample_start_states_def eval_nat_numeral\<close>)
qed

lemma sample_cycle_step: "k < 7 \<Longrightarrow> astep (sample_cycle ! k) (sample_cycle ! (Suc k mod 7))"
proof -
  let ?s = sample_flushed
  have 0: "astep (?s A_idle F_idle) (?s A_idle (F_head 1))"
    using astep.f_load_head [of "?s A_idle F_idle"] by (simp add: sample_flushed_def sample_asys_def)
  have 1: "astep (?s A_idle (F_head 1)) (?s A_idle (F_both 1 1))"
    using astep.f_load_tail [of "?s A_idle (F_head 1)"] by (simp add: sample_flushed_def sample_asys_def)
  have 2: "astep (?s A_idle (F_both 1 1)) (?s A_idle F_idle)"
    using astep.f_nothing [of "?s A_idle (F_both 1 1)" 1 1] by (simp add: sample_flushed_def sample_asys_def)
  have 3: "astep (?s A_idle F_idle) (?s (A_spin []) F_idle)"
    using astep.a_call [of "?s A_idle F_idle" "[]"] by (simp add: sample_flushed_def sample_asys_def)
  have 4: "astep (?s (A_spin []) F_idle) (?s (A_room []) F_idle)"
    using astep.a_room [of "?s (A_spin []) F_idle" "[]"] by (simp add: sample_flushed_def sample_asys_def)
  have 5: "astep (?s (A_room []) F_idle) (?s (A_copied []) F_idle)"
    using astep.a_copy [of "?s (A_room []) F_idle" "[]" 1]
    by (simp add: sample_flushed_def sample_asys_def AOF_BUF_SIZE_def write_bytes_nothing)
  have 6: "astep (?s (A_copied []) F_idle) (?s A_idle F_idle)"
    using astep.a_publish [of "?s (A_copied []) F_idle" "[]"] by (simp add: sample_flushed_def sample_asys_def)
  assume "k < 7"
  then consider "k = 0" | "k = 1" | "k = 2" | "k = 3" | "k = 4" | "k = 5" | "k = 6" by linarith
  then show ?thesis by cases (simp_all add: sample_cycle_def 0 1 2 3 4 5 6)
qed

lemma sample_exec_step: "astep (sample_exec i) (sample_exec (Suc i))"
proof -
  consider "i < 7" | "i = 7" | "8 \<le> i" by linarith
  then show ?thesis
  proof cases
    case 1
    then show ?thesis using sample_start_step [of i] by (simp add: sample_exec_def)
  next
    case 2
    let ?s = "(sample_asys A_idle (F_written 1))\<lparr>as_file := [65]\<rparr>"
    have "astep ?s (sample_flushed A_idle F_idle)"
      using astep.f_publish [of ?s 1] by (simp add: sample_asys_def sample_flushed_def)
    with 2 show ?thesis by (simp add: sample_exec_def sample_start_states_def sample_cycle_def)
  next
    case 3
    then have "Suc i - 8 = Suc (i - 8)" by simp
    then have "(Suc i - 8) mod 7 = Suc ((i - 8) mod 7) mod 7" by (simp add: mod_Suc_eq)
    with 3 sample_cycle_step [of "(i - 8) mod 7"] show ?thesis by (simp add: sample_exec_def)
  qed
qed

lemma sample_exec_cycle: "k < 7 \<Longrightarrow> sample_exec (8 + 7 * i + k) = sample_cycle ! k"
  by (simp add: sample_exec_def)

lemma sample_exec_ok: "a_exec sample_exec" "flush_fair sample_exec" "append_fair sample_exec"
proof -
  show "a_exec sample_exec"
    using sample_exec_step by (simp add: a_exec_def sample_exec_def sample_start_states_def)
  have f: "flush_step (sample_exec (8 + 7 * i)) (sample_exec (Suc (8 + 7 * i)))"
    and a: "\<not> flush_step (sample_exec (8 + 7 * i + 3)) (sample_exec (Suc (8 + 7 * i + 3)))" for i
    using sample_exec_cycle [of 0 i] sample_exec_cycle [of 1 i] sample_exec_cycle [of 3 i] sample_exec_cycle [of 4 i]
    by (simp_all add: flush_step_def sample_cycle_def sample_flushed_def sample_asys_def)
  show "flush_fair sample_exec" unfolding flush_fair_def
  proof
    fix i
    show "\<exists>j \<ge> i. flush_step (sample_exec j) (sample_exec (Suc j))" using f [of i] by (intro exI [of _ "8 + 7 * i"]) simp
  qed
  show "append_fair sample_exec" unfolding append_fair_def
  proof
    fix i
    show "\<exists>j \<ge> i. \<not> flush_step (sample_exec j) (sample_exec (Suc j))" using a [of i] by (intro exI [of _ "8 + 7 * i + 3"]) simp
  qed
qed

text \<open>
  C10: every logged byte reaches the file: in an execution in which the flush thread keeps running, for
  every moment there is a later one at which the file holds all the entries that were logged by then.
\<close>

theorem log_eventually_on_file:
  assumes ex: "a_exec \<sigma>" and fair: "flush_fair \<sigma>"
  shows "\<exists>j \<ge> i. prefix (as_log (\<sigma> i)) (as_file (\<sigma> j))"
proof -
  from rank_zero_eventually [OF assms le_refl] obtain j where
    j: "i \<le> j" "length (as_log (\<sigma> i)) \<le> ntail (\<sigma> j)" by (auto simp: rank_zero_iff)
  from a_exec_inv [OF ex] obtain nt where inv: "a_sys_inv (\<sigma> j) nt" ..
  have "length (as_log (\<sigma> i)) \<le> length (as_file (\<sigma> j))" using j(2) ntail_bounds [OF inv] by simp
  moreover have "prefix (as_log (\<sigma> i)) (as_log (\<sigma> j))" by (rule exec_log_mono [OF ex j(1)])
  moreover have "prefix (as_file (\<sigma> j)) (as_log (\<sigma> j))" by (rule a_sys_inv_prefix [OF inv])
  ultimately show ?thesis using j(1) prefix_length_prefix by blast
qed

theorem log_eventually_on_file_witness:
  "as_log (sample_exec 4) = [65] \<and> (\<exists>j \<ge> 4. prefix [65] (as_file (sample_exec j)))"
proof -
  have "as_log (sample_exec 4) = [65]" by (simp add: sample_exec_def sample_start_states_def sample_asys_def)
  with log_eventually_on_file [OF sample_exec_ok(1,2), of 4] show ?thesis by simp
qed

text \<open>
  C24: the spin loop of \<open>ring_write\<close> ends: in an execution in which both threads keep running, an event
  loop that waits for room in the ring gets it.
\<close>

theorem ring_wait_ends:
  assumes ex: "a_exec \<sigma>" and "flush_fair \<sigma>" and "append_fair \<sigma>" and spin: "as_a (\<sigma> i) = A_spin d"
  shows "\<exists>j > i. as_a (\<sigma> j) = A_room d"
proof (rule ccontr)
  assume no: "\<not> ?thesis"
  have stay: "as_a (\<sigma> j) = A_spin d \<and> as_log (\<sigma> j) = as_log (\<sigma> i)" if "i \<le> j" for j
    using that
  proof (induction j rule: dec_induct)
    case (step j)
    with no spin_step [OF exec_step [OF ex], of j d] show ?case by (metis le_imp_less_Suc)
  qed (simp add: spin)
  from rank_zero_eventually [OF assms(1,2) le_refl] obtain j where
    j: "i \<le> j" "flush_rank (length (as_log (\<sigma> i))) (\<sigma> j) = 0" by blast
  from assms(3) obtain k where k: "j \<le> k" "\<not> flush_step (\<sigma> k) (\<sigma> (Suc k))" by (auto simp: append_fair_def)
  then have ik: "i \<le> k" using j(1) by simp
  from a_exec_inv [OF ex] obtain nt where inv: "a_sys_inv (\<sigma> k) nt" ..
  have "flush_rank (length (as_log (\<sigma> i))) (\<sigma> k) = 0"
    using exec_rank_mono [OF ex _ k(1), of "length (as_log (\<sigma> i))"] stay [OF j(1)] j(2) by simp
  then have "length (as_log (\<sigma> k)) \<le> ntail (\<sigma> k)" using stay [OF ik] by (simp add: rank_zero_iff)
  then have "as_a (\<sigma> (Suc k)) = A_room d"
    using spin_leaves_when_drained [OF exec_step [OF ex] k(2) _ inv] stay [OF ik] by simp
  with no ik show False by (meson le_imp_less_Suc)
qed

theorem ring_wait_ends_witness: "\<exists>j > 1. as_a (sample_exec j) = A_room [65]"
proof -
  have "as_a (sample_exec 1) = A_spin [65]" by (simp add: sample_exec_def sample_start_states_def)
  from ring_wait_ends [OF sample_exec_ok this] show ?thesis .
qed

end
