(* ===== verification/Spsc_Concurrent.thy ===== *)
theory Spsc_Concurrent
  imports Spsc
begin

text \<open>
  The queue of \<^verbatim>\<open>src/spsc.rs\<close> with its producer and its consumer running concurrently.
  Each memory access of \<^verbatim>\<open>push\<close> and \<^verbatim>\<open>pop\<close> is one step; the two threads
  interleave in any order, so each may act on a stale copy of the other's counter. The ghost
  fields record the items whose push returned true and the values that pop returned.
\<close>

section \<open>The step relation\<close>

text \<open>Program counters: what the thread has loaded so far.\<close>

datatype 'a producer =
    P_idle
  | P_head 'a u64          \<comment> \<open>head loaded\<close>
  | P_tail 'a u64 u64      \<comment> \<open>head and tail loaded\<close>
  | P_written 'a u64       \<comment> \<open>item written, head not yet published\<close>

datatype 'a consumer =
    C_idle
  | C_tail u64             \<comment> \<open>tail loaded\<close>
  | C_head u64 u64         \<comment> \<open>tail and head loaded\<close>
  | C_read "'a option" u64 \<comment> \<open>cell read, tail not yet published\<close>

record 'a qsys =
  qs_q :: "'a spsc"
  qs_p :: "'a producer"
  qs_c :: "'a consumer"
  qs_sent :: "'a list"
  qs_recv :: "'a option list"

inductive qstep :: "nat \<Rightarrow> 'a qsys \<Rightarrow> 'a qsys \<Rightarrow> bool" for cap where
  p_load_head: "qs_p s = P_idle \<Longrightarrow> qstep cap s (s\<lparr>qs_p := P_head x (q_head (qs_q s))\<rparr>)"
| p_load_tail: "qs_p s = P_head x h \<Longrightarrow> qstep cap s (s\<lparr>qs_p := P_tail x h (q_tail (qs_q s))\<rparr>)"
| p_full: "qs_p s = P_tail x h t \<Longrightarrow> word_of_nat cap \<le> h - t \<Longrightarrow> qstep cap s (s\<lparr>qs_p := P_idle\<rparr>)"
| p_write: "qs_p s = P_tail x h t \<Longrightarrow> \<not> word_of_nat cap \<le> h - t \<Longrightarrow>
    qstep cap s (s\<lparr>qs_q := (qs_q s)\<lparr>q_buf := (q_buf (qs_q s))(spsc_slot cap h := Some x)\<rparr>,
                   qs_p := P_written x h\<rparr>)"
| p_publish: "qs_p s = P_written x h \<Longrightarrow>
    qstep cap s (s\<lparr>qs_q := (qs_q s)\<lparr>q_head := h + 1\<rparr>, qs_p := P_idle, qs_sent := qs_sent s @ [x]\<rparr>)"
| c_load_tail: "qs_c s = C_idle \<Longrightarrow> qstep cap s (s\<lparr>qs_c := C_tail (q_tail (qs_q s))\<rparr>)"
| c_load_head: "qs_c s = C_tail t \<Longrightarrow> qstep cap s (s\<lparr>qs_c := C_head t (q_head (qs_q s))\<rparr>)"
| c_empty: "qs_c s = C_head t h \<Longrightarrow> t = h \<Longrightarrow> qstep cap s (s\<lparr>qs_c := C_idle\<rparr>)"
| c_read: "qs_c s = C_head t h \<Longrightarrow> t \<noteq> h \<Longrightarrow>
    qstep cap s (s\<lparr>qs_c := C_read (q_buf (qs_q s) (spsc_slot cap t)) t\<rparr>)"
| c_publish: "qs_c s = C_read v t \<Longrightarrow>
    qstep cap s (s\<lparr>qs_q := (qs_q s)\<lparr>q_tail := t + 1\<rparr>, qs_c := C_idle, qs_recv := qs_recv s @ [v]\<rparr>)"

definition qsys_init :: "'a qsys" where
  "qsys_init = \<lparr>qs_q = \<lparr>q_buf = (\<lambda>_. None), q_head = 0, q_tail = 0\<rparr>,
     qs_p = P_idle, qs_c = C_idle, qs_sent = [], qs_recv = []\<rparr>"

inductive qreach :: "nat \<Rightarrow> 'a qsys \<Rightarrow> bool" for cap where
  q_start: "qreach cap qsys_init"
| q_step: "qreach cap s \<Longrightarrow> qstep cap s t \<Longrightarrow> qreach cap t"

section \<open>The invariant\<close>

fun p_inv :: "nat \<Rightarrow> 'a spsc \<Rightarrow> nat \<Rightarrow> nat \<Rightarrow> 'a producer \<Rightarrow> bool" where
  "p_inv cap q ns nr P_idle \<longleftrightarrow> True"
| "p_inv cap q ns nr (P_head x h) \<longleftrightarrow> h = word_of_nat ns"
| "p_inv cap q ns nr (P_tail x h t) \<longleftrightarrow>
     h = word_of_nat ns \<and> (\<exists>k \<le> nr. t = word_of_nat k \<and> ns \<le> k + cap)"
| "p_inv cap q ns nr (P_written x h) \<longleftrightarrow>
     h = word_of_nat ns \<and> ns < nr + cap \<and> q_buf q (ns mod cap) = Some x"

fun c_inv :: "'a list \<Rightarrow> nat \<Rightarrow> 'a consumer \<Rightarrow> bool" where
  "c_inv sent nr C_idle \<longleftrightarrow> True"
| "c_inv sent nr (C_tail t) \<longleftrightarrow> t = word_of_nat nr"
| "c_inv sent nr (C_head t h) \<longleftrightarrow>
     t = word_of_nat nr \<and> (\<exists>k. h = word_of_nat k \<and> nr \<le> k \<and> k \<le> length sent)"
| "c_inv sent nr (C_read v t) \<longleftrightarrow>
     t = word_of_nat nr \<and> nr < length sent \<and> v = Some (sent ! nr)"

definition q_inv :: "nat \<Rightarrow> 'a qsys \<Rightarrow> bool" where
  "q_inv cap s \<longleftrightarrow>
     (let q = qs_q s; ns = length (qs_sent s); nr = length (qs_recv s)
      in q_head q = word_of_nat ns \<and> q_tail q = word_of_nat nr
         \<and> nr \<le> ns \<and> ns \<le> nr + cap
         \<and> (\<forall>i. nr \<le> i \<and> i < ns \<longrightarrow> q_buf q (i mod cap) = Some (qs_sent s ! i))
         \<and> qs_recv s = map Some (take nr (qs_sent s))
         \<and> p_inv cap q ns nr (qs_p s) \<and> c_inv (qs_sent s) nr (qs_c s))"

lemma stale_difference:
  assumes "cap_ok cap" and "k \<le> ns" and "ns \<le> k + cap"
  shows "unat (word_of_nat ns - word_of_nat k :: u64) = ns - k"
proof -
  have "word_of_nat ns - word_of_nat k = (word_of_nat (ns - k) :: u64)"
    using assms(2) by (simp add: of_nat_diff)
  moreover have "ns - k < 2 ^ 64" using assms by (auto simp: cap_ok_def)
  ultimately show ?thesis by (simp add: unat_of_nat)
qed

lemma q_invD:
  assumes "q_inv cap s"
  shows "q_head (qs_q s) = word_of_nat (length (qs_sent s))"
    and "q_tail (qs_q s) = word_of_nat (length (qs_recv s))"
    and "length (qs_recv s) \<le> length (qs_sent s)"
    and "length (qs_sent s) \<le> length (qs_recv s) + cap"
    and "\<And>i. length (qs_recv s) \<le> i \<Longrightarrow> i < length (qs_sent s) \<Longrightarrow>
           q_buf (qs_q s) (i mod cap) = Some (qs_sent s ! i)"
    and "qs_recv s = map Some (take (length (qs_recv s)) (qs_sent s))"
    and "p_inv cap (qs_q s) (length (qs_sent s)) (length (qs_recv s)) (qs_p s)"
    and "c_inv (qs_sent s) (length (qs_recv s)) (qs_c s)"
  using assms unfolding q_inv_def Let_def by blast+

lemma p_inv_tail_room:
  assumes "cap_ok cap" and "p_inv cap q ns nr (P_tail x h t)" and "nr \<le> ns"
    and "\<not> word_of_nat cap \<le> h - t"
  shows "ns < nr + cap"
proof -
  from assms(2) obtain k where k: "h = word_of_nat ns" "k \<le> nr" "t = word_of_nat k" "ns \<le> k + cap"
    by auto
  with assms(1,3) have "unat (h - t) = ns - k" using stale_difference [of cap k ns] by simp
  with assms(1,4) have "ns - k < cap" by (simp add: word_le_nat_alt cap_ok_unat)
  with k show ?thesis by simp
qed

lemma q_inv_p_write:
  assumes ok: "cap_ok cap" and inv: "q_inv cap s" and p: "qs_p s = P_tail x h t"
    and room: "\<not> word_of_nat cap \<le> h - t"
  shows "q_inv cap (s\<lparr>qs_q := (qs_q s)\<lparr>q_buf := (q_buf (qs_q s))(spsc_slot cap h := Some x)\<rparr>,
                      qs_p := P_written x h\<rparr>)"
proof -
  note D = q_invD [OF inv]
  let ?ns = "length (qs_sent s)" and ?nr = "length (qs_recv s)"
  have h: "h = word_of_nat ?ns" using D(7) p by simp
  have free: "?ns < ?nr + cap"
    using D(3,7) p room by (intro p_inv_tail_room [OF ok _ _ room, of "qs_q s" ?ns ?nr x]) auto
  have slot: "spsc_slot cap h = ?ns mod cap" by (simp add: h spsc_slot_nat [OF ok])
  have "i mod cap \<noteq> ?ns mod cap" if "?nr \<le> i" "i < ?ns" for i
    using that free by (intro mod_window_neq) auto
  with D h free slot show ?thesis
    unfolding q_inv_def Let_def by (auto simp: p)
qed

lemma q_inv_p_publish:
  assumes inv: "q_inv cap s" and p: "qs_p s = P_written x h"
  shows "q_inv cap (s\<lparr>qs_q := (qs_q s)\<lparr>q_head := h + 1\<rparr>, qs_p := P_idle, qs_sent := qs_sent s @ [x]\<rparr>)"
proof -
  note D = q_invD [OF inv]
  have "c_inv (qs_sent s @ [x]) (length (qs_recv s)) (qs_c s)"
    using D(3,8) by (cases "qs_c s") (auto simp: nth_append)
  moreover have "take (length (qs_recv s)) (qs_sent s @ [x]) = take (length (qs_recv s)) (qs_sent s)"
    using D(3) by simp
  ultimately show ?thesis
    using D p unfolding q_inv_def Let_def by (auto simp: nth_append less_Suc_eq)
qed

lemma q_inv_c_publish:
  assumes inv: "q_inv cap s" and c: "qs_c s = C_read v t"
  shows "q_inv cap (s\<lparr>qs_q := (qs_q s)\<lparr>q_tail := t + 1\<rparr>, qs_c := C_idle, qs_recv := qs_recv s @ [v]\<rparr>)"
proof -
  note D = q_invD [OF inv]
  let ?nr = "length (qs_recv s)"
  from D(8) c have t: "t = word_of_nat ?nr" "?nr < length (qs_sent s)" "v = Some (qs_sent s ! ?nr)"
    by simp_all
  have "p_inv cap ((qs_q s)\<lparr>q_tail := t + 1\<rparr>) (length (qs_sent s)) (Suc ?nr) (qs_p s)"
    using D(7) by (cases "qs_p s") (auto intro: le_SucI)
  moreover have "qs_recv s @ [v] = map Some (take (Suc ?nr) (qs_sent s))"
    using D(6) t by (simp add: take_Suc_conv_app_nth)
  ultimately show ?thesis
    using D t unfolding q_inv_def Let_def by (auto simp: algebra_simps)
qed

lemma q_inv_c_read:
  assumes ok: "cap_ok cap" and inv: "q_inv cap s" and c: "qs_c s = C_head t h" and ne: "t \<noteq> h"
  shows "q_inv cap (s\<lparr>qs_c := C_read (q_buf (qs_q s) (spsc_slot cap t)) t\<rparr>)"
proof -
  note D = q_invD [OF inv]
  let ?nr = "length (qs_recv s)"
  from D(8) c obtain k where k: "t = word_of_nat ?nr" "h = word_of_nat k" "?nr \<le> k" "k \<le> length (qs_sent s)"
    by auto
  with ne have "?nr < length (qs_sent s)" by (cases "?nr = k") auto
  moreover from this D(5) [of ?nr] have "q_buf (qs_q s) (spsc_slot cap t) = Some (qs_sent s ! ?nr)"
    by (simp add: k spsc_slot_nat [OF ok])
  ultimately show ?thesis
    using D k unfolding q_inv_def Let_def by auto
qed

lemma qstep_inv: "qstep cap s t \<Longrightarrow> cap_ok cap \<Longrightarrow> q_inv cap s \<Longrightarrow> q_inv cap t"
proof (induction rule: qstep.induct)
  case (p_load_tail s x h)
  then show ?case unfolding q_inv_def Let_def by auto
next
  case (p_write s x h t)
  then show ?case by (intro q_inv_p_write)
next
  case (p_publish s x h)
  then show ?case by (intro q_inv_p_publish)
next
  case (c_load_head s t)
  then show ?case unfolding q_inv_def Let_def by auto
next
  case (c_read s t h)
  then show ?case by (intro q_inv_c_read)
next
  case (c_publish s v t)
  then show ?case by (intro q_inv_c_publish)
qed (auto simp: q_inv_def Let_def)

lemma q_inv_init: "q_inv cap qsys_init"
  by (simp add: q_inv_def qsys_init_def Let_def)

lemma qreach_inv: "qreach cap s \<Longrightarrow> cap_ok cap \<Longrightarrow> q_inv cap s"
  by (induction rule: qreach.induct) (auto intro: q_inv_init qstep_inv)

text \<open>Some step is always possible: neither thread can block the other.\<close>

lemma producer_step: "\<exists>t. qstep cap s t \<and> qs_c t = qs_c s"
proof (cases "qs_p s")
  case P_idle
  from qstep.p_load_head [OF this, of cap undefined] show ?thesis by fastforce
next
  case (P_head x h)
  from qstep.p_load_tail [OF this, of cap] show ?thesis by fastforce
next
  case (P_tail x h t)
  show ?thesis
  proof (cases "word_of_nat cap \<le> h - t")
    case True
    from qstep.p_full [OF P_tail True] show ?thesis by fastforce
  next
    case False
    from qstep.p_write [OF P_tail False] show ?thesis by fastforce
  qed
next
  case (P_written x h)
  from qstep.p_publish [OF this, of cap] show ?thesis by fastforce
qed

section \<open>Properties\<close>

text \<open>
  In every interleaving of one producer and one consumer, the values the consumer received are
  the first values the producer sent, in order, none of them lost, duplicated or read from an
  unwritten cell; at most \<open>cap\<close> items are in flight.
\<close>

lemma spsc_concurrent_fifo:
  assumes "cap_ok cap" and "qreach cap s"
  shows "qs_recv s = map Some (take (length (qs_recv s)) (qs_sent s))
     \<and> length (qs_recv s) \<le> length (qs_sent s) \<and> length (qs_sent s) \<le> length (qs_recv s) + cap"
  using q_invD(3,4,6) [OF qreach_inv [OF assms(2,1)]] by blast

end
