(* ===== verification/Ra_Memory.thy ===== *)
theory Ra_Memory
  imports Prelude
begin

text \<open>
  The memory orderings of Rust's atomics, for two threads that share two counters, as
  \<^verbatim>\<open>src/spsc.rs\<close> and \<^verbatim>\<open>src/aof.rs\<close> do. A counter is the list of all stores to it; a load may return
  any of them that is not older than what the thread has seen. A release store carries what its
  thread knows, and an acquire load that reads it learns that. The cells of the buffer are ordinary
  memory: every access has a stamp from the clock of its thread, and an access to a cell whose last
  conflicting access the thread does not know of is a data race, which is undefined behaviour and is
  recorded in \<open>ra_race\<close>.

  The second part is the protocol of a ring between two counters, which both files follow: the
  invariant \<open>ring_inv\<close> and what every access does to it.
\<close>

section \<open>The memory model\<close>

datatype thread = Prod | Cons

datatype counter = Head | Tail

datatype ordering = Relaxed | Acquire | Release

text \<open>What a thread knows: the newest store it has seen of each counter, and the clocks of both threads.\<close>

record view =
  v_seen :: "counter \<Rightarrow> nat"
  v_clock :: "thread \<Rightarrow> nat"

definition bot_view :: view where
  "bot_view = \<lparr>v_seen = (\<lambda>_. 0), v_clock = (\<lambda>_. 0)\<rparr>"

definition join_view :: "view \<Rightarrow> view \<Rightarrow> view" where
  "join_view v w = \<lparr>v_seen = (\<lambda>c. max (v_seen v c) (v_seen w c)), v_clock = (\<lambda>t. max (v_clock v t) (v_clock w t))\<rparr>"

record msg =
  m_val :: u64
  m_view :: view

text \<open>\<open>c_wr\<close>: thread and stamp of the last write. \<open>c_rd\<close>: the stamp of the last read of each thread.\<close>

record 'a cell =
  c_val :: "'a option"
  c_wr :: "(thread \<times> nat) option"
  c_rd :: "thread \<Rightarrow> nat"

record 'a ra_mem =
  ra_msgs :: "counter \<Rightarrow> msg list"
  ra_view :: "thread \<Rightarrow> view"
  ra_cells :: "nat \<Rightarrow> 'a cell"
  ra_race :: bool

definition ra_init :: "'a ra_mem" where
  "ra_init = \<lparr>ra_msgs = (\<lambda>_. [\<lparr>m_val = 0, m_view = bot_view\<rparr>]), ra_view = (\<lambda>_. bot_view),
     ra_cells = (\<lambda>_. \<lparr>c_val = None, c_wr = None, c_rd = (\<lambda>_. 0)\<rparr>), ra_race = False\<rparr>"

subsection \<open>Atomic accesses\<close>

text \<open>A load of thread \<open>t\<close> that reads store number \<open>i\<close> of the counter \<open>c\<close>.\<close>

definition ra_readable :: "thread \<Rightarrow> counter \<Rightarrow> nat \<Rightarrow> 'a ra_mem \<Rightarrow> bool" where
  "ra_readable t c i m \<longleftrightarrow> v_seen (ra_view m t) c \<le> i \<and> i < length (ra_msgs m c)"

definition ra_value :: "counter \<Rightarrow> nat \<Rightarrow> 'a ra_mem \<Rightarrow> u64" where
  "ra_value c i m = m_val (ra_msgs m c ! i)"

definition ra_load :: "thread \<Rightarrow> ordering \<Rightarrow> counter \<Rightarrow> nat \<Rightarrow> 'a ra_mem \<Rightarrow> 'a ra_mem" where
  "ra_load t ord c i m =
     (let v = ra_view m t;
          v1 = v\<lparr>v_seen := (v_seen v)(c := i)\<rparr>;
          v2 = (if ord = Acquire then join_view v1 (m_view (ra_msgs m c ! i)) else v1)
      in m\<lparr>ra_view := (ra_view m)(t := v2)\<rparr>)"

text \<open>
  Each counter has one thread that stores to it, so a store is the newest. A store that is not a
  release carries nothing but itself.
\<close>

definition ra_store :: "thread \<Rightarrow> ordering \<Rightarrow> counter \<Rightarrow> u64 \<Rightarrow> 'a ra_mem \<Rightarrow> 'a ra_mem" where
  "ra_store t ord c x m =
     (let k = length (ra_msgs m c);
          v = ra_view m t;
          v1 = v\<lparr>v_seen := (v_seen v)(c := k)\<rparr>;
          carried = (if ord = Release then v1 else bot_view\<lparr>v_seen := (v_seen bot_view)(c := k)\<rparr>)
      in m\<lparr>ra_msgs := (ra_msgs m)(c := ra_msgs m c @ [\<lparr>m_val = x, m_view = carried\<rparr>]),
           ra_view := (ra_view m)(t := v1)\<rparr>)"

lemma ra_init_access [simp]:
  "ra_readable t c 0 ra_init" "ra_value c 0 ra_init = 0" "ra_load t ord c 0 ra_init = ra_init"
  by (auto simp: ra_readable_def ra_value_def ra_load_def ra_init_def bot_view_def join_view_def Let_def fun_eq_iff)

subsection \<open>Accesses to the buffer\<close>

definition knows_write :: "view \<Rightarrow> 'a cell \<Rightarrow> bool" where
  "knows_write v c \<longleftrightarrow> (case c_wr c of None \<Rightarrow> True | Some (t, k) \<Rightarrow> k \<le> v_clock v t)"

definition knows_reads :: "view \<Rightarrow> 'a cell \<Rightarrow> bool" where
  "knows_reads v c \<longleftrightarrow> c_rd c Prod \<le> v_clock v Prod \<and> c_rd c Cons \<le> v_clock v Cons"

definition tick :: "thread \<Rightarrow> view \<Rightarrow> view" where
  "tick t v = v\<lparr>v_clock := (v_clock v)(t := Suc (v_clock v t))\<rparr>"

definition na_write :: "thread \<Rightarrow> nat \<Rightarrow> 'a \<Rightarrow> 'a ra_mem \<Rightarrow> 'a ra_mem" where
  "na_write t a x m =
     (let v = ra_view m t; c = ra_cells m a
      in m\<lparr>ra_view := (ra_view m)(t := tick t v),
           ra_cells := (ra_cells m)(a := c\<lparr>c_val := Some x, c_wr := Some (t, Suc (v_clock v t))\<rparr>),
           ra_race := (ra_race m \<or> \<not> (knows_write v c \<and> knows_reads v c))\<rparr>)"

definition na_read :: "thread \<Rightarrow> nat \<Rightarrow> 'a ra_mem \<Rightarrow> 'a option \<times> 'a ra_mem" where
  "na_read t a m =
     (let v = ra_view m t; c = ra_cells m a
      in (c_val c,
          m\<lparr>ra_view := (ra_view m)(t := tick t v),
            ra_cells := (ra_cells m)(a := c\<lparr>c_rd := (c_rd c)(t := Suc (v_clock v t))\<rparr>),
            ra_race := (ra_race m \<or> \<not> knows_write v c)\<rparr>))"

primrec na_write_range :: "thread \<Rightarrow> nat \<Rightarrow> 'a list \<Rightarrow> 'a ra_mem \<Rightarrow> 'a ra_mem" where
  "na_write_range t a [] m = m"
| "na_write_range t a (x # xs) m = na_write_range t (Suc a) xs (na_write t a x m)"

primrec na_read_range :: "thread \<Rightarrow> nat \<Rightarrow> nat \<Rightarrow> 'a ra_mem \<Rightarrow> 'a option list \<times> 'a ra_mem" where
  "na_read_range t a 0 m = ([], m)"
| "na_read_range t a (Suc k) m =
     (case na_read t a m of (x, m1) \<Rightarrow> (case na_read_range t (Suc a) k m1 of (xs, m2) \<Rightarrow> (x # xs, m2)))"

section \<open>The ring protocol\<close>

text \<open>
  The producer writes item \<open>i\<close> to cell \<open>i mod cap\<close> with stamp \<open>Suc i\<close>, and the consumer reads it with
  the same stamp, so the clocks are the numbers of items written and read. The store that publishes a
  position carries it as the clock of its thread.
\<close>

definition w_pos :: "'a ra_mem \<Rightarrow> nat" where "w_pos m = v_clock (ra_view m Prod) Prod"
definition r_pos :: "'a ra_mem \<Rightarrow> nat" where "r_pos m = v_clock (ra_view m Cons) Cons"

text \<open>What each thread knows of the other's position.\<close>

definition known_w :: "'a ra_mem \<Rightarrow> nat" where "known_w m = v_clock (ra_view m Cons) Prod"
definition known_r :: "'a ra_mem \<Rightarrow> nat" where "known_r m = v_clock (ra_view m Prod) Cons"

text \<open>The published positions: those of the newest stores.\<close>

definition pub_pos :: "thread \<Rightarrow> counter \<Rightarrow> 'a ra_mem \<Rightarrow> nat" where
  "pub_pos t c m = v_clock (m_view (last (ra_msgs m c))) t"

definition pos_at :: "thread \<Rightarrow> counter \<Rightarrow> nat \<Rightarrow> 'a ra_mem \<Rightarrow> nat" where
  "pos_at t c i m = v_clock (m_view (ra_msgs m c ! i)) t"

text \<open>
  The counter \<open>c\<close> that \<open>t\<close> stores to and \<open>u\<close> loads, with \<open>d\<close> for the way back: every store has the
  position of \<open>t\<close> as its value, positions grow, and \<open>u\<close> knows exactly the position it has seen.
\<close>

definition channel_inv :: "thread \<Rightarrow> counter \<Rightarrow> thread \<Rightarrow> counter \<Rightarrow> 'a ra_mem \<Rightarrow> bool" where
  "channel_inv t c u d m \<longleftrightarrow>
     (\<forall>i < length (ra_msgs m c).
        ra_value c i m = word_of_nat (pos_at t c i m) \<and> v_seen (m_view (ra_msgs m c ! i)) c \<le> i
        \<and> v_seen (m_view (ra_msgs m c ! i)) d < length (ra_msgs m d)
        \<and> pos_at u c i m \<le> v_clock (ra_view m u) u)
     \<and> (\<forall>i j. i \<le> j \<longrightarrow> j < length (ra_msgs m c) \<longrightarrow> pos_at t c i m \<le> pos_at t c j m)
     \<and> Suc (v_seen (ra_view m t) c) = length (ra_msgs m c)
     \<and> v_seen (ra_view m u) c < length (ra_msgs m c)
     \<and> v_clock (ra_view m u) t = pos_at t c (v_seen (ra_view m u) c) m
     \<and> pub_pos t c m \<le> v_clock (ra_view m t) t"

lemma channel_invD:
  assumes "channel_inv t c u d m"
  shows "i < length (ra_msgs m c) \<Longrightarrow> ra_value c i m = word_of_nat (pos_at t c i m)"
    and "i < length (ra_msgs m c) \<Longrightarrow> v_seen (m_view (ra_msgs m c ! i)) c \<le> i"
    and "i < length (ra_msgs m c) \<Longrightarrow> v_seen (m_view (ra_msgs m c ! i)) d < length (ra_msgs m d)"
    and "i < length (ra_msgs m c) \<Longrightarrow> pos_at u c i m \<le> v_clock (ra_view m u) u"
    and "i \<le> j \<Longrightarrow> j < length (ra_msgs m c) \<Longrightarrow> pos_at t c i m \<le> pos_at t c j m"
    and "Suc (v_seen (ra_view m t) c) = length (ra_msgs m c)"
    and "v_seen (ra_view m u) c < length (ra_msgs m c)"
    and "v_clock (ra_view m u) t = pos_at t c (v_seen (ra_view m u) c) m"
    and "pub_pos t c m \<le> v_clock (ra_view m t) t"
  using assms unfolding channel_inv_def by blast+

lemma pub_pos_at:
  assumes "channel_inv t c u d m"
  shows "pub_pos t c m = pos_at t c (v_seen (ra_view m t) c) m"
proof -
  have "last (ra_msgs m c) = ra_msgs m c ! v_seen (ra_view m t) c"
    using channel_invD(6) [OF assms] by (metis diff_Suc_1 last_conv_nth length_0_conv nat.distinct(1))
  then show ?thesis by (simp add: pub_pos_def pos_at_def)
qed

lemma known_le_pub:
  assumes "channel_inv t c u d m"
  shows "v_clock (ra_view m u) t \<le> pub_pos t c m"
  unfolding pub_pos_at [OF assms] channel_invD(8) [OF assms]
  using channel_invD(5-7) [OF assms] by (metis less_Suc_eq_le lessI)

text \<open>A thread's load of its own counter returns its last store.\<close>

lemma own_load:
  assumes "channel_inv t c u d m" and "ra_readable t c i m"
  shows "ra_value c i m = word_of_nat (pub_pos t c m)" and "ra_load t Relaxed c i m = m"
proof -
  have i: "i = v_seen (ra_view m t) c" using assms channel_invD(6) [OF assms(1)] by (auto simp: ra_readable_def)
  show "ra_value c i m = word_of_nat (pub_pos t c m)"
    using channel_invD(1) [OF assms(1), of i] channel_invD(6) [OF assms(1)] by (simp add: i pub_pos_at [OF assms(1)])
  show "ra_load t Relaxed c i m = m" by (simp add: i ra_load_def Let_def)
qed

text \<open>An acquire load of the other thread's counter: what is known of it becomes the position that was read.\<close>

lemma acquire_load_view:
  assumes ch: "channel_inv t c u d m" "channel_inv u d t c m" and ne: "t \<noteq> u" "c \<noteq> d" and r: "ra_readable u c i m"
  shows "ra_view (ra_load u Acquire c i m) u
     = \<lparr>v_seen = (v_seen (ra_view m u))(c := i), v_clock = (v_clock (ra_view m u))(t := pos_at t c i m)\<rparr>"
proof -
  let ?v = "ra_view m u" and ?w = "m_view (ra_msgs m c ! i)"
  have i: "v_seen ?v c \<le> i" "i < length (ra_msgs m c)" using r by (simp_all add: ra_readable_def)
  have "v_seen ?w c \<le> i" "v_seen ?w d \<le> v_seen ?v d" "v_clock ?w u \<le> v_clock ?v u"
    using channel_invD(2-4) [OF ch(1) i(2)] channel_invD(6) [OF ch(2)] by (auto simp: pos_at_def)
  moreover have "v_clock ?v t \<le> v_clock ?w t"
    using channel_invD(5) [OF ch(1) i] channel_invD(8) [OF ch(1)] by (simp add: pos_at_def)
  moreover have "x = c \<or> x = d" for x using ne(2) by (cases x; cases c; cases d) auto
  moreover have "x = t \<or> x = u" for x using ne(1) by (cases x; cases t; cases u) auto
  ultimately show ?thesis
    using ne by (auto simp: ra_load_def Let_def join_view_def pos_at_def fun_eq_iff max_def) (metis le_antisym)+
qed

lemma ra_load_fields [simp]:
  "ra_msgs (ra_load t ord c i m) = ra_msgs m" "ra_cells (ra_load t ord c i m) = ra_cells m"
  "ra_race (ra_load t ord c i m) = ra_race m" "t' \<noteq> t \<Longrightarrow> ra_view (ra_load t ord c i m) t' = ra_view m t'"
  by (simp_all add: ra_load_def Let_def)

lemma acquire_load:
  assumes ch: "channel_inv t c u d m" "channel_inv u d t c m" and ne: "t \<noteq> u" "c \<noteq> d" and r: "ra_readable u c i m"
  defines "m' \<equiv> ra_load u Acquire c i m"
  shows "channel_inv t c u d m'" and "channel_inv u d t c m'"
    and "ra_value c i m = word_of_nat (v_clock (ra_view m' u) t)"
    and "v_clock (ra_view m u) t \<le> v_clock (ra_view m' u) t"
    and "v_clock (ra_view m' u) u = v_clock (ra_view m u) u"
proof -
  note v = acquire_load_view [OF assms(1-5), folded m'_def]
  have m': "ra_msgs m' = ra_msgs m" "ra_view m' t = ra_view m t" using ne(1) by (simp_all add: m'_def)
  have i: "v_seen (ra_view m u) c \<le> i" "i < length (ra_msgs m c)" using r by (simp_all add: ra_readable_def)
  note D = channel_invD [OF ch(1)] and E = channel_invD [OF ch(2)]
  show "channel_inv t c u d m'" "channel_inv u d t c m'"
    using D E ne i(2) unfolding channel_inv_def
    by (simp_all add: m' v pos_at_def ra_value_def pub_pos_def)
  show "ra_value c i m = word_of_nat (v_clock (ra_view m' u) t)" using D(1) [OF i(2)] by (simp add: v)
  show "v_clock (ra_view m u) t \<le> v_clock (ra_view m' u) t" using D(5) [OF i] D(8) by (simp add: v)
  show "v_clock (ra_view m' u) u = v_clock (ra_view m u) u" using ne by (simp add: v)
qed

text \<open>A release store of the own position publishes it.\<close>

lemma release_store:
  assumes ch: "channel_inv t c u d m" "channel_inv u d t c m" and ne: "t \<noteq> u" "c \<noteq> d"
  defines "m' \<equiv> ra_store t Release c (word_of_nat (v_clock (ra_view m t) t)) m"
  shows "channel_inv t c u d m'" and "channel_inv u d t c m'"
    and "pub_pos t c m' = v_clock (ra_view m t) t" and "pub_pos u d m' = pub_pos u d m"
    and "v_clock (ra_view m' x) y = v_clock (ra_view m x) y"
    and "ra_cells m' = ra_cells m" and "ra_race m' = ra_race m"
proof -
  let ?k = "length (ra_msgs m c)" and ?v = "ra_view m t"
  note D = channel_invD [OF ch(1)] and E = channel_invD [OF ch(2)]
  have msgs: "ra_msgs m' c = ra_msgs m c @ [\<lparr>m_val = word_of_nat (v_clock ?v t), m_view = ?v\<lparr>v_seen := (v_seen ?v)(c := ?k)\<rparr>\<rparr>]"
    "ra_msgs m' d = ra_msgs m d" using ne(2) by (simp_all add: m'_def ra_store_def Let_def)
  have view: "ra_view m' t = ?v\<lparr>v_seen := (v_seen ?v)(c := ?k)\<rparr>" "ra_view m' u = ra_view m u"
    using ne(1) by (simp_all add: m'_def ra_store_def Let_def)
  show clk: "v_clock (ra_view m' x) y = v_clock (ra_view m x) y" for x y
    by (simp add: m'_def ra_store_def Let_def)
  have old: "pos_at x c i m' = pos_at x c i m" "ra_value c i m' = ra_value c i m"
    "ra_msgs m' c ! i = ra_msgs m c ! i" if "i < ?k" for i x
    using that by (simp_all add: pos_at_def ra_value_def msgs nth_append)
  have new: "pos_at x c ?k m' = v_clock ?v x" "ra_value c ?k m' = word_of_nat (v_clock ?v t)"
    "v_seen (m_view (ra_msgs m' c ! ?k)) = (v_seen ?v)(c := ?k)" for x
    by (simp_all add: pos_at_def ra_value_def msgs nth_append)
  show pub: "pub_pos t c m' = v_clock ?v t" by (simp add: pub_pos_def msgs)
  show "pub_pos u d m' = pub_pos u d m" by (simp add: pub_pos_def msgs)
  show "ra_cells m' = ra_cells m" "ra_race m' = ra_race m" by (simp_all add: m'_def ra_store_def Let_def)
  have le: "pos_at t c i m \<le> v_clock ?v t" if "i < ?k" for i
    using D(5) [of i "v_seen ?v c"] D(6,9) that pub_pos_at [OF ch(1)] by (simp add: less_Suc_eq_le [symmetric])
  have "v_clock ?v u \<le> v_clock (ra_view m u) u" using known_le_pub [OF ch(2)] E(9) by simp
  show "channel_inv t c u d m'"
    unfolding channel_inv_def pub clk
  proof (intro conjI allI impI)
    fix i assume "i < length (ra_msgs m' c)"
    then consider "i < ?k" | "i = ?k" by (auto simp: msgs less_Suc_eq)
    then show "ra_value c i m' = word_of_nat (pos_at t c i m')" "v_seen (m_view (ra_msgs m' c ! i)) c \<le> i"
      "v_seen (m_view (ra_msgs m' c ! i)) d < length (ra_msgs m' d)" "pos_at u c i m' \<le> v_clock (ra_view m u) u"
      using D E(7) ne(2) \<open>v_clock ?v u \<le> v_clock (ra_view m u) u\<close> by (cases; simp add: old new msgs(2))+
  next
    fix i j assume "i \<le> j" "j < length (ra_msgs m' c)"
    then consider "j < ?k" | "j = ?k" "i < ?k" | "i = ?k" "j = ?k" by (auto simp: msgs less_Suc_eq le_less)
    then show "pos_at t c i m' \<le> pos_at t c j m'" using D(5) le \<open>i \<le> j\<close> by cases (simp_all add: old new)
  qed (use D(7,8) in \<open>simp_all add: view msgs old\<close>)
  show "channel_inv u d t c m'"
    using E D(6) ne unfolding channel_inv_def by (simp add: view msgs(2) pos_at_def ra_value_def pub_pos_def)
      (simp add: msgs(1) less_SucI)
qed

text \<open>An access to the buffer only advances the clock of its thread.\<close>

definition ticked :: "thread \<Rightarrow> 'a ra_mem \<Rightarrow> 'a ra_mem \<Rightarrow> bool" where
  "ticked t m m' \<longleftrightarrow> ra_msgs m' = ra_msgs m \<and> ra_view m' = (ra_view m)(t := tick t (ra_view m t))"

lemma ticked_na_write: "ticked t m (na_write t a x m)"
  by (simp add: ticked_def na_write_def Let_def)

lemma ticked_na_read: "na_read t a m = (x, m') \<Longrightarrow> ticked t m m'"
  by (auto simp: ticked_def na_read_def Let_def)

lemma ticked_channel:
  assumes "ticked t m m'" and "t \<noteq> u" and "channel_inv t c u d m" "channel_inv u d t c m"
  shows "channel_inv t c u d m'" and "channel_inv u d t c m'"
  using channel_invD [OF assms(3)] channel_invD [OF assms(4)] assms(1,2) unfolding channel_inv_def ticked_def
  by (simp_all add: tick_def pos_at_def ra_value_def pub_pos_def le_SucI)

section \<open>The invariant of the ring\<close>

text \<open>
  \<open>items\<close> is everything the producer has ever written. The cells hold the last \<open>cap\<close> of them; the
  stamps say which item a cell holds and which item of it was read.
\<close>

definition cells_ok :: "nat \<Rightarrow> 'a list \<Rightarrow> 'a ra_mem \<Rightarrow> bool" where
  "cells_ok cap items m \<longleftrightarrow>
     (\<forall>i < length items. length items \<le> i + cap \<longrightarrow>
        c_val (ra_cells m (i mod cap)) = Some (items ! i) \<and> c_wr (ra_cells m (i mod cap)) = Some (Prod, Suc i))
     \<and> (\<forall>a t k. c_wr (ra_cells m a) = Some (t, k) \<longrightarrow> t = Prod \<and> k \<le> length items)
     \<and> (\<forall>a. c_rd (ra_cells m a) Prod = 0)
     \<and> (\<forall>a. c_rd (ra_cells m a) Cons = 0 \<or> (\<exists>j < r_pos m. j mod cap = a \<and> c_rd (ra_cells m a) Cons = Suc j))"

lemma cells_okD:
  assumes "cells_ok cap items m"
  shows "i < length items \<Longrightarrow> length items \<le> i + cap \<Longrightarrow> c_val (ra_cells m (i mod cap)) = Some (items ! i)"
    and "i < length items \<Longrightarrow> length items \<le> i + cap \<Longrightarrow> c_wr (ra_cells m (i mod cap)) = Some (Prod, Suc i)"
    and "c_wr (ra_cells m a) = Some (t, k) \<Longrightarrow> t = Prod \<and> k \<le> length items"
    and "c_rd (ra_cells m a) Prod = 0"
    and "c_rd (ra_cells m a) Cons = 0 \<or> (\<exists>j < r_pos m. j mod cap = a \<and> c_rd (ra_cells m a) Cons = Suc j)"
  using assms unfolding cells_ok_def by blast+

definition ring_inv :: "nat \<Rightarrow> 'a list \<Rightarrow> 'a ra_mem \<Rightarrow> bool" where
  "ring_inv cap items m \<longleftrightarrow>
     0 < cap \<and> \<not> ra_race m \<and> w_pos m = length items \<and> r_pos m \<le> known_w m \<and> w_pos m \<le> known_r m + cap
     \<and> cells_ok cap items m \<and> channel_inv Prod Head Cons Tail m \<and> channel_inv Cons Tail Prod Head m"

lemma ring_invD:
  assumes "ring_inv cap items m"
  shows "0 < cap" "\<not> ra_race m" "w_pos m = length items" "r_pos m \<le> known_w m" "w_pos m \<le> known_r m + cap"
    "cells_ok cap items m" "channel_inv Prod Head Cons Tail m" "channel_inv Cons Tail Prod Head m"
  using assms by (simp_all add: ring_inv_def)

lemma ring_init: "0 < cap \<Longrightarrow> ring_inv cap [] ra_init"
  by (simp add: ring_inv_def ra_init_def bot_view_def cells_ok_def channel_inv_def w_pos_def r_pos_def known_w_def
      known_r_def pos_at_def ra_value_def pub_pos_def)

text \<open>The order of the six positions.\<close>

lemma ring_order:
  assumes "ring_inv cap items m"
  shows "known_r m \<le> pub_pos Cons Tail m" and "pub_pos Cons Tail m \<le> r_pos m"
    and "known_w m \<le> pub_pos Prod Head m" and "pub_pos Prod Head m \<le> w_pos m"
  using known_le_pub [OF ring_invD(7) [OF assms]] known_le_pub [OF ring_invD(8) [OF assms]]
    channel_invD(9) [OF ring_invD(7) [OF assms]] channel_invD(9) [OF ring_invD(8) [OF assms]]
  by (simp_all add: known_r_def known_w_def w_pos_def r_pos_def)

text \<open>The positions, for stating what an access changes.\<close>

definition same_positions :: "'a ra_mem \<Rightarrow> 'a ra_mem \<Rightarrow> bool" where
  "same_positions m m' \<longleftrightarrow> pub_pos Prod Head m' = pub_pos Prod Head m \<and> pub_pos Cons Tail m' = pub_pos Cons Tail m
     \<and> known_w m' = known_w m \<and> known_r m' = known_r m"

lemma ring_write:
  fixes x :: 'a and m :: "'a ra_mem"
  assumes inv: "ring_inv cap items m" and room: "length items < known_r m + cap"
  defines "m' \<equiv> na_write Prod (length items mod cap) x m"
  shows "ring_inv cap (items @ [x]) m'" and "same_positions m m'" and "w_pos m' = Suc (w_pos m)" and "r_pos m' = r_pos m"
proof -
  note I = ring_invD [OF inv] and ord = ring_order [OF inv]
  let ?n = "length items" and ?c = "ra_cells m (length items mod cap)" and ?v = "ra_view m Prod"
  have tk: "ticked Prod m m'" unfolding m'_def by (rule ticked_na_write)
  then have pos: "w_pos m' = Suc (w_pos m)" "r_pos m' = r_pos m" "known_w m' = known_w m" "known_r m' = known_r m"
    by (simp_all add: ticked_def tick_def w_pos_def r_pos_def known_w_def known_r_def)
  then show "w_pos m' = Suc (w_pos m)" "r_pos m' = r_pos m" by simp_all
  show "same_positions m m'" using tk pos by (simp add: same_positions_def ticked_def pub_pos_def)
  have cells: "ra_cells m' = (ra_cells m)(?n mod cap := ?c\<lparr>c_val := Some x, c_wr := Some (Prod, Suc ?n)\<rparr>)"
    using I(3) by (simp add: m'_def na_write_def Let_def w_pos_def)
  have "knows_write ?v ?c"
    using I(3) cells_okD(3) [OF I(6)] by (fastforce simp: knows_write_def w_pos_def split: option.split)
  moreover have "knows_reads ?v ?c"
  proof -
    have "c_rd ?c Cons = 0 \<or> (\<exists>j < r_pos m. j mod cap = ?n mod cap \<and> c_rd ?c Cons = Suc j)" "c_rd ?c Prod = 0"
      using cells_okD(4,5) [OF I(6)] by simp_all
    moreover have "Suc j \<le> known_r m" if "j < r_pos m" "j mod cap = ?n mod cap" for j
    proof (rule ccontr)
      assume "\<not> Suc j \<le> known_r m"
      then have "j < ?n" "?n < j + cap" using that(1) room I(3,4) ord by simp_all
      then show False using mod_window_neq [of j ?n cap] that(2) by simp
    qed
    ultimately show ?thesis by (auto simp: knows_reads_def known_r_def)
  qed
  ultimately have race: "\<not> ra_race m'" using I(2) by (simp add: m'_def na_write_def Let_def)
  have "i mod cap \<noteq> ?n mod cap" if "i < ?n" "Suc ?n \<le> i + cap" for i
    using that by (intro mod_window_neq) auto
  then have "cells_ok cap (items @ [x]) m'"
    using I(6) unfolding cells_ok_def by (auto simp: cells pos nth_append less_Suc_eq le_SucI)
  moreover have "channel_inv Prod Head Cons Tail m'" "channel_inv Cons Tail Prod Head m'"
    using ticked_channel [OF tk _ I(7,8)] by simp_all
  ultimately show "ring_inv cap (items @ [x]) m'"
    using I room race by (simp add: ring_inv_def pos)
qed

lemma ring_read:
  assumes inv: "ring_inv cap items m" and more: "r_pos m < known_w m" and rd: "na_read Cons (r_pos m mod cap) m = (y, m')"
  shows "y = Some (items ! r_pos m)" and "ring_inv cap items m'" and "same_positions m m'"
    and "r_pos m' = Suc (r_pos m)" and "w_pos m' = w_pos m"
proof -
  note I = ring_invD [OF inv] and ord = ring_order [OF inv]
  let ?r = "r_pos m" and ?c = "ra_cells m (r_pos m mod cap)" and ?v = "ra_view m Cons"
  have tk: "ticked Cons m m'" using rd by (rule ticked_na_read)
  then have pos: "w_pos m' = w_pos m" "r_pos m' = Suc (r_pos m)" "known_w m' = known_w m" "known_r m' = known_r m"
    by (simp_all add: ticked_def tick_def w_pos_def r_pos_def known_w_def known_r_def)
  then show "r_pos m' = Suc (r_pos m)" "w_pos m' = w_pos m" by simp_all
  show "same_positions m m'" using tk pos by (simp add: same_positions_def ticked_def pub_pos_def)
  have r: "?r < length items" "length items \<le> ?r + cap" using more ord I(3,5) by simp_all
  have c: "c_val ?c = Some (items ! ?r)" "c_wr ?c = Some (Prod, Suc ?r)" using cells_okD(1,2) [OF I(6) r] by simp_all
  have y: "y = c_val ?c" "ra_cells m' = (ra_cells m)(?r mod cap := ?c\<lparr>c_rd := (c_rd ?c)(Cons := Suc ?r)\<rparr>)"
    "ra_race m' = (ra_race m \<or> \<not> knows_write ?v ?c)"
    using rd by (auto simp: na_read_def Let_def r_pos_def)
  then show "y = Some (items ! ?r)" using c by simp
  have "knows_write ?v ?c" using c(2) more by (simp add: knows_write_def known_w_def)
  then have race: "\<not> ra_race m'" using I(2) y(3) by simp
  have "cells_ok cap items m'"
    using I(6) unfolding cells_ok_def by (auto simp: y(2) pos intro: less_SucI)
  moreover have "channel_inv Prod Head Cons Tail m'" "channel_inv Cons Tail Prod Head m'"
    using ticked_channel [OF tk _ I(8,7)] by simp_all
  ultimately show "ring_inv cap items m'" using I more race by (simp add: ring_inv_def pos)
qed

text \<open>Loads: a thread reads its own published position, and any recent one of the other thread.\<close>

lemma ring_own_load:
  assumes "ring_inv cap items m"
  shows "ra_readable Prod Head i m \<Longrightarrow> ra_value Head i m = word_of_nat (pub_pos Prod Head m)"
    and "ra_readable Prod Head i m \<Longrightarrow> ra_load Prod Relaxed Head i m = m"
    and "ra_readable Cons Tail i m \<Longrightarrow> ra_value Tail i m = word_of_nat (pub_pos Cons Tail m)"
    and "ra_readable Cons Tail i m \<Longrightarrow> ra_load Cons Relaxed Tail i m = m"
  using own_load ring_invD(7,8) [OF assms] by blast+

lemma cells_ok_cong:
  "ra_cells m' = ra_cells m \<Longrightarrow> r_pos m' = r_pos m \<Longrightarrow> cells_ok cap items m' = cells_ok cap items m"
  by (simp add: cells_ok_def)

lemma ring_load_tail:
  assumes inv: "ring_inv cap items m" and r: "ra_readable Prod Tail i m"
  defines "m' \<equiv> ra_load Prod Acquire Tail i m"
  shows "ring_inv cap items m'" and "ra_value Tail i m = word_of_nat (known_r m')" and "known_r m \<le> known_r m'"
    and "w_pos m' = w_pos m" and "r_pos m' = r_pos m" and "known_w m' = known_w m"
    and "pub_pos Prod Head m' = pub_pos Prod Head m" and "pub_pos Cons Tail m' = pub_pos Cons Tail m"
proof -
  note I = ring_invD [OF inv]
  note A = acquire_load [OF I(8,7) _ _ r, folded m'_def]
  show v: "ra_value Tail i m = word_of_nat (known_r m')" "known_r m \<le> known_r m'" "w_pos m' = w_pos m"
    using A(3-5) by (simp_all add: known_r_def w_pos_def)
  show p: "r_pos m' = r_pos m" "known_w m' = known_w m" by (simp_all add: m'_def r_pos_def known_w_def)
  show "pub_pos Prod Head m' = pub_pos Prod Head m" "pub_pos Cons Tail m' = pub_pos Cons Tail m"
    by (simp_all add: m'_def pub_pos_def)
  have c: "ra_cells m' = ra_cells m" "ra_race m' = ra_race m" by (simp_all add: m'_def)
  show "ring_inv cap items m'"
    using I A(1,2) v(2) c by (simp add: ring_inv_def v(3) p cells_ok_cong [of m' m])
qed

lemma ring_load_head:
  assumes inv: "ring_inv cap items m" and r: "ra_readable Cons Head i m"
  defines "m' \<equiv> ra_load Cons Acquire Head i m"
  shows "ring_inv cap items m'" and "ra_value Head i m = word_of_nat (known_w m')" and "known_w m \<le> known_w m'"
    and "w_pos m' = w_pos m" and "r_pos m' = r_pos m" and "known_r m' = known_r m"
    and "pub_pos Prod Head m' = pub_pos Prod Head m" and "pub_pos Cons Tail m' = pub_pos Cons Tail m"
proof -
  note I = ring_invD [OF inv]
  note A = acquire_load [OF I(7,8) _ _ r, folded m'_def]
  show v: "ra_value Head i m = word_of_nat (known_w m')" "known_w m \<le> known_w m'" "r_pos m' = r_pos m"
    using A(3-5) by (simp_all add: known_w_def r_pos_def)
  show p: "w_pos m' = w_pos m" "known_r m' = known_r m" by (simp_all add: m'_def w_pos_def known_r_def)
  show "pub_pos Prod Head m' = pub_pos Prod Head m" "pub_pos Cons Tail m' = pub_pos Cons Tail m"
    by (simp_all add: m'_def pub_pos_def)
  have c: "ra_cells m' = ra_cells m" "ra_race m' = ra_race m" by (simp_all add: m'_def)
  show "ring_inv cap items m'"
    using I A(1,2) v(2) c by (simp add: ring_inv_def v(3) p cells_ok_cong [of m' m])
qed

text \<open>Stores: the own position becomes the published one.\<close>

lemma ring_publish_head:
  assumes inv: "ring_inv cap items m"
  defines "m' \<equiv> ra_store Prod Release Head (word_of_nat (w_pos m)) m"
  shows "ring_inv cap items m'" and "pub_pos Prod Head m' = w_pos m" and "pub_pos Cons Tail m' = pub_pos Cons Tail m"
    and "w_pos m' = w_pos m" and "r_pos m' = r_pos m" and "known_w m' = known_w m" and "known_r m' = known_r m"
proof -
  note I = ring_invD [OF inv]
  note R = release_store [OF I(7,8), folded w_pos_def, folded m'_def, simplified]
  show "pub_pos Prod Head m' = w_pos m" "pub_pos Cons Tail m' = pub_pos Cons Tail m" by (fact R(3,4))+
  show p: "w_pos m' = w_pos m" "r_pos m' = r_pos m" "known_w m' = known_w m" "known_r m' = known_r m"
    using R(5) by (simp_all add: w_pos_def r_pos_def known_w_def known_r_def)
  show "ring_inv cap items m'" using I R(1,2,6,7) by (simp add: ring_inv_def p cells_ok_cong [of m' m])
qed

lemma ring_publish_tail:
  assumes inv: "ring_inv cap items m"
  defines "m' \<equiv> ra_store Cons Release Tail (word_of_nat (r_pos m)) m"
  shows "ring_inv cap items m'" and "pub_pos Cons Tail m' = r_pos m" and "pub_pos Prod Head m' = pub_pos Prod Head m"
    and "w_pos m' = w_pos m" and "r_pos m' = r_pos m" and "known_w m' = known_w m" and "known_r m' = known_r m"
proof -
  note I = ring_invD [OF inv]
  note R = release_store [OF I(8,7), folded r_pos_def, folded m'_def, simplified]
  show "pub_pos Cons Tail m' = r_pos m" "pub_pos Prod Head m' = pub_pos Prod Head m" by (fact R(3,4))+
  show p: "w_pos m' = w_pos m" "r_pos m' = r_pos m" "known_w m' = known_w m" "known_r m' = known_r m"
    using R(5) by (simp_all add: w_pos_def r_pos_def known_w_def known_r_def)
  show "ring_inv cap items m'" using I R(1,2,6,7) by (simp add: ring_inv_def p cells_ok_cong [of m' m])
qed

section \<open>Ranges\<close>

text \<open>Copying a run of items to cells that do not wrap around.\<close>

lemma ring_write_range:
  assumes "ring_inv cap items m" and "length items + length xs \<le> known_r m + cap"
    and "length items mod cap + length xs \<le> cap"
  defines "m' \<equiv> na_write_range Prod (length items mod cap) xs m"
  shows "ring_inv cap (items @ xs) m' \<and> same_positions m m' \<and> w_pos m' = w_pos m + length xs \<and> r_pos m' = r_pos m"
  using assms(1-3) unfolding m'_def
proof (induction xs arbitrary: items m)
  case Nil
  then show ?case by (simp add: same_positions_def)
next
  case (Cons x xs)
  let ?m1 = "na_write Prod (length items mod cap) x m"
  have room: "length items < known_r m + cap" using Cons.prems(2) by simp
  note W = ring_write [OF Cons.prems(1) room, of x]
  have k: "known_r ?m1 = known_r m" using W(2) by (simp add: same_positions_def)
  show ?case
  proof (cases xs)
    case Nil
    then show ?thesis using W by simp
  next
    case (Cons y ys)
    then have "length (items @ [x]) mod cap = Suc (length items mod cap)"
      using \<open>length items mod cap + length (x # xs) \<le> cap\<close> by (simp add: mod_Suc)
    with Cons.IH [OF W(1)] Cons.prems(2,3) k W show ?thesis by (simp add: same_positions_def)
  qed
qed

lemma ring_read_range:
  assumes "ring_inv cap items m" and "r_pos m + k \<le> known_w m" and "r_pos m mod cap + k \<le> cap"
    and "na_read_range Cons (r_pos m mod cap) k m = (ys, m')"
  shows "ys = map Some (take k (drop (r_pos m) items)) \<and> ring_inv cap items m' \<and> same_positions m m'
     \<and> r_pos m' = r_pos m + k \<and> w_pos m' = w_pos m"
  using assms
proof (induction k arbitrary: m ys)
  case 0
  then show ?case by (simp add: same_positions_def)
next
  case (Suc k)
  obtain y m1 where y: "na_read Cons (r_pos m mod cap) m = (y, m1)" by fastforce
  have more: "r_pos m < known_w m" using Suc.prems(2) by simp
  note R = ring_read [OF Suc.prems(1) more y]
  have kw: "known_w m1 = known_w m" using R(3) by (simp add: same_positions_def)
  obtain zs where zs: "na_read_range Cons (Suc (r_pos m mod cap)) k m1 = (zs, m')" "ys = y # zs"
    using Suc.prems(4) y by (auto split: prod.splits)
  have len: "r_pos m < length items"
    using more ring_order(3,4) [OF Suc.prems(1)] ring_invD(3) [OF Suc.prems(1)] by simp
  show ?case
  proof (cases k)
    case 0
    with zs R y len show ?thesis by (simp add: take_Suc_conv_app_nth hd_drop_conv_nth take_Suc)
  next
    case (Suc j)
    then have "r_pos m1 mod cap = Suc (r_pos m mod cap)" using Suc.prems(3) R(4) by (simp add: mod_Suc)
    with Suc.IH [OF R(2)] Suc.prems(2,3) kw R zs len show ?thesis
      by (simp add: same_positions_def Cons_nth_drop_Suc [symmetric])
  qed
qed

text \<open>The model tells the orderings apart: with a relaxed load of the head, reading the cell is a race.\<close>

lemma orderings_matter:
  fixes x :: 'a
  defines "m \<equiv> ra_store Prod Release Head 1 (na_write Prod 0 x ra_init)"
  shows "ra_race (snd (na_read Cons 0 (ra_load Cons Relaxed Head 1 m)))"
    and "\<not> ra_race (snd (na_read Cons 0 (ra_load Cons Acquire Head 1 m)))"
    and "fst (na_read Cons 0 (ra_load Cons Acquire Head 1 m)) = Some x"
  by (simp_all add: m_def ra_store_def na_write_def na_read_def ra_load_def ra_init_def bot_view_def join_view_def
      tick_def knows_write_def knows_reads_def Let_def)

end
