(* ===== verification/Spsc_Relaxed.thy ===== *)
theory Spsc_Relaxed
  imports Spsc_Concurrent Ra_Memory
begin

text \<open>
  The queue of \<^verbatim>\<open>src/spsc.rs\<close> under the memory orderings it asks for. The steps are those of
  \<open>Spsc_Concurrent\<close>, but loads may return old values as far as the orderings allow, and a cell may
  only be touched by a thread that knows of the last conflicting access. The orderings are enough:
  there is no data race, and the queue is first-in first-out.
\<close>

section \<open>The step relation\<close>

record 'a rqsys =
  rq_mem :: "'a ra_mem"
  rq_p :: "'a producer"
  rq_c :: "'a consumer"
  rq_sent :: "'a list"
  rq_recv :: "'a option list"

inductive rqstep :: "nat \<Rightarrow> 'a rqsys \<Rightarrow> 'a rqsys \<Rightarrow> bool" for cap where
  rp_load_head: "rq_p s = P_idle \<Longrightarrow> ra_readable Prod Head i (rq_mem s) \<Longrightarrow>
    rqstep cap s (s\<lparr>rq_mem := ra_load Prod Relaxed Head i (rq_mem s), rq_p := P_head x (ra_value Head i (rq_mem s))\<rparr>)"
| rp_load_tail: "rq_p s = P_head x h \<Longrightarrow> ra_readable Prod Tail i (rq_mem s) \<Longrightarrow>
    rqstep cap s (s\<lparr>rq_mem := ra_load Prod Acquire Tail i (rq_mem s), rq_p := P_tail x h (ra_value Tail i (rq_mem s))\<rparr>)"
| rp_full: "rq_p s = P_tail x h t \<Longrightarrow> word_of_nat cap \<le> h - t \<Longrightarrow> rqstep cap s (s\<lparr>rq_p := P_idle\<rparr>)"
| rp_write: "rq_p s = P_tail x h t \<Longrightarrow> \<not> word_of_nat cap \<le> h - t \<Longrightarrow>
    rqstep cap s (s\<lparr>rq_mem := na_write Prod (spsc_slot cap h) x (rq_mem s), rq_p := P_written x h\<rparr>)"
| rp_publish: "rq_p s = P_written x h \<Longrightarrow>
    rqstep cap s (s\<lparr>rq_mem := ra_store Prod Release Head (h + 1) (rq_mem s), rq_p := P_idle,
                    rq_sent := rq_sent s @ [x]\<rparr>)"
| rc_load_tail: "rq_c s = C_idle \<Longrightarrow> ra_readable Cons Tail i (rq_mem s) \<Longrightarrow>
    rqstep cap s (s\<lparr>rq_mem := ra_load Cons Relaxed Tail i (rq_mem s), rq_c := C_tail (ra_value Tail i (rq_mem s))\<rparr>)"
| rc_load_head: "rq_c s = C_tail t \<Longrightarrow> ra_readable Cons Head i (rq_mem s) \<Longrightarrow>
    rqstep cap s (s\<lparr>rq_mem := ra_load Cons Acquire Head i (rq_mem s), rq_c := C_head t (ra_value Head i (rq_mem s))\<rparr>)"
| rc_empty: "rq_c s = C_head t h \<Longrightarrow> t = h \<Longrightarrow> rqstep cap s (s\<lparr>rq_c := C_idle\<rparr>)"
| rc_read: "rq_c s = C_head t h \<Longrightarrow> t \<noteq> h \<Longrightarrow> na_read Cons (spsc_slot cap t) (rq_mem s) = (y, m') \<Longrightarrow>
    rqstep cap s (s\<lparr>rq_mem := m', rq_c := C_read y t\<rparr>)"
| rc_publish: "rq_c s = C_read y t \<Longrightarrow>
    rqstep cap s (s\<lparr>rq_mem := ra_store Cons Release Tail (t + 1) (rq_mem s), rq_c := C_idle,
                    rq_recv := rq_recv s @ [y]\<rparr>)"

definition rqsys_init :: "'a rqsys" where
  "rqsys_init = \<lparr>rq_mem = ra_init, rq_p = P_idle, rq_c = C_idle, rq_sent = [], rq_recv = []\<rparr>"

inductive rqreach :: "nat \<Rightarrow> 'a rqsys \<Rightarrow> bool" for cap where
  rq_start: "rqreach cap rqsys_init"
| rq_step: "rqreach cap s \<Longrightarrow> rqstep cap s t \<Longrightarrow> rqreach cap t"

section \<open>The invariant\<close>

fun in_cell :: "'a producer \<Rightarrow> 'a list" where
  "in_cell (P_written x h) = [x]"
| "in_cell _ = []"

fun taken :: "'a consumer \<Rightarrow> nat" where
  "taken (C_read y t) = 1"
| "taken _ = 0"

fun rp_ok :: "nat \<Rightarrow> nat \<Rightarrow> 'a producer \<Rightarrow> bool" where
  "rp_ok ns k P_idle \<longleftrightarrow> True"
| "rp_ok ns k (P_head x h) \<longleftrightarrow> h = word_of_nat ns"
| "rp_ok ns k (P_tail x h t) \<longleftrightarrow> h = word_of_nat ns \<and> t = word_of_nat k"
| "rp_ok ns k (P_written x h) \<longleftrightarrow> h = word_of_nat ns"

fun rc_ok :: "'a list \<Rightarrow> nat \<Rightarrow> nat \<Rightarrow> 'a consumer \<Rightarrow> bool" where
  "rc_ok sent nr k C_idle \<longleftrightarrow> True"
| "rc_ok sent nr k (C_tail t) \<longleftrightarrow> t = word_of_nat nr"
| "rc_ok sent nr k (C_head t h) \<longleftrightarrow> t = word_of_nat nr \<and> h = word_of_nat k"
| "rc_ok sent nr k (C_read y t) \<longleftrightarrow> t = word_of_nat nr \<and> nr < length sent \<and> y = Some (sent ! nr)"

definition rq_inv :: "nat \<Rightarrow> 'a rqsys \<Rightarrow> bool" where
  "rq_inv cap s \<longleftrightarrow>
     (let m = rq_mem s; ns = length (rq_sent s); nr = length (rq_recv s)
      in ring_inv cap (rq_sent s @ in_cell (rq_p s)) m \<and> pub_pos Prod Head m = ns \<and> pub_pos Cons Tail m = nr
         \<and> r_pos m = nr + taken (rq_c s) \<and> rq_recv s = map Some (take nr (rq_sent s))
         \<and> rp_ok ns (known_r m) (rq_p s) \<and> rc_ok (rq_sent s) nr (known_w m) (rq_c s))"

lemma rq_invD:
  assumes "rq_inv cap s"
  shows "ring_inv cap (rq_sent s @ in_cell (rq_p s)) (rq_mem s)"
    and "pub_pos Prod Head (rq_mem s) = length (rq_sent s)" and "pub_pos Cons Tail (rq_mem s) = length (rq_recv s)"
    and "r_pos (rq_mem s) = length (rq_recv s) + taken (rq_c s)"
    and "rq_recv s = map Some (take (length (rq_recv s)) (rq_sent s))"
    and "rp_ok (length (rq_sent s)) (known_r (rq_mem s)) (rq_p s)"
    and "rc_ok (rq_sent s) (length (rq_recv s)) (known_w (rq_mem s)) (rq_c s)"
  using assms unfolding rq_inv_def Let_def by blast+

lemma rq_inv_init: "0 < cap \<Longrightarrow> rq_inv cap rqsys_init"
  using ring_init [of cap] ring_order [OF ring_init, of cap]
  by (simp add: rq_inv_def rqsys_init_def r_pos_def ra_init_def bot_view_def pub_pos_def)

lemma rq_positions:
  assumes "rq_inv cap s"
  shows "known_r (rq_mem s) \<le> length (rq_recv s)" and "length (rq_recv s) + taken (rq_c s) \<le> known_w (rq_mem s)"
    and "known_w (rq_mem s) \<le> length (rq_sent s)"
    and "length (rq_sent s) + length (in_cell (rq_p s)) \<le> known_r (rq_mem s) + cap"
  using ring_order [OF rq_invD(1) [OF assms]] ring_invD(3-5) [OF rq_invD(1) [OF assms]] rq_invD(2-4) [OF assms]
  by simp_all

lemma rq_inv_write:
  assumes ok: "cap_ok cap" and inv: "rq_inv cap s" and p: "rq_p s = P_tail x h t" and room: "\<not> word_of_nat cap \<le> h - t"
  shows "rq_inv cap (s\<lparr>rq_mem := na_write Prod (spsc_slot cap h) x (rq_mem s), rq_p := P_written x h\<rparr>)"
proof -
  note D = rq_invD [OF inv] and pos = rq_positions [OF inv]
  let ?ns = "length (rq_sent s)"
  have h: "h = word_of_nat ?ns" "t = word_of_nat (known_r (rq_mem s))" using D(6) p by simp_all
  have "unat (h - t) = ?ns - known_r (rq_mem s)"
    using stale_difference [OF ok, of "known_r (rq_mem s)" ?ns] pos p by (simp add: h)
  then have free: "?ns < known_r (rq_mem s) + cap" using room pos by (simp add: word_le_nat_alt cap_ok_unat [OF ok])
  have slot: "spsc_slot cap h = ?ns mod cap" by (simp add: h spsc_slot_nat [OF ok])
  have ring: "ring_inv cap (rq_sent s) (rq_mem s)" using D(1) p by simp
  from ring_write [OF ring free, of x] D show ?thesis
    unfolding slot by (simp add: rq_inv_def Let_def h p same_positions_def)
qed

lemma rq_inv_read:
  assumes ok: "cap_ok cap" and inv: "rq_inv cap s" and c: "rq_c s = C_head t h" and ne: "t \<noteq> h"
    and rd: "na_read Cons (spsc_slot cap t) (rq_mem s) = (y, m')"
  shows "rq_inv cap (s\<lparr>rq_mem := m', rq_c := C_read y t\<rparr>)"
proof -
  note D = rq_invD [OF inv] and pos = rq_positions [OF inv]
  let ?nr = "length (rq_recv s)"
  have t: "t = word_of_nat ?nr" "h = word_of_nat (known_w (rq_mem s))" using D(7) c by simp_all
  have r: "r_pos (rq_mem s) = ?nr" using D(4) c by simp
  have more: "r_pos (rq_mem s) < known_w (rq_mem s)" using ne t pos(2) r c by (auto simp: le_less)
  have "na_read Cons (r_pos (rq_mem s) mod cap) (rq_mem s) = (y, m')" using rd by (simp add: t r spsc_slot_nat [OF ok])
  from ring_read [OF D(1) more this] D(2-6) r more pos(3) t(1) show ?thesis
    by (simp add: rq_inv_def Let_def same_positions_def nth_append)
qed

lemma rq_inv_publish:
  assumes inv: "rq_inv cap s" and p: "rq_p s = P_written x h"
  shows "rq_inv cap (s\<lparr>rq_mem := ra_store Prod Release Head (h + 1) (rq_mem s), rq_p := P_idle, rq_sent := rq_sent s @ [x]\<rparr>)"
proof -
  note D = rq_invD [OF inv] and pos = rq_positions [OF inv]
  have w: "w_pos (rq_mem s) = Suc (length (rq_sent s))" using ring_invD(3) [OF D(1)] p by simp
  have h: "h + 1 = word_of_nat (w_pos (rq_mem s))" using D(6) p by (simp add: w)
  have ring: "ring_inv cap (rq_sent s @ [x]) (rq_mem s)" using D(1) p by simp
  have "rc_ok (rq_sent s @ [x]) (length (rq_recv s)) (known_w (rq_mem s)) (rq_c s)"
    using D(7) by (cases "rq_c s") (auto simp: nth_append)
  moreover have "take (length (rq_recv s)) (rq_sent s @ [x]) = take (length (rq_recv s)) (rq_sent s)"
    using pos by simp
  ultimately show ?thesis
    using ring_publish_head [OF ring] D(3-5) by (simp add: rq_inv_def Let_def h w)
qed

lemma rq_inv_release:
  assumes inv: "rq_inv cap s" and c: "rq_c s = C_read y t"
  shows "rq_inv cap (s\<lparr>rq_mem := ra_store Cons Release Tail (t + 1) (rq_mem s), rq_c := C_idle, rq_recv := rq_recv s @ [y]\<rparr>)"
proof -
  note D = rq_invD [OF inv]
  have r: "r_pos (rq_mem s) = Suc (length (rq_recv s))" using D(4) c by simp
  have t: "t + 1 = word_of_nat (r_pos (rq_mem s))" using D(7) c by (simp add: r)
  have nr: "length (rq_recv s) < length (rq_sent s)" using D(7) c by simp
  have "rq_recv s @ [y] = map Some (take (Suc (length (rq_recv s))) (rq_sent s))"
    using D(5,7) c by (simp add: take_Suc_conv_app_nth)
  with nr show ?thesis
    using ring_publish_tail [OF D(1)] D(2,6) by (simp add: rq_inv_def Let_def t r)
qed

lemma rqstep_inv: "rqstep cap s t \<Longrightarrow> cap_ok cap \<Longrightarrow> rq_inv cap s \<Longrightarrow> rq_inv cap t"
proof (induction rule: rqstep.induct)
  case (rp_load_head s i x)
  note D = rq_invD [OF rp_load_head(4)]
  from ring_own_load(1,2) [OF D(1) rp_load_head(2)] D rp_load_head(1) show ?case
    by (simp add: rq_inv_def Let_def)
next
  case (rp_load_tail s x h i)
  note D = rq_invD [OF rp_load_tail(4)]
  from ring_load_tail [OF D(1) rp_load_tail(2)] D rp_load_tail(1) show ?case
    by (simp add: rq_inv_def Let_def)
next
  case (rc_load_tail s i)
  note D = rq_invD [OF rc_load_tail(4)]
  from ring_own_load(3,4) [OF D(1) rc_load_tail(2)] D rc_load_tail(1) show ?case
    by (simp add: rq_inv_def Let_def)
next
  case (rc_load_head s t i)
  note D = rq_invD [OF rc_load_head(4)]
  from ring_load_head [OF D(1) rc_load_head(2)] D rc_load_head(1) show ?case
    by (simp add: rq_inv_def Let_def)
next
  case (rp_write s x h t)
  then show ?case by (intro rq_inv_write)
next
  case (rc_read s t h y m')
  then show ?case by (intro rq_inv_read)
next
  case (rp_publish s x h)
  then show ?case by (intro rq_inv_publish)
next
  case (rc_publish s y t)
  then show ?case by (intro rq_inv_release)
qed (auto simp: rq_inv_def Let_def)

lemma rqreach_inv: "rqreach cap s \<Longrightarrow> cap_ok cap \<Longrightarrow> rq_inv cap s"
  by (induction rule: rqreach.induct) (auto intro: rq_inv_init rqstep_inv simp: cap_ok_def is_power_of_two_def)

section \<open>Properties\<close>

text \<open>
  C9: the memory orderings of the queue suffice. Whatever old values its loads return within the rules of
  relaxed, acquire and release, no access to a cell races with one of the other thread, the values the
  consumer received are the first values the producer sent, in order, and at most \<open>cap\<close> items are in
  flight.
\<close>

theorem spsc_relaxed_fifo:
  assumes "cap_ok cap" and "rqreach cap s"
  shows "\<not> ra_race (rq_mem s) \<and> rq_recv s = map Some (take (length (rq_recv s)) (rq_sent s))
     \<and> length (rq_recv s) \<le> length (rq_sent s) \<and> length (rq_sent s) \<le> length (rq_recv s) + cap"
proof -
  have inv: "rq_inv cap s" using assms by (intro rqreach_inv)
  from rq_invD(1,5) [OF inv] rq_positions [OF inv] show ?thesis by (auto dest: ring_invD(2))
qed

text \<open>A run in which the producer pushes one item.\<close>

definition sample_rq :: "nat ra_mem \<Rightarrow> nat producer \<Rightarrow> nat list \<Rightarrow> nat rqsys" where
  "sample_rq m p sent = \<lparr>rq_mem = m, rq_p = p, rq_c = C_idle, rq_sent = sent, rq_recv = []\<rparr>"

lemma sample_rq_run:
  "rqreach 2 (sample_rq (ra_store Prod Release Head 1 (na_write Prod (spsc_slot 2 0) 4 ra_init)) P_idle [4])"
proof -
  have "rqreach 2 (sample_rq ra_init P_idle [])" using rqreach.rq_start [of 2] by (simp add: sample_rq_def rqsys_init_def)
  then have "rqreach 2 (sample_rq ra_init (P_head 4 0) [])"
    using rqreach.rq_step [OF _ rqstep.rp_load_head [of "sample_rq ra_init P_idle []" 0 2 4]]
    by (simp add: sample_rq_def)
  then have "rqreach 2 (sample_rq ra_init (P_tail 4 0 0) [])"
    using rqreach.rq_step [OF _ rqstep.rp_load_tail [of "sample_rq ra_init (P_head 4 0) []" 4 0 0 2]]
    by (simp add: sample_rq_def)
  then have "rqreach 2 (sample_rq (na_write Prod (spsc_slot 2 0) 4 ra_init) (P_written 4 0) [])"
    using rqreach.rq_step [OF _ rqstep.rp_write [of "sample_rq ra_init (P_tail 4 0 0) []" 4 0 0 2]]
    by (simp add: sample_rq_def)
  then show ?thesis
    using rqreach.rq_step [OF _ rqstep.rp_publish [of
        "sample_rq (na_write Prod (spsc_slot 2 0) 4 ra_init) (P_written 4 0) []" 4 0 2]]
    by (simp add: sample_rq_def)
qed

theorem spsc_relaxed_fifo_witness:
  "\<exists>s :: nat rqsys. rqreach 2 s \<and> rq_sent s = [4] \<and> \<not> ra_race (rq_mem s)
     \<and> rq_recv s = map Some (take (length (rq_recv s)) (rq_sent s))"
proof -
  have "cap_ok 2" by (simp add: cap_ok_def is_power_of_two_def)
  from spsc_relaxed_fifo [OF this sample_rq_run] sample_rq_run show ?thesis
    by (intro exI conjI) (assumption, simp_all add: sample_rq_def)
qed

end
