(* ===== verification/Aof_Relaxed.thy ===== *)
theory Aof_Relaxed
  imports Aof_Concurrent Ra_Memory
begin

text \<open>
  The log ring of \<^verbatim>\<open>src/aof.rs\<close> under the memory orderings it asks for: \<^verbatim>\<open>ring_write\<close> and
  \<^verbatim>\<open>flush_once\<close> with one step for every load, copy, write and store, on the memory of \<open>Ra_Memory\<close>.
  Loads may return old counters as far as the orderings allow. The event loop is the producer, the
  flush thread the consumer. Writes to the file succeed here; theory \<open>Aof\<close> treats their failures.
\<close>

section \<open>The step relation\<close>

datatype rappender =
    RA_idle
  | RA_spin bytes          \<comment> \<open>in the spin loop\<close>
  | RA_head bytes u64      \<comment> \<open>head loaded in the loop\<close>
  | RA_room bytes          \<comment> \<open>left the loop\<close>
  | RA_copy bytes u64      \<comment> \<open>head loaded again\<close>
  | RA_second bytes u64    \<comment> \<open>first fragment copied\<close>
  | RA_copied bytes u64    \<comment> \<open>entry copied, head not yet published\<close>

record rasys =
  rs_mem :: "u8 ra_mem"
  rs_a :: rappender
  rs_f :: flusher
  rs_log :: bytes
  rs_file :: bytes

text \<open>The buffer is allocated zeroed.\<close>

definition cell_byte :: "u8 option \<Rightarrow> u8" where
  "cell_byte y = (case y of None \<Rightarrow> 0 | Some b \<Rightarrow> b)"

inductive rastep :: "rasys \<Rightarrow> rasys \<Rightarrow> bool" where
  ra_call: "rs_a s = RA_idle \<Longrightarrow> length d \<le> AOF_BUF_SIZE \<Longrightarrow> rastep s (s\<lparr>rs_a := RA_spin d\<rparr>)"
| ra_load_head: "rs_a s = RA_spin d \<Longrightarrow> ra_readable Prod Head i (rs_mem s) \<Longrightarrow>
    rastep s (s\<lparr>rs_mem := ra_load Prod Relaxed Head i (rs_mem s), rs_a := RA_head d (ra_value Head i (rs_mem s))\<rparr>)"
| ra_full: "rs_a s = RA_head d h \<Longrightarrow> ra_readable Prod Tail i (rs_mem s) \<Longrightarrow>
    \<not> h - ra_value Tail i (rs_mem s) + word_of_nat (length d) \<le> word_of_nat AOF_BUF_SIZE \<Longrightarrow>
    rastep s (s\<lparr>rs_mem := ra_load Prod Acquire Tail i (rs_mem s), rs_a := RA_spin d\<rparr>)"
| ra_fits: "rs_a s = RA_head d h \<Longrightarrow> ra_readable Prod Tail i (rs_mem s) \<Longrightarrow>
    h - ra_value Tail i (rs_mem s) + word_of_nat (length d) \<le> word_of_nat AOF_BUF_SIZE \<Longrightarrow>
    rastep s (s\<lparr>rs_mem := ra_load Prod Acquire Tail i (rs_mem s), rs_a := RA_room d\<rparr>)"
| ra_load_again: "rs_a s = RA_room d \<Longrightarrow> ra_readable Prod Head i (rs_mem s) \<Longrightarrow>
    rastep s (s\<lparr>rs_mem := ra_load Prod Relaxed Head i (rs_mem s), rs_a := RA_copy d (ra_value Head i (rs_mem s))\<rparr>)"
| ra_copy: "rs_a s = RA_copy d h \<Longrightarrow> off = unat h mod AOF_BUF_SIZE \<Longrightarrow> off + length d \<le> AOF_BUF_SIZE \<Longrightarrow>
    rastep s (s\<lparr>rs_mem := na_write_range Prod off d (rs_mem s), rs_a := RA_copied d h\<rparr>)"
| ra_first: "rs_a s = RA_copy d h \<Longrightarrow> off = unat h mod AOF_BUF_SIZE \<Longrightarrow> \<not> off + length d \<le> AOF_BUF_SIZE \<Longrightarrow>
    rastep s (s\<lparr>rs_mem := na_write_range Prod off (take (AOF_BUF_SIZE - off) d) (rs_mem s), rs_a := RA_second d h\<rparr>)"
| ra_second: "rs_a s = RA_second d h \<Longrightarrow> off = unat h mod AOF_BUF_SIZE \<Longrightarrow>
    rastep s (s\<lparr>rs_mem := na_write_range Prod 0 (drop (AOF_BUF_SIZE - off) d) (rs_mem s), rs_a := RA_copied d h\<rparr>)"
| ra_publish: "rs_a s = RA_copied d h \<Longrightarrow>
    rastep s (s\<lparr>rs_mem := ra_store Prod Release Head (h + word_of_nat (length d)) (rs_mem s), rs_a := RA_idle,
                rs_log := rs_log s @ d\<rparr>)"
| rf_load_head: "rs_f s = F_idle \<Longrightarrow> ra_readable Cons Head i (rs_mem s) \<Longrightarrow>
    rastep s (s\<lparr>rs_mem := ra_load Cons Acquire Head i (rs_mem s), rs_f := F_head (ra_value Head i (rs_mem s))\<rparr>)"
| rf_load_tail: "rs_f s = F_head h \<Longrightarrow> ra_readable Cons Tail i (rs_mem s) \<Longrightarrow>
    rastep s (s\<lparr>rs_mem := ra_load Cons Relaxed Tail i (rs_mem s), rs_f := F_both h (ra_value Tail i (rs_mem s))\<rparr>)"
| rf_nothing: "rs_f s = F_both h t \<Longrightarrow> unat (h - t) = 0 \<Longrightarrow> rastep s (s\<lparr>rs_f := F_idle\<rparr>)"
| rf_whole: "rs_f s = F_both h t \<Longrightarrow> unat (h - t) \<noteq> 0 \<Longrightarrow> off = unat t mod AOF_BUF_SIZE \<Longrightarrow>
    off + unat (h - t) \<le> AOF_BUF_SIZE \<Longrightarrow> na_read_range Cons off (unat (h - t)) (rs_mem s) = (ys, m') \<Longrightarrow>
    rastep s (s\<lparr>rs_mem := m', rs_file := rs_file s @ map cell_byte ys, rs_f := F_written h\<rparr>)"
| rf_first: "rs_f s = F_both h t \<Longrightarrow> off = unat t mod AOF_BUF_SIZE \<Longrightarrow> \<not> off + unat (h - t) \<le> AOF_BUF_SIZE \<Longrightarrow>
    na_read_range Cons off (AOF_BUF_SIZE - off) (rs_mem s) = (ys, m') \<Longrightarrow>
    rastep s (s\<lparr>rs_mem := m', rs_file := rs_file s @ map cell_byte ys, rs_f := F_second h t\<rparr>)"
| rf_second: "rs_f s = F_second h t \<Longrightarrow> off = unat t mod AOF_BUF_SIZE \<Longrightarrow>
    na_read_range Cons 0 (unat (h - t) - (AOF_BUF_SIZE - off)) (rs_mem s) = (ys, m') \<Longrightarrow>
    rastep s (s\<lparr>rs_mem := m', rs_file := rs_file s @ map cell_byte ys, rs_f := F_written h\<rparr>)"
| rf_publish: "rs_f s = F_written h \<Longrightarrow>
    rastep s (s\<lparr>rs_mem := ra_store Cons Release Tail h (rs_mem s), rs_f := F_idle\<rparr>)"

definition rasys_init :: rasys where
  "rasys_init = \<lparr>rs_mem = ra_init, rs_a = RA_idle, rs_f = F_idle, rs_log = [], rs_file = []\<rparr>"

inductive rareach :: "rasys \<Rightarrow> bool" where
  ra_start: "rareach rasys_init"
| ra_step: "rareach s \<Longrightarrow> rastep s t \<Longrightarrow> rareach t"

section \<open>The invariant\<close>

text \<open>The bytes of the entry that is being copied which are already in the ring.\<close>

fun copied :: "nat \<Rightarrow> rappender \<Rightarrow> bytes" where
  "copied nl (RA_second d h) = take (AOF_BUF_SIZE - nl mod AOF_BUF_SIZE) d"
| "copied nl (RA_copied d h) = d"
| "copied nl _ = []"

fun ra_ok :: "nat \<Rightarrow> nat \<Rightarrow> rappender \<Rightarrow> bool" where
  "ra_ok nl k RA_idle \<longleftrightarrow> True"
| "ra_ok nl k (RA_spin d) \<longleftrightarrow> length d \<le> AOF_BUF_SIZE"
| "ra_ok nl k (RA_head d h) \<longleftrightarrow> length d \<le> AOF_BUF_SIZE \<and> h = word_of_nat nl"
| "ra_ok nl k (RA_room d) \<longleftrightarrow> length d \<le> AOF_BUF_SIZE \<and> nl + length d \<le> k + AOF_BUF_SIZE"
| "ra_ok nl k (RA_copy d h) \<longleftrightarrow> length d \<le> AOF_BUF_SIZE \<and> nl + length d \<le> k + AOF_BUF_SIZE \<and> h = word_of_nat nl"
| "ra_ok nl k (RA_second d h) \<longleftrightarrow> length d \<le> AOF_BUF_SIZE \<and> nl + length d \<le> k + AOF_BUF_SIZE \<and> h = word_of_nat nl
     \<and> \<not> nl mod AOF_BUF_SIZE + length d \<le> AOF_BUF_SIZE"
| "ra_ok nl k (RA_copied d h) \<longleftrightarrow> h = word_of_nat nl"

text \<open>\<open>nt\<close>: the published tail. \<open>nf\<close>: the bytes on the file. \<open>k\<close>: the head the flush thread knows.\<close>

fun rf_ok :: "nat \<Rightarrow> nat \<Rightarrow> nat \<Rightarrow> flusher \<Rightarrow> bool" where
  "rf_ok nt nf k F_idle \<longleftrightarrow> nf = nt"
| "rf_ok nt nf k (F_head h) \<longleftrightarrow> nf = nt \<and> h = word_of_nat k"
| "rf_ok nt nf k (F_both h t) \<longleftrightarrow> nf = nt \<and> h = word_of_nat k \<and> t = word_of_nat nt"
| "rf_ok nt nf k (F_second h t) \<longleftrightarrow> nf = nt + (AOF_BUF_SIZE - nt mod AOF_BUF_SIZE) \<and> h = word_of_nat k
     \<and> t = word_of_nat nt \<and> \<not> nt mod AOF_BUF_SIZE + (k - nt) \<le> AOF_BUF_SIZE"
| "rf_ok nt nf k (F_written h) \<longleftrightarrow> h = word_of_nat nf"

definition rs_inv :: "rasys \<Rightarrow> bool" where
  "rs_inv s \<longleftrightarrow>
     (let m = rs_mem s; nl = length (rs_log s); nf = length (rs_file s)
      in ring_inv AOF_BUF_SIZE (rs_log s @ copied nl (rs_a s)) m \<and> pub_pos Prod Head m = nl \<and> r_pos m = nf
         \<and> rs_file s = take nf (rs_log s) \<and> ra_ok nl (known_r m) (rs_a s)
         \<and> rf_ok (pub_pos Cons Tail m) nf (known_w m) (rs_f s))"

lemma rs_invD:
  assumes "rs_inv s"
  shows "ring_inv AOF_BUF_SIZE (rs_log s @ copied (length (rs_log s)) (rs_a s)) (rs_mem s)"
    and "pub_pos Prod Head (rs_mem s) = length (rs_log s)" and "r_pos (rs_mem s) = length (rs_file s)"
    and "rs_file s = take (length (rs_file s)) (rs_log s)"
    and "ra_ok (length (rs_log s)) (known_r (rs_mem s)) (rs_a s)"
    and "rf_ok (pub_pos Cons Tail (rs_mem s)) (length (rs_file s)) (known_w (rs_mem s)) (rs_f s)"
  using assms unfolding rs_inv_def Let_def by blast+

lemma rs_inv_init: "rs_inv rasys_init"
  using ring_init [OF AOF_BUF_SIZE_pos]
  by (simp add: rs_inv_def rasys_init_def r_pos_def ra_init_def bot_view_def pub_pos_def)

lemma rs_positions:
  assumes "rs_inv s"
  shows "known_r (rs_mem s) \<le> pub_pos Cons Tail (rs_mem s)" and "pub_pos Cons Tail (rs_mem s) \<le> length (rs_file s)"
    and "length (rs_file s) \<le> known_w (rs_mem s)" and "known_w (rs_mem s) \<le> length (rs_log s)"
    and "length (rs_log s) + length (copied (length (rs_log s)) (rs_a s)) \<le> known_r (rs_mem s) + AOF_BUF_SIZE"
  using ring_order [OF rs_invD(1) [OF assms]] ring_invD(3-5) [OF rs_invD(1) [OF assms]] rs_invD(2,3) [OF assms]
  by simp_all

subsection \<open>The event loop\<close>

lemma ring_boundary: "0 < c \<Longrightarrow> (n + (c - n mod c)) mod c = (0 :: nat)"
proof -
  assume "0 < c"
  then have "n + (c - n mod c) = c + c * (n div c)"
    using mult_div_mod_eq [of c n] mod_less_divisor [of c n] by linarith
  then show ?thesis by simp
qed

lemma rs_inv_copy:
  assumes inv: "rs_inv s" and a: "rs_a s = RA_copy d h" and off: "off = unat h mod AOF_BUF_SIZE"
    and bs: "bs = (if off + length d \<le> AOF_BUF_SIZE then d else take (AOF_BUF_SIZE - off) d)"
  shows "rs_inv (s\<lparr>rs_mem := na_write_range Prod off bs (rs_mem s),
     rs_a := (if off + length d \<le> AOF_BUF_SIZE then RA_copied d h else RA_second d h)\<rparr>)"
proof -
  note D = rs_invD [OF inv]
  have h: "h = word_of_nat (length (rs_log s))" "length (rs_log s) + length d \<le> known_r (rs_mem s) + AOF_BUF_SIZE"
    "length d \<le> AOF_BUF_SIZE" using D(5) a by simp_all
  have o: "off = length (rs_log s) mod AOF_BUF_SIZE" by (simp add: off h ring_pos)
  have ring: "ring_inv AOF_BUF_SIZE (rs_log s) (rs_mem s)" using D(1) a by simp
  have "length bs \<le> length d" "off + length bs \<le> AOF_BUF_SIZE"
    using AOF_BUF_SIZE_pos o by (auto simp: bs less_imp_le)
  then have W: "ring_inv AOF_BUF_SIZE (rs_log s @ bs) (na_write_range Prod off bs (rs_mem s))
      \<and> same_positions (rs_mem s) (na_write_range Prod off bs (rs_mem s))
      \<and> r_pos (na_write_range Prod off bs (rs_mem s)) = r_pos (rs_mem s)"
    using ring_write_range [OF ring, of bs] h(2) o by simp
  have "copied (length (rs_log s)) (if off + length d \<le> AOF_BUF_SIZE then RA_copied d h else RA_second d h) = bs"
    by (simp add: bs o)
  moreover have "ra_ok (length (rs_log s)) (known_r (rs_mem s))
      (if off + length d \<le> AOF_BUF_SIZE then RA_copied d h else RA_second d h)" using h by (simp add: o)
  ultimately show ?thesis using W D(2-4,6) by (simp add: rs_inv_def Let_def same_positions_def)
qed

lemma rs_inv_second:
  assumes inv: "rs_inv s" and a: "rs_a s = RA_second d h" and off: "off = unat h mod AOF_BUF_SIZE"
  shows "rs_inv (s\<lparr>rs_mem := na_write_range Prod 0 (drop (AOF_BUF_SIZE - off) d) (rs_mem s), rs_a := RA_copied d h\<rparr>)"
proof -
  note D = rs_invD [OF inv]
  let ?nl = "length (rs_log s)" and ?d1 = "take (AOF_BUF_SIZE - off) d" and ?d2 = "drop (AOF_BUF_SIZE - off) d"
  have h: "h = word_of_nat ?nl" "?nl + length d \<le> known_r (rs_mem s) + AOF_BUF_SIZE" "length d \<le> AOF_BUF_SIZE"
    "\<not> ?nl mod AOF_BUF_SIZE + length d \<le> AOF_BUF_SIZE" using D(5) a by simp_all
  have o: "off = ?nl mod AOF_BUF_SIZE" by (simp add: off h ring_pos)
  have ring: "ring_inv AOF_BUF_SIZE (rs_log s @ ?d1) (rs_mem s)" using D(1) a by (simp add: o)
  have l1: "length ?d1 = AOF_BUF_SIZE - off" using h(4) o by simp
  have z: "length (rs_log s @ ?d1) mod AOF_BUF_SIZE = 0"
    unfolding length_append l1 unfolding o by (rule ring_boundary [OF AOF_BUF_SIZE_pos])
  have "ring_inv AOF_BUF_SIZE ((rs_log s @ ?d1) @ ?d2) (na_write_range Prod 0 ?d2 (rs_mem s))
      \<and> same_positions (rs_mem s) (na_write_range Prod 0 ?d2 (rs_mem s))
      \<and> r_pos (na_write_range Prod 0 ?d2 (rs_mem s)) = r_pos (rs_mem s)"
    using ring_write_range [OF ring, of ?d2] h(2,3) l1 unfolding z by simp
  then show ?thesis using D(2-4,6) h(1) by (simp add: rs_inv_def Let_def same_positions_def)
qed

lemma rs_inv_publish:
  assumes inv: "rs_inv s" and a: "rs_a s = RA_copied d h"
  shows "rs_inv (s\<lparr>rs_mem := ra_store Prod Release Head (h + word_of_nat (length d)) (rs_mem s), rs_a := RA_idle,
                   rs_log := rs_log s @ d\<rparr>)"
proof -
  note D = rs_invD [OF inv] and pos = rs_positions [OF inv]
  have w: "w_pos (rs_mem s) = length (rs_log s) + length d" using ring_invD(3) [OF D(1)] a by simp
  have h: "h + word_of_nat (length d) = word_of_nat (w_pos (rs_mem s))" using D(5) a by (simp add: w)
  have ring: "ring_inv AOF_BUF_SIZE (rs_log s @ d) (rs_mem s)" using D(1) a by simp
  have "rs_file s = take (length (rs_file s)) (rs_log s @ d)" using D(4) pos by simp
  with ring_publish_head [OF ring] D(3,6) show ?thesis by (simp add: rs_inv_def Let_def h w)
qed

subsection \<open>The flush thread\<close>

text \<open>Reading \<open>k\<close> bytes from the cell of the next byte of the file.\<close>

lemma rs_inv_read:
  assumes inv: "rs_inv s" and k: "length (rs_file s) + k \<le> known_w (rs_mem s)"
    and off: "off = length (rs_file s) mod AOF_BUF_SIZE" "off + k \<le> AOF_BUF_SIZE"
    and rd: "na_read_range Cons off k (rs_mem s) = (ys, m')"
    and f: "rf_ok (pub_pos Cons Tail (rs_mem s)) (length (rs_file s) + k) (known_w (rs_mem s)) f"
  shows "rs_inv (s\<lparr>rs_mem := m', rs_file := rs_file s @ map cell_byte ys, rs_f := f\<rparr>)"
proof -
  note D = rs_invD [OF inv] and pos = rs_positions [OF inv]
  let ?nf = "length (rs_file s)"
  have R: "ys = map Some (take k (drop ?nf (rs_log s @ copied (length (rs_log s)) (rs_a s))))
      \<and> ring_inv AOF_BUF_SIZE (rs_log s @ copied (length (rs_log s)) (rs_a s)) m' \<and> same_positions (rs_mem s) m'
      \<and> r_pos m' = ?nf + k"
    using ring_read_range [OF D(1), of k ys m'] k off rd by (simp add: D(3))
  have "map cell_byte ys = take k (drop ?nf (rs_log s))"
    using R k pos(4) by (simp add: comp_def cell_byte_def)
  then have "rs_file s @ map cell_byte ys = take (?nf + k) (rs_log s)"
    using D(4) take_add [of ?nf k "rs_log s"] by simp
  moreover have "length (rs_file s @ map cell_byte ys) = ?nf + k"
    using R k pos(4) by simp
  ultimately show ?thesis using R D(2,5) f by (simp add: rs_inv_def Let_def same_positions_def)
qed

text \<open>The distance of the counters that the flush thread has loaded.\<close>

lemma flush_distance:
  assumes inv: "rs_inv s" and "rs_f s = F_both h t \<or> rs_f s = F_second h t"
  defines "nt \<equiv> pub_pos Cons Tail (rs_mem s)"
  shows "unat (h - t) = known_w (rs_mem s) - nt" and "unat t mod AOF_BUF_SIZE = nt mod AOF_BUF_SIZE"
    and "nt \<le> known_w (rs_mem s)" and "known_w (rs_mem s) \<le> nt + AOF_BUF_SIZE"
proof -
  note pos = rs_positions [OF inv]
  have ht: "h = word_of_nat (known_w (rs_mem s))" "t = word_of_nat nt"
    using rs_invD(6) [OF inv] assms(2) by (auto simp: nt_def)
  show le: "nt \<le> known_w (rs_mem s)" "known_w (rs_mem s) \<le> nt + AOF_BUF_SIZE" using pos by (simp_all add: nt_def)
  show "unat (h - t) = known_w (rs_mem s) - nt" unfolding ht by (rule ring_distance [OF le])
  show "unat t mod AOF_BUF_SIZE = nt mod AOF_BUF_SIZE" by (simp add: ht ring_pos)
qed

lemma rs_inv_whole:
  assumes inv: "rs_inv s" and f: "rs_f s = F_both h t" and off: "off = unat t mod AOF_BUF_SIZE"
    and fits: "off + unat (h - t) \<le> AOF_BUF_SIZE" and rd: "na_read_range Cons off (unat (h - t)) (rs_mem s) = (ys, m')"
  shows "rs_inv (s\<lparr>rs_mem := m', rs_file := rs_file s @ map cell_byte ys, rs_f := F_written h\<rparr>)"
proof (rule rs_inv_read [OF inv _ _ fits rd])
  note F = flush_distance [OF inv disjI1 [OF f]]
  have nf: "length (rs_file s) = pub_pos Cons Tail (rs_mem s)" "h = word_of_nat (known_w (rs_mem s))"
    using rs_invD(6) [OF inv] f by simp_all
  show "length (rs_file s) + unat (h - t) \<le> known_w (rs_mem s)" using F(1,3) nf by simp
  show "off = length (rs_file s) mod AOF_BUF_SIZE" using F(2) nf off by simp
  show "rf_ok (pub_pos Cons Tail (rs_mem s)) (length (rs_file s) + unat (h - t)) (known_w (rs_mem s)) (F_written h)"
    using F(1,3) nf by simp
qed

lemma rs_inv_rf_first:
  assumes inv: "rs_inv s" and f: "rs_f s = F_both h t" and off: "off = unat t mod AOF_BUF_SIZE"
    and wrap: "\<not> off + unat (h - t) \<le> AOF_BUF_SIZE" and rd: "na_read_range Cons off (AOF_BUF_SIZE - off) (rs_mem s) = (ys, m')"
  shows "rs_inv (s\<lparr>rs_mem := m', rs_file := rs_file s @ map cell_byte ys, rs_f := F_second h t\<rparr>)"
proof (rule rs_inv_read [OF inv _ _ _ rd])
  note F = flush_distance [OF inv disjI1 [OF f]]
  have nf: "length (rs_file s) = pub_pos Cons Tail (rs_mem s)" "h = word_of_nat (known_w (rs_mem s))"
    "t = word_of_nat (pub_pos Cons Tail (rs_mem s))" using rs_invD(6) [OF inv] f by simp_all
  have o: "off = length (rs_file s) mod AOF_BUF_SIZE" using F(2) nf off by simp
  then show "off = length (rs_file s) mod AOF_BUF_SIZE" .
  show "length (rs_file s) + (AOF_BUF_SIZE - off) \<le> known_w (rs_mem s)" using F(1,3) nf(1) wrap by simp
  show "off + (AOF_BUF_SIZE - off) \<le> AOF_BUF_SIZE" using AOF_BUF_SIZE_pos by (simp add: o less_imp_le)
  show "rf_ok (pub_pos Cons Tail (rs_mem s)) (length (rs_file s) + (AOF_BUF_SIZE - off)) (known_w (rs_mem s)) (F_second h t)"
    using F(1) nf wrap o by simp
qed

lemma rs_inv_rf_second:
  assumes inv: "rs_inv s" and f: "rs_f s = F_second h t" and off: "off = unat t mod AOF_BUF_SIZE"
    and rd: "na_read_range Cons 0 (unat (h - t) - (AOF_BUF_SIZE - off)) (rs_mem s) = (ys, m')"
  shows "rs_inv (s\<lparr>rs_mem := m', rs_file := rs_file s @ map cell_byte ys, rs_f := F_written h\<rparr>)"
proof (rule rs_inv_read [OF inv _ _ _ rd])
  note F = flush_distance [OF inv disjI2 [OF f]]
  let ?nt = "pub_pos Cons Tail (rs_mem s)"
  have nf: "length (rs_file s) = ?nt + (AOF_BUF_SIZE - ?nt mod AOF_BUF_SIZE)" "h = word_of_nat (known_w (rs_mem s))"
    "\<not> ?nt mod AOF_BUF_SIZE + (known_w (rs_mem s) - ?nt) \<le> AOF_BUF_SIZE" using rs_invD(6) [OF inv] f by simp_all
  have lt: "off < AOF_BUF_SIZE" using AOF_BUF_SIZE_pos by (simp add: off)
  have o: "off = ?nt mod AOF_BUF_SIZE" using F(2) off by simp
  have sum: "length (rs_file s) + (unat (h - t) - (AOF_BUF_SIZE - off)) = known_w (rs_mem s)"
    using F(1,3) nf(1,3) lt unfolding o by linarith
  show "0 = length (rs_file s) mod AOF_BUF_SIZE"
    unfolding nf(1) by (rule ring_boundary [OF AOF_BUF_SIZE_pos, symmetric])
  show "length (rs_file s) + (unat (h - t) - (AOF_BUF_SIZE - off)) \<le> known_w (rs_mem s)" using sum by simp
  show "0 + (unat (h - t) - (AOF_BUF_SIZE - off)) \<le> AOF_BUF_SIZE" using F(1,4) by simp
  show "rf_ok ?nt (length (rs_file s) + (unat (h - t) - (AOF_BUF_SIZE - off))) (known_w (rs_mem s)) (F_written h)"
    unfolding sum using nf(2) by simp
qed

lemma rs_inv_nothing:
  assumes inv: "rs_inv s" and f: "rs_f s = F_both h t"
  shows "rs_inv (s\<lparr>rs_f := F_idle\<rparr>)"
  using rs_invD [OF inv] f by (simp add: rs_inv_def Let_def)

lemma rs_inv_release:
  assumes inv: "rs_inv s" and f: "rs_f s = F_written h"
  shows "rs_inv (s\<lparr>rs_mem := ra_store Cons Release Tail h (rs_mem s), rs_f := F_idle\<rparr>)"
proof -
  note D = rs_invD [OF inv]
  have h: "h = word_of_nat (r_pos (rs_mem s))" using D(3,6) f by simp
  from ring_publish_tail [OF D(1)] D show ?thesis unfolding h by (simp add: rs_inv_def Let_def)
qed

subsection \<open>Loads\<close>

lemma rs_inv_load_tail:
  assumes inv: "rs_inv s" and a: "rs_a s = RA_head d h" and r: "ra_readable Prod Tail i (rs_mem s)"
  defines "m' \<equiv> ra_load Prod Acquire Tail i (rs_mem s)"
  shows "rs_inv (s\<lparr>rs_mem := m', rs_a := RA_spin d\<rparr>)"
    and "h - ra_value Tail i (rs_mem s) + word_of_nat (length d) \<le> word_of_nat AOF_BUF_SIZE \<Longrightarrow>
      rs_inv (s\<lparr>rs_mem := m', rs_a := RA_room d\<rparr>)"
proof -
  note D = rs_invD [OF inv]
  have ring: "ring_inv AOF_BUF_SIZE (rs_log s) (rs_mem s)" and d: "length d \<le> AOF_BUF_SIZE" and h: "h = word_of_nat (length (rs_log s))"
    using D(1,5) a by simp_all
  note L = ring_load_tail [OF ring r, folded m'_def]
  show "rs_inv (s\<lparr>rs_mem := m', rs_a := RA_spin d\<rparr>)"
    using L D(2-4,6) d by (simp add: rs_inv_def Let_def)
  assume fits: "h - ra_value Tail i (rs_mem s) + word_of_nat (length d) \<le> word_of_nat AOF_BUF_SIZE"
  have "known_r m' \<le> length (rs_log s)" "length (rs_log s) \<le> known_r m' + AOF_BUF_SIZE"
    using ring_order [OF L(1)] ring_invD(3-5) [OF L(1)] by simp_all
  from ring_room [OF this d] fits have "length (rs_log s) + length d \<le> known_r m' + AOF_BUF_SIZE"
    by (simp add: h L(2))
  then show "rs_inv (s\<lparr>rs_mem := m', rs_a := RA_room d\<rparr>)"
    using L D(2-4,6) d by (simp add: rs_inv_def Let_def)
qed

lemma rs_inv_load_head:
  assumes inv: "rs_inv s" and f: "rs_f s = F_idle" and r: "ra_readable Cons Head i (rs_mem s)"
  shows "rs_inv (s\<lparr>rs_mem := ra_load Cons Acquire Head i (rs_mem s), rs_f := F_head (ra_value Head i (rs_mem s))\<rparr>)"
  using ring_load_head [OF rs_invD(1) [OF inv] r] rs_invD(2-6) [OF inv] f by (simp add: rs_inv_def Let_def)

lemma rastep_inv: "rastep s t \<Longrightarrow> rs_inv s \<Longrightarrow> rs_inv t"
proof (induction rule: rastep.induct)
  case (ra_load_head s d i)
  note D = rs_invD [OF ra_load_head(3)]
  from ring_own_load(1,2) [OF D(1) ra_load_head(2)] D ra_load_head(1) show ?case by (simp add: rs_inv_def Let_def)
next
  case (ra_load_again s d i)
  note D = rs_invD [OF ra_load_again(3)]
  from ring_own_load(1,2) [OF D(1) ra_load_again(2)] D ra_load_again(1) show ?case by (simp add: rs_inv_def Let_def)
next
  case (rf_load_tail s h i)
  note D = rs_invD [OF rf_load_tail(3)]
  from ring_own_load(3,4) [OF D(1) rf_load_tail(2)] D rf_load_tail(1) show ?case by (simp add: rs_inv_def Let_def)
next
  case (ra_full s d h i)
  then show ?case by (intro rs_inv_load_tail)
next
  case (ra_fits s d h i)
  then show ?case by (intro rs_inv_load_tail)
next
  case (ra_copy s d h off)
  then show ?case using rs_inv_copy [OF ra_copy(4,1,2) refl] by simp
next
  case (ra_first s d h off)
  then show ?case using rs_inv_copy [OF ra_first(4,1,2) refl] by simp
next
  case (ra_second s d h off)
  then show ?case by (intro rs_inv_second)
next
  case (ra_publish s d h)
  then show ?case by (intro rs_inv_publish)
next
  case (rf_load_head s i)
  then show ?case by (intro rs_inv_load_head)
next
  case (rf_nothing s h t)
  then show ?case by (intro rs_inv_nothing)
next
  case (rf_whole s h t off ys m')
  then show ?case by (intro rs_inv_whole)
next
  case (rf_first s h t off ys m')
  then show ?case by (intro rs_inv_rf_first)
next
  case (rf_second s h t off ys m')
  then show ?case by (intro rs_inv_rf_second)
next
  case (rf_publish s h)
  then show ?case by (intro rs_inv_release)
qed (auto simp: rs_inv_def Let_def)

lemma rareach_inv: "rareach s \<Longrightarrow> rs_inv s"
  by (induction rule: rareach.induct) (auto intro: rs_inv_init rastep_inv)

lemma rareach_prefix:
  assumes "rareach s"
  shows "prefix (rs_file s) (rs_log s)" and "length (rs_log s) \<le> length (rs_file s) + AOF_BUF_SIZE"
    and "\<not> ra_race (rs_mem s)"
proof -
  note inv = rareach_inv [OF assms]
  show "prefix (rs_file s) (rs_log s)" using rs_invD(4) [OF inv] by (metis take_is_prefix)
  show "length (rs_log s) \<le> length (rs_file s) + AOF_BUF_SIZE" using rs_positions [OF inv] by linarith
  show "\<not> ra_race (rs_mem s)" using ring_invD(2) [OF rs_invD(1) [OF inv]] .
qed

section \<open>Properties\<close>

text \<open>
  C8: the memory orderings of the log ring suffice. Whatever old counters the loads of the event loop
  and of the flush thread return within the rules of relaxed, acquire and release, no copy into the
  ring races with a write to the file, and the file is a prefix of the entries logged so far and lacks
  at most the size of the ring.
\<close>

theorem log_relaxed_prefix:
  assumes "rareach s"
  shows "\<not> ra_race (rs_mem s) \<and> prefix (rs_file s) (rs_log s)
     \<and> length (rs_log s) \<le> length (rs_file s) + AOF_BUF_SIZE"
  using rareach_prefix [OF assms] by blast

text \<open>A run in which the event loop logs one entry.\<close>

definition sample_ras :: "u8 ra_mem \<Rightarrow> rappender \<Rightarrow> bytes \<Rightarrow> rasys" where
  "sample_ras m a log = \<lparr>rs_mem = m, rs_a = a, rs_f = F_idle, rs_log = log, rs_file = []\<rparr>"

lemma sample_ras_run:
  assumes d: "length d \<le> AOF_BUF_SIZE"
  shows "rareach (sample_ras (ra_store Prod Release Head (word_of_nat (length d)) (na_write_range Prod 0 d ra_init)) RA_idle d)"
proof -
  have z: "(word_of_nat (length d) :: u64) \<le> word_of_nat AOF_BUF_SIZE"
    using d by (simp add: word_le_nat_alt unat_of_nat AOF_BUF_SIZE_def)
  have "rareach (sample_ras ra_init RA_idle [])" using ra_start by (simp add: sample_ras_def rasys_init_def)
  then have "rareach (sample_ras ra_init (RA_spin d) [])"
    using ra_step [OF _ rastep.ra_call [of "sample_ras ra_init RA_idle []" d]] d by (simp add: sample_ras_def)
  then have "rareach (sample_ras ra_init (RA_head d 0) [])"
    using ra_step [OF _ rastep.ra_load_head [of "sample_ras ra_init (RA_spin d) []" d 0]] by (simp add: sample_ras_def)
  then have "rareach (sample_ras ra_init (RA_room d) [])"
    using ra_step [OF _ rastep.ra_fits [of "sample_ras ra_init (RA_head d 0) []" d 0 0]] z by (simp add: sample_ras_def)
  then have "rareach (sample_ras ra_init (RA_copy d 0) [])"
    using ra_step [OF _ rastep.ra_load_again [of "sample_ras ra_init (RA_room d) []" d 0]] by (simp add: sample_ras_def)
  then have "rareach (sample_ras (na_write_range Prod 0 d ra_init) (RA_copied d 0) [])"
    using ra_step [OF _ rastep.ra_copy [of "sample_ras ra_init (RA_copy d 0) []" d 0 0]] d by (simp add: sample_ras_def)
  then show ?thesis
    using ra_step [OF _ rastep.ra_publish [of "sample_ras (na_write_range Prod 0 d ra_init) (RA_copied d 0) []" d 0]]
    by (simp add: sample_ras_def)
qed

theorem log_relaxed_prefix_witness:
  "\<exists>s. rareach s \<and> rs_log s = [65] \<and> \<not> ra_race (rs_mem s) \<and> prefix (rs_file s) (rs_log s)"
proof -
  have "length [65 :: u8] \<le> AOF_BUF_SIZE" by (simp add: AOF_BUF_SIZE_def)
  from log_relaxed_prefix [OF sample_ras_run [OF this]] sample_ras_run [OF this] show ?thesis
    by (intro exI conjI) (assumption, simp_all add: sample_ras_def)
qed

end
