(* ===== verification/Crash.thy ===== *)
theory Crash
  imports System Aof_Relaxed
begin

text \<open>
  What survives when the process is killed at any moment, without a shutdown: the log file holds what
  was written to it, which in every interleaving is a prefix of the log, and recovery rebuilds the
  snapshot, if there is one, and a prefix of the later operations.
\<close>

section \<open>A kill\<close>

lemma entries_split_length:
  "length (concat (map entry_bytes ops))
     = length (concat (map entry_bytes (take i ops))) + length (concat (map entry_bytes (drop i ops)))"
  by (metis append_take_drop_id concat_append length_append map_append)

text \<open>
  C3: a kill at any moment. The process found a log of complete entries from earlier processes, its event loop has
  logged operations through the ring, and it is killed while it and the flush thread are anywhere in
  their code, on a machine that may delay what they see of each other as far as the memory orderings
  allow. The files are the log, to which every write of the flush thread so far went through in full, and
  a snapshot of any earlier moment, or none: the entries up to its time come first in the log, the later
  ones after them. A new process with a slot for every key of the two files recovers the snapshot
  and a prefix of the later operations. All operations of the earlier processes are in it, and missing are
  at most the operations of the last bytes of the log, as many as the ring holds.
\<close>

theorem kill_recovers_prefix:
  assumes "rareach t" and "rs_log t = concat (map entry_bytes ops)" and "before @ ops = old @ new"
    and "\<forall>x \<in> set old. op_ts x \<le> ts" and "\<forall>x \<in> set new. ts < op_ts x"
    and "snapshot_holds read_file dir ts A" and "histories_ok (unat (st_capacity s)) A"
    and "read_file path = Inr (concat (map entry_bytes before) @ rs_file t)"
    and "store_inv s" and "store_view s = Map.empty" and "store_slots s < 2 ^ 32"
    and "finite (dom A)" and "card (dom A \<union> op_uid ` set (before @ ops)) \<le> store_slots s"
  shows "\<exists>m s'. recover read_file s dir path = Inr (Inr s') \<and> store_inv s'
     \<and> store_view s' = abs_replay (unat (st_capacity s)) A (take m new) \<and> length before \<le> length old + m
     \<and> (\<forall>i \<le> length new. AOF_BUF_SIZE \<le> length (concat (map entry_bytes (drop i new))) \<longrightarrow> i \<le> m)"
proof -
  note reach = rareach_prefix [OF assms(1), unfolded assms(2)]
  let ?b = "concat (map entry_bytes before)" and ?all = "concat (map entry_bytes (old @ new))"
  define k where "k = length ?b + length (rs_file t)"
  have all: "?b @ concat (map entry_bytes ops) = ?all" using arg_cong [OF assms(3), of "\<lambda>xs. concat (map entry_bytes xs)"] by simp
  have "rs_file t = take (length (rs_file t)) (concat (map entry_bytes ops))" using reach(1) by (auto simp: prefix_def)
  then have "?b @ rs_file t = take k ?all" unfolding all [symmetric] k_def by simp
  then have log: "read_file path = Inr (take k ?all)" using assms(8) by simp
  have "dom A \<union> op_uid ` set (old @ new) \<subseteq> dom A \<union> op_uid ` set (before @ ops)" by (simp only: assms(3))
  from recover_holds_cut [where read_file = read_file and path = path, OF assms(9-11,6,7) log assms(4,5) _ this assms(13)] assms(12)
  obtain m s' where r: "recover read_file s dir path = Inr (Inr s')" "store_inv s'"
    "store_view s' = abs_replay (unat (st_capacity s)) A (take m new)"
    "\<forall>i \<le> length new. length (concat (map entry_bytes (old @ take i new))) \<le> k \<longrightarrow> i \<le> m" by auto
  have "i \<le> m" if "i \<le> length new" "AOF_BUF_SIZE \<le> length (concat (map entry_bytes (drop i new)))" for i
  proof -
    have "length ?all \<le> k + AOF_BUF_SIZE" using reach(2) unfolding all [symmetric] k_def by simp
    then show ?thesis using r(4) that entries_split_length [of new i] by simp
  qed
  moreover have "length before \<le> length old + m"
  proof (cases "length before \<le> length old")
    case False
    let ?i = "length before - length old"
    have le: "?i \<le> length new" using arg_cong [OF assms(3), of length] False by simp
    have "take (length before) (before @ ops) = take (length before) (old @ new)" by (simp only: assms(3))
    then have "old @ take ?i new = before" using False by simp
    then have "length (concat (map entry_bytes (old @ take ?i new))) \<le> k" by (simp add: k_def)
    then show ?thesis using r(4) le by auto
  qed simp
  ultimately show ?thesis using r(1-3) by blast
qed

text \<open>
  A process with one entry of an earlier process and a snapshot of that state is killed after it
  logged one operation and before its flush thread has run.
\<close>

theorem kill_recovers_prefix_witness:
  "\<exists>t s' m. rareach t \<and> rs_log t = entry_bytes (LPush 7 default_record 5)
     \<and> recover (\<lambda>p. if p = bin_path ''d'' then Inr (snapshot_bytes 4 [9] [9 \<mapsto> ([default_record], 3)])
          else Inr (entry_bytes (LPush 9 default_record 3) @ rs_file t)) sample_store ''d'' ''log'' = Inr (Inr s')
     \<and> store_inv s' \<and> store_view s' = abs_replay 2 [9 \<mapsto> ([default_record], 3)] (take m [LPush 7 default_record 5])"
proof -
  let ?x = "LPush 7 default_record 5" and ?y = "LPush 9 default_record 3" let ?d = "entry_bytes ?x"
  let ?A = "[9 \<mapsto> ([default_record], 3)] :: event_map"
  let ?t = "sample_ras (ra_store Prod Release Head (word_of_nat (length ?d)) (na_write_range Prod 0 ?d ra_init)) RA_idle ?d"
  let ?rd = "\<lambda>p. if p = bin_path ''d'' then Inr (snapshot_bytes 4 [9] ?A) else Inr (entry_bytes ?y @ rs_file ?t)"
  have "length ?d \<le> AOF_BUF_SIZE" using length_entry_le [of ?x] by (simp add: AOF_BUF_SIZE_def)
  then have r: "rareach ?t" by (rule sample_ras_run)
  have log: "rs_log ?t = concat (map entry_bytes [?x])" by (simp add: sample_ras_def)
  have "?rd (bin_path ''d'') = Inr (snapshot_bytes 4 [9] ?A)" "hash_order ?A [9]" by (simp_all add: hash_order_def)
  then have snap: "snapshot_holds ?rd ''d'' 4 ?A" by (rule snapshot_holds_file [of ?rd])
  have side: "\<forall>x \<in> set [?y]. op_ts x \<le> 4" "\<forall>x \<in> set [?x]. 4 < op_ts x" "?rd ''log'' = Inr (concat (map entry_bytes [?y]) @ rs_file ?t)"
    "histories_ok (unat (st_capacity sample_store)) ?A" "store_slots sample_store < 2 ^ 32" "finite (dom ?A)"
    "card (dom ?A \<union> op_uid ` set ([?y] @ [?x])) \<le> store_slots sample_store" "unat (st_capacity sample_store) = 2"
    by (simp_all add: bin_path_def sample_store_ok histories_ok_def card_insert_if)
  from kill_recovers_prefix [where read_file = ?rd, OF r log refl side(1,2) snap side(4,3) sample_store_ok(1,2) side(5-7)] obtain m s' where
    "recover ?rd sample_store ''d'' ''log'' = Inr (Inr s')" "store_inv s'" "store_view s' = abs_replay 2 ?A (take m [?x])"
    unfolding side(8) by blast
  moreover have "rs_log ?t = ?d" by (simp add: sample_ras_def)
  ultimately show ?thesis using r by blast
qed

end
