(* ===== verification/Life.thy ===== *)
theory Life
  imports Crash
begin

text \<open>
  The server with its files over its whole life: rounds of the event loop that fork snapshot
  children, children that write or fail to write the snapshot while the server runs on, passes of
  the flush thread, batches of the TTL worker and the signal, in any order. The clock does not go
  back. Any system call of a child may fail. A failed write of its buffer is the one failure that goes
  unnoticed and can install a damaged snapshot (\<open>dump_ignores_write_errors\<close>); from every other snapshot and
  wherever the machine stops a new process recovers.
\<close>

section \<open>The step relation\<close>

text \<open>
  The child holds the time of the fork and the copy of the store it was forked with. \<open>lf_snaps\<close> lists
  the snapshots that were installed, the last one first, each with whether all writes of its dump
  succeeded, and \<open>lf_events\<close> the events of the run.
\<close>

record life =
  lf_el :: event_loop
  lf_now :: nat
  lf_child :: "(u64 \<times> store) option"
  lf_fs :: fs
  lf_snaps :: "(bool \<times> bytes) list"
  lf_events :: "store_event list"

text \<open>The readings of the clock in one round, in the order in which they are taken.\<close>

definition tick_readings :: "tick_env \<Rightarrow> u64 list" where
  "tick_readings env =
     te_collect_now env # te_snapshot_now env # map re_now (take MAX_EPOLL_EVENTS (te_events env))"

text \<open>
  The clock does not go back, and it moves between the snapshot check of a round and the requests of the round.
\<close>

definition clock_runs :: "nat \<Rightarrow> tick_env \<Rightarrow> bool" where
  "clock_runs t env \<longleftrightarrow> sorted (t # map unat (tick_readings env))
     \<and> list_all (\<lambda>e. te_snapshot_now env < re_now e) (take MAX_EPOLL_EVENTS (te_events env))"

text \<open>
  \<^verbatim>\<open>waitpid\<close> answers 0 while the child runs. Every operation of the dump may fail.
\<close>

inductive life_step :: "nat \<Rightarrow> string \<Rightarrow> life \<Rightarrow> life \<Rightarrow> bool" for n dir where
  L_clock: "lf_now l \<le> t' \<Longrightarrow> life_step n dir l (l\<lparr>lf_now := t'\<rparr>)"
| L_tick: "\<not> el_shutdown_flag (lf_el l) \<Longrightarrow>
    hash_order (st_map (el_store (drain_expired_keys (lf_el l)))) (te_order env) \<Longrightarrow>
    clock_runs (lf_now l) env \<Longrightarrow> (\<forall>r \<in> set (tick_readings env). unat r \<le> t') \<Longrightarrow>
    (lf_child l \<noteq> None \<longrightarrow> te_wait_ret env = 0) \<Longrightarrow> te_fork_ret env = - 1 \<or> 0 < te_fork_ret env \<Longrightarrow>
    loop_tick n env (lf_el l) = (Done el', child) \<Longrightarrow>
    life_step n dir l (l\<lparr>lf_el := el', lf_now := t', lf_child := (if child = None then lf_child l else child),
                         lf_events := lf_events l @ tick_events n env (lf_el l)\<rparr>)"
| L_flush: "life_step n dir l (l\<lparr>lf_el := (lf_el l)\<lparr>el_aof := flush_once (el_aof (lf_el l))\<rparr>\<rparr>)"
| L_worker: "(\<And>k. unat (now k) \<le> lf_now l) \<Longrightarrow>
    drain_batch now (el_candidates_in (lf_el l)) (el_expired_out (lf_el l)) (el_ttl_ns (lf_el l)) = (cin, out) \<Longrightarrow>
    life_step n dir l (l\<lparr>lf_el := (lf_el l)\<lparr>el_candidates_in := cin, el_expired_out := out\<rparr>\<rparr>)"
| L_signal: "life_step n dir l (l\<lparr>lf_el := (lf_el l)\<lparr>el_shutdown_flag := True\<rparr>\<rparr>)"
| L_dump: "lf_child l = Some (ts, s) \<Longrightarrow> hash_order (st_map s) order \<Longrightarrow>
    dump_to_path env order s dir ts (lf_fs l) = (r, fs') \<Longrightarrow>
    life_step n dir l (l\<lparr>lf_child := None, lf_fs := fs',
      lf_snaps := (case r of Inl e \<Rightarrow> lf_snaps l
         | Inr u \<Rightarrow> (list_all answer_ok (de_writes env), the (fs' (bin_path dir))) # lf_snaps l)\<rparr>)"

inductive life_run :: "nat \<Rightarrow> string \<Rightarrow> life \<Rightarrow> life \<Rightarrow> bool" for n dir l0 where
  life_refl: "life_run n dir l0 l0"
| life_next: "life_run n dir l0 l \<Longrightarrow> life_step n dir l l' \<Longrightarrow> life_run n dir l0 l'"

definition life_start :: "event_loop \<Rightarrow> nat \<Rightarrow> fs \<Rightarrow> life" where
  "life_start el t fs =
     \<lparr>lf_el = el, lf_now = t, lf_child = None, lf_fs = fs, lf_snaps = [], lf_events = []\<rparr>"

section \<open>Rounds\<close>

lemma event_ops_ts: "x \<in> set (event_ops el e) \<Longrightarrow> op_ts x = re_now e"
  by (auto simp: event_ops_def handle_read_ops_def command_ops_def
      split: if_splits option.splits read_result.splits)

lemma dispatch_ops_ts: "x \<in> set (dispatch_ops n el es) \<Longrightarrow> op_ts x \<in> re_now ` set es"
  by (induction n el es rule: dispatch_ops.induct) (auto dest: event_ops_ts sym [of "Done _"] split: outcome.splits)

lemma clock_runs_tick:
  assumes "clock_runs t env"
  shows "t \<le> unat (te_snapshot_now env)"
    and "e \<in> set (take MAX_EPOLL_EVENTS (te_events env)) \<Longrightarrow> unat (te_snapshot_now env) < unat (re_now e)"
  using assms by (auto simp: clock_runs_def tick_readings_def list_all_iff word_less_nat_alt)

text \<open>A fork takes the store after the evictions of the round, and only when no child is left.\<close>

lemma tick_fork:
  assumes "loop_tick n env el = (Done el', child)"
  defines "pid \<equiv> sm_child_pid (el_snapshot el)"
  shows "child = None \<Longrightarrow> sm_child_pid (el_snapshot el') = pid \<or> pid = 0 \<or> te_wait_ret env \<noteq> 0"
    and "child = Some (ts, s) \<Longrightarrow> ts = te_snapshot_now env \<and> s = el_store (drain_expired_keys el)
      \<and> sm_child_pid (el_snapshot el') = te_fork_ret env \<and> te_fork_ret env \<noteq> - 1 \<and> (pid = 0 \<or> te_wait_ret env \<noteq> 0)"
proof -
  let ?el2 = "collect_ttl_candidates (te_collect_now env) (te_order env) (drain_expired_keys el)"
  have keep: "el_snapshot ?el2 = el_snapshot el" "el_store ?el2 = el_store (drain_expired_keys el)"
    by (auto simp: collect_ttl_candidates_def drain_expired_keys_def Let_def split: prod.splits)
  obtain sm where sm: "maybe_fork (te_snapshot_now env) (te_wait_ret env) (te_fork_ret env) (el_snapshot el)
      (ucast (snapshot_interval (el_config ?el2)) * 1000000000) = (sm, map_option fst child)"
    "dispatch_all n (?el2\<lparr>el_snapshot := sm\<rparr>) (take MAX_EPOLL_EVENTS (te_events env)) = Done el'"
    "child = map_option (\<lambda>ts. (ts, el_store (drain_expired_keys el))) (map_option fst child)"
    using assms(1) by (auto simp: loop_tick_def Let_def keep option.map_comp option.map_ident comp_def split: prod.splits)
  have el': "el_snapshot el' = sm" using dispatch_all_frame [OF sm(2)] by (simp add: el_frame_def)
  show "child = None \<Longrightarrow> sm_child_pid (el_snapshot el') = pid \<or> pid = 0 \<or> te_wait_ret env \<noteq> 0"
    using sm(1) by (auto simp: maybe_fork_def Let_def el' pid_def split: if_splits)
  show "child = Some (ts, s) \<Longrightarrow> ts = te_snapshot_now env \<and> s = el_store (drain_expired_keys el)
      \<and> sm_child_pid (el_snapshot el') = te_fork_ret env \<and> te_fork_ret env \<noteq> - 1 \<and> (pid = 0 \<or> te_wait_ret env \<noteq> 0)"
    using sm(1,3) by (auto simp: maybe_fork_def Let_def el' pid_def split: if_splits)
qed

section \<open>The invariant\<close>

text \<open>
  \<open>A\<close> is the store after a first part of the events, and \<open>ts\<close> lies between the times of the operations
  of that part and of the rest.
\<close>

definition snapshot_of :: "nat \<Rightarrow> store_event list \<Rightarrow> nat \<Rightarrow> u64 \<Rightarrow> event_map \<Rightarrow> bool" where
  "snapshot_of n evs now ts A \<longleftrightarrow>
     unat ts \<le> now \<and> (\<exists>p q. evs = p @ q \<and> A = abs_run n Map.empty p
       \<and> (\<forall>x \<in> set (logged p). op_ts x \<le> ts) \<and> (\<forall>x \<in> set (logged q). ts < op_ts x))"

lemma snapshot_of_later:
  assumes "snapshot_of n evs now ts A" and "now \<le> now'" and "\<And>x. x \<in> set (logged evs') \<Longrightarrow> now < unat (op_ts x)"
  shows "snapshot_of n (evs @ evs') now' ts A"
proof -
  from assms(1) obtain p q where pq: "evs = p @ q" "A = abs_run n Map.empty p" "unat ts \<le> now"
    "\<forall>x \<in> set (logged p). op_ts x \<le> ts" "\<forall>x \<in> set (logged q). ts < op_ts x"
    unfolding snapshot_of_def by blast
  have "ts < op_ts x" if "x \<in> set (logged evs')" for x
    using assms(3) [OF that] pq(3) by (simp add: word_less_nat_alt)
  with pq assms(2) show ?thesis
    unfolding snapshot_of_def by (intro conjI exI [of _ p] exI [of _ "q @ evs'"]) auto
qed

definition snap_file_ok :: "nat \<Rightarrow> store_event list \<Rightarrow> nat \<Rightarrow> bytes \<Rightarrow> bool" where
  "snap_file_ok n evs now bs \<longleftrightarrow>
     (\<exists>ts order A. bs = snapshot_bytes ts order A \<and> hash_order A order \<and> snapshot_of n evs now ts A)"

definition life_inv :: "nat \<Rightarrow> string \<Rightarrow> event_loop \<Rightarrow> life \<Rightarrow> bool" where
  "life_inv n dir el0 l \<longleftrightarrow>
     sys_ok n el0 (lf_events l) (lf_el l, lf_now l)
     \<and> (\<forall>x \<in> set (logged (lf_events l)). 0 < op_ts x \<and> unat (op_ts x) \<le> lf_now l)
     \<and> (\<forall>ts s. lf_child l = Some (ts, s) \<longrightarrow> sm_child_pid (el_snapshot (lf_el l)) \<noteq> 0 \<and> store_inv s
          \<and> snapshot_of n (lf_events l) (lf_now l) ts (store_view s))
     \<and> (\<forall>bs. (True, bs) \<in> set (lf_snaps l) \<longrightarrow> snap_file_ok n (lf_events l) (lf_now l) bs)
     \<and> lf_fs l (bin_path dir) = map_option snd (case lf_snaps l of [] \<Rightarrow> None | x # xs \<Rightarrow> Some x)"

lemma life_invD:
  assumes "life_inv n dir el0 l"
  shows "sys_ok n el0 (lf_events l) (lf_el l, lf_now l)"
    and "x \<in> set (logged (lf_events l)) \<Longrightarrow> 0 < op_ts x \<and> unat (op_ts x) \<le> lf_now l"
    and "lf_child l = Some (ts, s) \<Longrightarrow> sm_child_pid (el_snapshot (lf_el l)) \<noteq> 0 \<and> store_inv s
      \<and> snapshot_of n (lf_events l) (lf_now l) ts (store_view s)"
    and "(True, bs) \<in> set (lf_snaps l) \<Longrightarrow> snap_file_ok n (lf_events l) (lf_now l) bs"
    and "lf_fs l (bin_path dir) = map_option snd (case lf_snaps l of [] \<Rightarrow> None | x # xs \<Rightarrow> Some x)"
  using assms unfolding life_inv_def by blast+

text \<open>Steps that only move the event loop and the clock.\<close>

lemma life_inv_quiet:
  assumes inv: "life_inv n dir el0 l" and step: "sys_step n (lf_el l, lf_now l) [] (el', t')"
    and "lf_now l \<le> t'" and "el_snapshot el' = el_snapshot (lf_el l)"
  shows "life_inv n dir el0 (l\<lparr>lf_el := el', lf_now := t'\<rparr>)"
proof -
  have later: "snapshot_of n (lf_events l) t' ts A" if "snapshot_of n (lf_events l) (lf_now l) ts A" for ts A
    using snapshot_of_later [OF that assms(3), of "[]"] by simp
  have "snap_file_ok n (lf_events l) t' bs" if "(True, bs) \<in> set (lf_snaps l)" for bs
    using life_invD(4) [OF inv that] later unfolding snap_file_ok_def by blast
  with life_invD [OF inv] sys_step_ok [OF step life_invD(1) [OF inv]] later assms(3,4) show ?thesis
    unfolding life_inv_def by (auto intro: le_trans)
qed

lemma life_inv_tick:
  assumes inv: "life_inv n dir el0 l" and fresh: "store_view (el_store el0) = Map.empty"
    and run: "\<not> el_shutdown_flag (lf_el l)" "hash_order (st_map (el_store (drain_expired_keys (lf_el l)))) (te_order env)"
    and clock: "clock_runs (lf_now l) env" "\<forall>r \<in> set (tick_readings env). unat r \<le> t'"
    and kids: "lf_child l \<noteq> None \<longrightarrow> te_wait_ret env = 0" "te_fork_ret env = - 1 \<or> 0 < te_fork_ret env"
    and tick: "loop_tick n env (lf_el l) = (Done el', child)"
  shows "life_inv n dir el0 (l\<lparr>lf_el := el', lf_now := t', lf_child := (if child = None then lf_child l else child),
     lf_events := lf_events l @ tick_events n env (lf_el l)\<rparr>)"
proof -
  note D = life_invD [OF inv] and c = clock_runs_tick [OF clock(1)]
  let ?el = "lf_el l" and ?evs = "lf_events l" and ?tev = "tick_events n env (lf_el l)"
  define ev where "ev = evictions (store_view (el_store ?el)) (spsc_list EXPIRED_KEYS_CAP (el_expired_out ?el))"
  obtain ops where ops: "?tev = ev @ map Logged ops" "\<And>x. x \<in> set ops \<Longrightarrow> op_ts x \<in> re_now ` set (take MAX_EPOLL_EVENTS (te_events env))"
    using dispatch_ops_ts unfolding tick_events_def Let_def ev_def by blast
  have lg: "logged ?tev = ops" by (simp add: ops(1) ev_def)
  have snap: "unat (te_snapshot_now env) < unat (op_ts x)" "unat (op_ts x) \<le> t'" if "x \<in> set ops" for x
    using ops(2) [OF that] c(2) clock(2) by (auto simp: tick_readings_def)
  have now: "lf_now l \<le> t'" using c(1) clock(2) by (auto simp: tick_readings_def intro: le_trans)
  have later: "snapshot_of n (?evs @ ?tev) t' ts A" if "snapshot_of n ?evs (lf_now l) ts A" for ts A
    by (rule snapshot_of_later [OF that now]) (use snap c(1) in \<open>fastforce simp: lg\<close>)
  have files: "snap_file_ok n (?evs @ ?tev) t' bs" if "(True, bs) \<in> set (lf_snaps l)" for bs
    using D(4) [OF that] later unfolding snap_file_ok_def by blast
  have "sys_ok n el0 (?evs @ []) (?el, t')" by (rule sys_step_ok [OF sys_step.Clock [OF now] D(1)])
  from sys_step_ok [OF sys_step.Tick [OF run tick] this [simplified]]
  have ok: "sys_ok n el0 (?evs @ ?tev) (el', t')" .
  have times: "0 < op_ts x \<and> unat (op_ts x) \<le> t'" if "x \<in> set (logged (?evs @ ?tev))" for x
    using that D(2) [of x] snap [of x] now by (auto simp: lg word_less_nat_alt)
  have child: "sm_child_pid (el_snapshot el') \<noteq> 0 \<and> store_inv s \<and> snapshot_of n (?evs @ ?tev) t' ts (store_view s)"
    if "(if child = None then lf_child l else child) = Some (ts, s)" for ts s
  proof (cases child)
    case None
    with that have k: "lf_child l = Some (ts, s)" by simp
    with tick_fork(1) [OF tick None] kids(1) D(3) have "sm_child_pid (el_snapshot el') \<noteq> 0" by fastforce
    with D(3) [OF k] later show ?thesis by blast
  next
    case (Some c)
    with that have "child = Some (ts, s)" by simp
    note f = tick_fork(2) [OF tick this]
    have inv_el: "el_inv n ?el" "el_effect n el0 ?evs ?el" using D(1) by (simp_all add: sys_ok_def)
    note d = drain_expired_keys_ok [OF inv_el(1)]
    have "store_view s = abs_run n Map.empty (?evs @ ev)"
      using el_effect_trans [OF inv_el(2) d(2)] f fresh by (simp add: el_effect_def ev_def)
    moreover have "op_ts x \<le> ts" if "x \<in> set (logged (?evs @ ev))" for x
      using that D(2) [of x] c(1) f by (auto simp: ev_def word_le_nat_alt)
    moreover have "ts < op_ts x" if "x \<in> set ops" for x using snap(1) [OF that] f by (simp add: word_less_nat_alt)
    moreover have "unat ts \<le> t'" using clock(2) f by (simp add: tick_readings_def)
    ultimately have "snapshot_of n (?evs @ ?tev) t' ts (store_view s)"
      unfolding snapshot_of_def by (intro conjI exI [of _ "?evs @ ev"] exI [of _ "map Logged ops"]) (simp_all add: ops(1))
    with f d(1) kids(2) show ?thesis by (auto simp: el_inv_def)
  qed
  show ?thesis unfolding life_inv_def using ok times child files D(5) by simp
qed

lemma dump_to_path_installs:
  "dump_to_path env order s path ts fs = (Inr (), fs') \<Longrightarrow> fs' (bin_path path) \<noteq> None"
  by (auto simp: dump_to_path_def Let_def split: option.splits prod.splits)

lemma life_inv_dump:
  assumes inv: "life_inv n dir el0 l" and child: "lf_child l = Some (ts, s)" and order: "hash_order (st_map s) order"
    and dump: "dump_to_path env order s dir ts (lf_fs l) = (r, fs')"
  shows "life_inv n dir el0 (l\<lparr>lf_child := None, lf_fs := fs',
     lf_snaps := (case r of Inl e \<Rightarrow> lf_snaps l
        | Inr u \<Rightarrow> (list_all answer_ok (de_writes env), the (fs' (bin_path dir))) # lf_snaps l)\<rparr>)"
proof (cases r)
  case (Inl e)
  with dump_to_path_atomic(1) [OF dump] inv show ?thesis by (simp add: life_inv_def)
next
  case (Inr u)
  note D = life_invD [OF inv]
  note k = D(3) [OF child]
  have d: "dump_to_path env order s dir ts (lf_fs l) = (Inr (), fs')" using dump Inr by simp
  have "snap_file_ok n (lf_events l) (lf_now l) (the (fs' (bin_path dir)))" if "list_all answer_ok (de_writes env)"
  proof -
    have "fs' (bin_path dir) = Some (snapshot_bytes ts order (store_view s))"
      using dump_to_path_ok [OF _ order dump_to_path_clean [OF d that], of dir ts "lf_fs l"] d k by auto
    moreover have "hash_order (store_view s) order" using order by (simp add: hash_order_def)
    ultimately show ?thesis using k unfolding snap_file_ok_def by auto
  qed
  with D dump_to_path_installs [OF d] Inr show ?thesis unfolding life_inv_def by auto
qed

lemma life_step_inv:
  assumes "life_step n dir l l'" and "life_inv n dir el0 l" and "store_view (el_store el0) = Map.empty"
  shows "life_inv n dir el0 l'"
  using assms
proof (induction rule: life_step.induct)
  case (L_clock l t')
  then show ?case using life_inv_quiet [OF L_clock(2) sys_step.Clock] by simp
next
  case (L_tick l env t' el' child)
  then show ?case by (intro life_inv_tick)
next
  case (L_flush l)
  then show ?case using life_inv_quiet [OF L_flush(1) sys_step.Flush] by simp
next
  case (L_worker now l cin out)
  then show ?case using life_inv_quiet [OF L_worker(3) sys_step.Worker [OF L_worker(1,2)]] by simp
next
  case (L_signal l)
  then show ?case using life_inv_quiet [OF L_signal(1) sys_step.Signal] by simp
next
  case (L_dump l ts s order env r fs')
  then show ?case by (intro life_inv_dump)
qed

lemma life_run_inv:
  assumes "life_run n dir (life_start el0 t0 fs0) l" and "el_inv n el0" and "due_queue t0 el0"
    and "store_view (el_store el0) = Map.empty" and "fs0 (bin_path dir) = None"
  shows "life_inv n dir el0 l"
  using assms
proof (induction rule: life_run.induct)
  case life_refl
  then show ?case using sys_run_ok [OF sys_run.run_refl] by (simp add: life_inv_def life_start_def)
next
  case (life_next l l')
  then show ?case using life_step_inv by blast
qed

section \<open>Recovery\<close>

text \<open>What is synced of the log, seen from the start.\<close>

lemma sys_ok_synced:
  assumes "sys_ok n el0 evs (el, t)" and "el_inv n el0" and "aw_stream (el_aof el0) = []" and "aw_fsync_mode (el_aof el0) \<noteq> No"
  shows "af_durable (aw_file (el_aof el)) = length (af_bytes (aw_file (el_aof el)))"
    and "aw_fsync_mode (el_aof el0) = Always \<Longrightarrow> af_bytes (aw_file (el_aof el)) = aw_stream (el_aof el)"
proof -
  have run: "el_inv n el" "aof_evolves (el_aof el0) (el_aof el)" using assms(1) by (simp_all add: sys_ok_def el_effect_def)
  have "aof_ok (el_aof el0)" using assms(2) by (simp add: el_inv_def)
  then have "aw_synced (el_aof el0)" using assms(3) by (simp add: aof_ok_def aw_inv_def aw_synced_def aw_stream_def)
  with run(2) assms(4) show "af_durable (aw_file (el_aof el)) = length (af_bytes (aw_file (el_aof el)))"
    by (simp add: aof_evolves_def aw_synced_def)
  assume "aw_fsync_mode (el_aof el0) = Always"
  then have "aw_head (el_aof el) = aw_tail (el_aof el)"
    using run by (simp add: el_inv_def aof_ok_def aw_inv_def aof_evolves_def)
  then show "af_bytes (aw_file (el_aof el)) = aw_stream (el_aof el)" by (simp add: aw_stream_def aw_pending_empty)
qed

text \<open>
  Recovery from any snapshot the server has ever written, or none, and any cut of the log.
\<close>

lemma life_recover:
  assumes inv: "life_inv n dir el0 l" "el_inv n el0"
    and fresh: "store_view (el_store el0) = Map.empty" "aw_stream (el_aof el0) = []"
    and files: "files (bin_path dir) = None \<or> (\<exists>bs. files (bin_path dir) = Some bs \<and> (True, bs) \<in> set (lf_snaps l))"
      "files path = Some (take k (aw_stream (el_aof (lf_el l))))"
    and s: "store_inv s" "store_view s = Map.empty" "st_capacity s = word_of_nat n" "store_slots s < 2 ^ 32"
      "card (op_uid ` set (logged (lf_events l))) \<le> store_slots s"
  shows "\<exists>p q m s'. lf_events l = p @ q \<and> recover (fs_read files) s dir path = Inr (Inr s') \<and> store_inv s'
     \<and> store_view s' = abs_replay n (abs_run n Map.empty p) (take m (logged q))
     \<and> (\<forall>i \<le> length (logged q). length (concat (map entry_bytes (logged p @ take i (logged q)))) \<le> k \<longrightarrow> i \<le> m)"
proof -
  note D = life_invD [OF inv(1)]
  let ?evs = "lf_events l" let ?K = "op_uid ` set (logged ?evs)"
  have n: "compiled_n_ok n" using inv(2) by (simp add: el_inv_def)
  have cap: "unat (st_capacity s) = n" using s(3) compiled_n_u16 [OF n] by simp
  have log: "fs_read files path = Inr (take k (concat (map entry_bytes (logged ?evs))))"
    using D(1) files(2) fresh(2) by (simp add: fs_read_def sys_ok_def el_effect_def)
  obtain ts p q where pq: "?evs = p @ q" "snapshot_holds (fs_read files) dir ts (abs_run n Map.empty p)"
    "\<forall>x \<in> set (logged p). op_ts x \<le> ts" "\<forall>x \<in> set (logged q). ts < op_ts x"
  proof (cases "files (bin_path dir)")
    case None
    then have "fs_read files (bin_path dir) = Inl NotFound" by (simp add: fs_read_def)
    from that [of "[]" ?evs 0] snapshot_holds_none [of "fs_read files", OF this] D(2) show ?thesis by simp
  next
    case (Some bs)
    then have "snap_file_ok n ?evs (lf_now l) bs" using files(1) D(4) by auto
    with Some that show ?thesis
      unfolding snap_file_ok_def snapshot_of_def by (fastforce simp: fs_read_def intro: snapshot_holds_file)
  qed
  have ho: "histories_ok (unat (st_capacity s)) (abs_run n Map.empty p)"
    using n by (simp add: cap histories_ok_run compiled_n_ok_def)
  have "dom (abs_run n Map.empty p) \<union> op_uid ` set (logged p @ logged q) \<subseteq> ?K"
    using dom_abs_run [of n Map.empty p] by (auto simp: pq(1))
  from recover_holds_cut [where read_file = "fs_read files" and path = path, OF s(1,2,4) pq(2) ho log [unfolded pq(1) logged_append]
      pq(3,4) _ this s(5)] pq(1) show ?thesis unfolding cap by blast
qed

text \<open>
  C1: a server survives. It starts empty and runs for as long as one likes, with a clock that does not
  go back and moves between the snapshot check of a round and the requests of the round, forking snapshot
  children whose system calls may all fail, while those of the log succeed; then the machine stops. The new process finds the log, cut
  anywhere behind its synced part, and no snapshot, or any snapshot that was ever installed by a dump none
  of whose writes failed. It has a slot for every user in the log, also for the evicted ones. Then it
  recovers: the state after a first part of the events and a prefix of the later operations, with every
  operation whose entry lies within the cut. Unless the mode is \<open>no\<close> that includes all that was
  written to the file; and when nothing is cut off, as in mode \<open>always\<close> or after a shutdown, every user that
  was never evicted has the history and last-write time it had. The snapshot file itself is at all times
  missing or the content of a completed dump.
\<close>

theorem server_recovers:
  assumes "life_run n dir (life_start el0 t0 fs0) l" and "el_inv n el0" and "due_queue t0 el0"
    and "store_view (el_store el0) = Map.empty" and "aw_stream (el_aof el0) = []" and "fs0 (bin_path dir) = None"
    and "files (bin_path dir) = None \<or> (\<exists>bs. files (bin_path dir) = Some bs \<and> (True, bs) \<in> set (lf_snaps l))"
    and "files path = Some (take k (aw_stream (el_aof (lf_el l))))" and "af_durable (aw_file (el_aof (lf_el l))) \<le> k"
    and "store_inv s" and "store_view s = Map.empty" and "st_capacity s = word_of_nat n" and "store_slots s < 2 ^ 32"
    and "card (op_uid ` set (logged (lf_events l))) \<le> store_slots s"
  shows "\<exists>p q m s'. lf_events l = p @ q \<and> recover (fs_read files) s dir path = Inr (Inr s') \<and> store_inv s'
     \<and> store_view s' = abs_replay n (abs_run n Map.empty p) (take m (logged q))
     \<and> (\<forall>i \<le> length (logged q). length (concat (map entry_bytes (logged p @ take i (logged q)))) \<le> k \<longrightarrow> i \<le> m)
     \<and> (aw_fsync_mode (el_aof el0) \<noteq> No \<longrightarrow> length (af_bytes (aw_file (el_aof (lf_el l)))) \<le> k)
     \<and> (aw_fsync_mode (el_aof el0) = Always \<or> length (aw_stream (el_aof (lf_el l))) \<le> k \<longrightarrow>
          (\<forall>uid. Evicted uid \<notin> set (lf_events l) \<longrightarrow> store_view s' uid = store_view (el_store (lf_el l)) uid))
     \<and> lf_fs l (bin_path dir) \<in> insert None (Some ` snd ` set (lf_snaps l))"
proof -
  note inv = life_run_inv [OF assms(1-4,6)]
  note ok = life_invD(1) [OF inv]
  note syn = sys_ok_synced [OF ok assms(2,5)]
  from life_recover [OF inv assms(2,4,5,7,8,10-14)] obtain p q m s' where
    r: "lf_events l = p @ q" "recover (fs_read files) s dir path = Inr (Inr s')" "store_inv s'"
    "store_view s' = abs_replay n (abs_run n Map.empty p) (take m (logged q))"
    "\<forall>i \<le> length (logged q). length (concat (map entry_bytes (logged p @ take i (logged q)))) \<le> k \<longrightarrow> i \<le> m" by blast
  have written: "length (af_bytes (aw_file (el_aof (lf_el l)))) \<le> k" if "aw_fsync_mode (el_aof el0) \<noteq> No"
    using syn(1) [OF that] assms(9) by simp
  have all: "store_view s' uid = store_view (el_store (lf_el l)) uid"
    if "aw_fsync_mode (el_aof el0) = Always \<or> length (aw_stream (el_aof (lf_el l))) \<le> k" "Evicted uid \<notin> set (lf_events l)" for uid
  proof -
    have "length (aw_stream (el_aof (lf_el l))) \<le> k" using that(1) written syn(2) by auto
    then have "length (logged q) \<le> m"
      using r(5) [rule_format, of "length (logged q)"] ok assms(5) r(1) by (simp add: sys_ok_def el_effect_def)
    moreover have "store_view (el_store (lf_el l)) = abs_run n (abs_run n Map.empty p) q"
      using ok assms(4) r(1) by (simp add: sys_ok_def el_effect_def)
    ultimately show ?thesis using abs_run_not_evicted [of uid q "abs_run n Map.empty p" "abs_run n Map.empty p" n] that(2) r(1,4) by simp
  qed
  have "lf_fs l (bin_path dir) \<in> insert None (Some ` snd ` set (lf_snaps l))"
    using life_invD(5) [OF inv] by (auto split: list.splits)
  with r written all show ?thesis by blast
qed

text \<open>
  A round forks a child and serves a PUSH, the child writes its snapshot, and the machine stops before
  the log ring was flushed any further than it happened to be.
\<close>

lemma sample_life:
  obtains el fs1 where "life_run 2 ''d'' (life_start sample_start 0 Map.empty)
      \<lparr>lf_el = el, lf_now = 130000000002, lf_child = None, lf_fs = fs1,
       lf_snaps = [(True, snapshot_bytes 130000000001 [] Map.empty)], lf_events = [Logged (LPush 7 default_record 130000000002)]\<rparr>"
    and "fs1 (bin_path ''d'') = Some (snapshot_bytes 130000000001 [] Map.empty)" and "el_inv 2 el"
    and "store_view (el_store el) = [7 \<mapsto> ([default_record], 130000000002)]"
    and "aw_stream (el_aof el) = entry_bytes (LPush 7 default_record 130000000002)"
proof -
  let ?env = "sample_env 130000000000 77" and ?s = "el_store (drain_expired_keys sample_start)"
  have t: "130000000000 + 1 = (130000000001 :: u64)" "130000000000 + 2 = (130000000002 :: u64)" by simp_all
  have fork: "snd (maybe_fork 130000000001 0 77 (el_snapshot sample_start) 120000000000) = Some 130000000001"
    by (simp add: maybe_fork_def Let_def sample_loop_def event_loop_new_def set_conn_def snapshot_manager_new_def)
  obtain el where el: "loop_tick 2 ?env sample_start = (Done el, Some (130000000001, ?s))"
    "tick_events 2 ?env sample_start = [Logged (LPush 7 default_record 130000000002)]" "el_inv 2 el"
    "store_view (el_store el) = [7 \<mapsto> ([default_record], 130000000002)]"
    "aw_stream (el_aof el) = entry_bytes (LPush 7 default_record 130000000002)"
    using sample_round [of 130000000000 77, unfolded t fork option.map] by blast
  let ?l1 = "(life_start sample_start 0 Map.empty)\<lparr>lf_el := el, lf_now := 130000000002,
      lf_child := Some (130000000001, ?s), lf_events := [Logged (LPush 7 default_record 130000000002)]\<rparr>"
  have "life_step 2 ''d'' (life_start sample_start 0 Map.empty) ?l1"
    using life_step.L_tick [of "life_start sample_start 0 Map.empty" ?env 130000000002 2 el "Some (130000000001, ?s)" "''d''"]
      el(1,2) sample_drained(1,4)
    by (simp add: life_start_def sample_env_def tick_readings_def clock_runs_def MAX_EPOLL_EVENTS_def)
  then have run1: "life_run 2 ''d'' (life_start sample_start 0 Map.empty) ?l1"
    by (rule life_next [OF life_refl])
  have inv: "store_inv ?s" using drain_expired_keys_ok(1) [OF sample_loop_inv(1)] by (simp add: el_inv_def)
  let ?fs1 = "[bin_path ''d'' \<mapsto> snapshot_bytes 130000000001 [] Map.empty](tmp_path ''d'' := None)"
  have "dump_to_path good_env [] ?s ''d'' 130000000001 Map.empty = (Inr (), ?fs1)"
    using dump_to_path_ok [OF inv sample_drained(1) good_env_ok, of "''d''" 130000000001 Map.empty] sample_drained(2) by simp
  moreover have "bin_path ''d'' \<noteq> tmp_path ''d''" by (simp add: bin_path_def tmp_path_def)
  ultimately have "life_step 2 ''d'' ?l1 \<lparr>lf_el = el, lf_now = 130000000002, lf_child = None, lf_fs = ?fs1,
      lf_snaps = [(True, snapshot_bytes 130000000001 [] Map.empty)], lf_events = [Logged (LPush 7 default_record 130000000002)]\<rparr>"
    using life_step.L_dump [of ?l1 130000000001 ?s "[]" good_env "''d''" "Inr ()" ?fs1 2] sample_drained(1)
    by (simp add: life_start_def good_env_def)
  with run1 have "life_run 2 ''d'' (life_start sample_start 0 Map.empty) \<lparr>lf_el = el, lf_now = 130000000002, lf_child = None,
      lf_fs = ?fs1, lf_snaps = [(True, snapshot_bytes 130000000001 [] Map.empty)],
      lf_events = [Logged (LPush 7 default_record 130000000002)]\<rparr>" by (rule life_next)
  then show ?thesis using that el(3-5) by (simp add: bin_path_def tmp_path_def)
qed

theorem server_recovers_witness:
  "\<exists>l files s'. life_run 2 ''d'' (life_start sample_start 0 Map.empty) l
     \<and> files (bin_path ''d'') = lf_fs l (bin_path ''d'') \<and> files ''log'' = Some (aw_stream (el_aof (lf_el l)))
     \<and> recover (fs_read files) sample_store ''d'' ''log'' = Inr (Inr s') \<and> store_inv s'
     \<and> store_view s' 7 = Some ([default_record], 130000000002)"
proof -
  let ?x = "LPush 7 default_record 130000000002"
  obtain el fs1 where r: "life_run 2 ''d'' (life_start sample_start 0 Map.empty)
      \<lparr>lf_el = el, lf_now = 130000000002, lf_child = None, lf_fs = fs1,
       lf_snaps = [(True, snapshot_bytes 130000000001 [] Map.empty)], lf_events = [Logged ?x]\<rparr>"
    "fs1 (bin_path ''d'') = Some (snapshot_bytes 130000000001 [] Map.empty)"
    "el_inv 2 el" "store_view (el_store el) = [7 \<mapsto> ([default_record], 130000000002)]"
    "aw_stream (el_aof el) = entry_bytes ?x" by (rule sample_life)
  define l where "l = \<lparr>lf_el = el, lf_now = 130000000002, lf_child = None, lf_fs = fs1,
       lf_snaps = [(True, snapshot_bytes 130000000001 [] Map.empty)], lf_events = [Logged ?x]\<rparr>"
  have l: "lf_el l = el" "lf_events l = [Logged ?x]" "lf_fs l = fs1"
    "lf_snaps l = [(True, snapshot_bytes 130000000001 [] Map.empty)]" by (simp_all add: l_def)
  let ?files = "fs1(''log'' \<mapsto> take 32 (aw_stream (el_aof el)))"
  have d: "af_durable (aw_file (el_aof (lf_el l))) \<le> 32"
  proof -
    have "length (af_bytes (aw_file (el_aof el))) \<le> length (aw_stream (el_aof el))" by (simp add: aw_stream_def)
    then show ?thesis using r(3,5) by (simp add: l el_inv_def aof_ok_def aw_inv_def)
  qed
  have side: "store_view (el_store sample_start) = Map.empty" "aw_stream (el_aof sample_start) = []"
    "(Map.empty :: fs) (bin_path ''d'') = None"
    "?files (bin_path ''d'') = None \<or> (\<exists>bs. ?files (bin_path ''d'') = Some bs \<and> (True, bs) \<in> set (lf_snaps l))"
    "?files ''log'' = Some (take 32 (aw_stream (el_aof (lf_el l))))"
    "st_capacity sample_store = word_of_nat 2" "store_slots sample_store < 2 ^ 32"
    "card (op_uid ` set (logged (lf_events l))) \<le> store_slots sample_store"
    by (simp_all add: sample_loop_fields sample_store_ok sample_writer_ok bin_path_def l r(2) [unfolded bin_path_def, simplified])
  from server_recovers [OF r(1) [folded l_def] sample_loop_inv(1) sample_due side(1-5) d sample_store_ok(1,2) side(6-8)]
  obtain s' where s': "recover (fs_read ?files) sample_store ''d'' ''log'' = Inr (Inr s')" "store_inv s'"
    "length (aw_stream (el_aof (lf_el l))) \<le> 32 \<longrightarrow> Evicted 7 \<notin> set (lf_events l) \<longrightarrow>
       store_view s' 7 = store_view (el_store (lf_el l)) 7" by blast
  have full: "take 32 (aw_stream (el_aof el)) = aw_stream (el_aof el)" "length (aw_stream (el_aof el)) \<le> 32"
    unfolding r(5) by simp_all
  have "store_view s' 7 = Some ([default_record], 130000000002)" using s'(3) full(2) r(4) by (simp add: l)
  with s' r(1) [folded l_def] full(1) show ?thesis
    by (intro exI [of _ l] exI [of _ ?files] exI [of _ s']) (simp add: l bin_path_def)
qed

end
