(* ===== verification/Flush_Race.thy ===== *)
theory Flush_Race
  imports Recovery
begin

text \<open>
  Two flushers of one ring: \<^verbatim>\<open>AOFWriter::flush_sync\<close> on the caller's thread and \<^verbatim>\<open>flush_once\<close> on the flush
  thread. Each loads the two counters, writes what lies between them and stores the tail; the accesses
  of the two may interleave. \<^verbatim>\<open>shutdown\<close> joins the thread before it calls \<^verbatim>\<open>flush_sync\<close>, so a server never
  runs the two at once; a caller of the public \<^verbatim>\<open>flush_sync\<close> on a running writer does.
\<close>

section \<open>The model\<close>

datatype flush_pc = FIdle | FLoaded u64 u64 | FWritten u64

datatype flush_actor = Caller | FlushThread

record flush_race =
  fr_writer :: aof_writer
  fr_caller :: flush_pc
  fr_thread :: flush_pc

definition fr_pc :: "flush_actor \<Rightarrow> flush_race \<Rightarrow> flush_pc" where
  "fr_pc a f = (case a of Caller \<Rightarrow> fr_caller f | FlushThread \<Rightarrow> fr_thread f)"

definition set_pc :: "flush_actor \<Rightarrow> flush_pc \<Rightarrow> flush_race \<Rightarrow> flush_race" where
  "set_pc a pc f = (case a of Caller \<Rightarrow> f\<lparr>fr_caller := pc\<rparr> | FlushThread \<Rightarrow> f\<lparr>fr_thread := pc\<rparr>)"

text \<open>The caller always syncs the file, the thread in mode \<^verbatim>\<open>everysec\<close> only.\<close>

definition syncs :: "flush_actor \<Rightarrow> aof_writer \<Rightarrow> bool" where
  "syncs a w \<longleftrightarrow> a = Caller \<or> aw_fsync_mode w = Everysec"

definition race_step :: "flush_actor \<Rightarrow> flush_race \<Rightarrow> flush_race" where
  "race_step a f =
     (let w = fr_writer f
      in case fr_pc a f of
           FIdle \<Rightarrow> if unat (aw_head w - aw_tail w) = 0 then f else set_pc a (FLoaded (aw_head w) (aw_tail w)) f
         | FLoaded h t \<Rightarrow>
             let f1 = write_pending (aw_fd w) (aw_buf w) t (unat (h - t)) (aw_file w);
                 f2 = (if syncs a w then fdatasync (aw_fd w) f1 else f1)
             in set_pc a (FWritten h) (f\<lparr>fr_writer := w\<lparr>aw_file := f2\<rparr>\<rparr>)
         | FWritten h \<Rightarrow> set_pc a FIdle (f\<lparr>fr_writer := w\<lparr>aw_tail := h\<rparr>\<rparr>))"

definition race_start :: "aof_writer \<Rightarrow> flush_race" where
  "race_start w = \<lparr>fr_writer = w, fr_caller = FIdle, fr_thread = FIdle\<rparr>"

definition race_run :: "flush_actor list \<Rightarrow> aof_writer \<Rightarrow> flush_race" where
  "race_run as w = foldl (\<lambda>f a. race_step a f) (race_start w) as"

section \<open>One flusher at a time\<close>

lemmas race_defs = race_run_def race_start_def race_step_def fr_pc_def set_pc_def syncs_def Let_def

text \<open>Three uninterrupted steps are the sequential operation.\<close>

lemma caller_alone: "race_run [Caller, Caller, Caller] w = race_start (flush_sync w)"
  by (simp add: race_defs flush_sync_def)

lemma thread_alone: "race_run [FlushThread, FlushThread, FlushThread] w = race_start (flush_once w)"
  by (simp add: race_defs flush_once_def)

lemma race_run_append:
  "race_run as w = race_start w' \<Longrightarrow> race_run (as @ bs) w = race_run bs w'"
  by (simp add: race_run_def)

lemma race_joined:
  "race_run ([FlushThread, FlushThread, FlushThread] @ [Caller, Caller, Caller]) w = race_start (flush_sync (flush_once w))"
  by (simp only: race_run_append [OF thread_alone] caller_alone)

section \<open>Interleaved\<close>

lemma race_twice:
  assumes "aof_ok w" and "aw_head w \<noteq> aw_tail w"
  shows "\<exists>w'. race_run [Caller, FlushThread, Caller, FlushThread, Caller, FlushThread] w = race_start w'
     \<and> aw_pending w' = [] \<and> af_bytes (aw_file w') = aw_stream w @ aw_pending w"
proof -
  let ?n = "unat (aw_head w - aw_tail w)"
  have h: "0 \<le> aw_fd w" "af_writes (aw_file w) = []" "af_syncs (aw_file w) = []" "?n \<le> AOF_BUF_SIZE" "?n \<noteq> 0"
    using assms by (auto simp: aof_ok_def aw_inv_def aw_healthy_def unat_diff_zero)
  have wp: "write_pending (aw_fd w) (aw_buf w) (aw_tail w) ?n f = f\<lparr>af_bytes := af_bytes f @ aw_pending w\<rparr>"
    if "af_writes f = []" for f
    using write_pending_healthy [OF h(1) that h(4)] by (simp add: aw_pending_def ring_bytes_def)
  show ?thesis
    using h by (simp add: race_defs wp fdatasync_def aw_stream_def aw_pending_empty)
qed

section \<open>Properties\<close>

text \<open>
  C36: calling \<^verbatim>\<open>flush_sync\<close> while the flush thread runs can write entries twice, and an event that was
  pushed once is then recovered twice: both flushers load the counters before either stores the tail, both
  write the same entry, and the next process replays both copies.
\<close>

theorem flush_race_duplicates:
  assumes "aof_ok w" and "aw_stream w = []" and "aw_fsync_mode w \<noteq> Always" and "0 < ts"
    and "log_append w (LPush uid r ts) = Some w1"
    and "store_inv s" and "store_view s = Map.empty" and "0 < store_slots s" and "path \<noteq> bin_path dir"
    and "2 \<le> unat (st_capacity s)"
  shows "\<exists>w2 s'. race_run [Caller, FlushThread, Caller, FlushThread, Caller, FlushThread] w1 = race_start w2
     \<and> recover (fs_read [path \<mapsto> af_bytes (aw_file w2)]) s dir path = Inr (Inr s')
     \<and> store_view s' uid = Some ([r, r], ts)"
proof -
  let ?x = "LPush uid r ts"
  have l: "length (entry_bytes ?x) \<le> AOF_BUF_SIZE" using length_entry_le [of ?x] by (simp add: AOF_BUF_SIZE_def)
  have w: "write_entry w (entry_bytes ?x) = Some w1" using assms(5) by (simp only: log_append_eq)
  then have w1: "aof_ok w1" "aw_stream w1 = entry_bytes ?x" using aol.append_stream [OF assms(1) l w] assms(2) by auto
  from w assms(3) have "ring_write w (entry_bytes ?x) = Some w1" by (cases "aw_fsync_mode w") (simp_all add: write_entry_def)
  then have "aw_file w1 = aw_file w" by (rule ring_write_fields)
  then have p: "aw_pending w1 = entry_bytes ?x" using w1(2) assms(2) by (simp add: aw_stream_def)
  then have "aw_head w1 \<noteq> aw_tail w1" using aw_pending_empty [of w1] by auto
  from race_twice [OF w1(1) this] obtain w2 where
    w2: "race_run [Caller, FlushThread, Caller, FlushThread, Caller, FlushThread] w1 = race_start w2"
      "af_bytes (aw_file w2) = concat (map entry_bytes [?x, ?x]) @ []" using w1(2) p by auto
  have "fs_read [path \<mapsto> af_bytes (aw_file w2)] (bin_path dir) = Inl NotFound"
    "fs_read [path \<mapsto> af_bytes (aw_file w2)] path = Inr (concat (map entry_bytes [?x, ?x]) @ [])"
    using assms(9) unfolding w2(2) by (simp_all add: fs_read_def)
  from recover_log_only [OF assms(6,7) this incomplete_Nil _ subset_refl] assms(4,8)
  obtain s' where
    "recover (fs_read [path \<mapsto> af_bytes (aw_file w2)]) s dir path = Inr (Inr s')"
    "store_view s' = abs_replay (unat (st_capacity s)) Map.empty [?x, ?x]" by (auto simp del: fun_upd_apply)
  moreover from this(2) have "store_view s' uid = Some ([r, r], ts)"
    using assms(10) by (simp add: abs_push_def hist_records_def numeral_2_eq_2)
  ultimately show ?thesis using w2(1) by blast
qed

theorem flush_race_duplicates_witness:
  "\<exists>w1 w2 s'. log_append (sample_writer No) (LPush 7 default_record 5) = Some w1
     \<and> race_run [Caller, FlushThread, Caller, FlushThread, Caller, FlushThread] w1 = race_start w2
     \<and> recover (fs_read [''log'' \<mapsto> af_bytes (aw_file w2)]) sample_store ''d'' ''log'' = Inr (Inr s')
     \<and> store_view s' 7 = Some ([default_record, default_record], 5)"
proof -
  let ?x = "LPush 7 default_record 5"
  have p: "aw_pending (sample_writer No) = []" by (rule aw_pending_empty) (simp add: sample_writer_def)
  have l: "length (entry_bytes ?x) \<le> AOF_BUF_SIZE" using length_entry_le [of ?x] by (simp add: AOF_BUF_SIZE_def)
  obtain w1 where w1: "log_append (sample_writer No) ?x = Some w1"
    using write_entry_progress [OF _ l, of "sample_writer No"] p l sample_writer_ok(1) [of No]
    by (auto simp: log_append_eq aof_ok_def simp del: entry_bytes.simps)
  have m: "aw_fsync_mode (sample_writer No) \<noteq> Always" by (simp add: sample_writer_def)
  from flush_race_duplicates [OF sample_writer_ok m _ w1 sample_store_ok(1,2), of "''log''" "''d''"] w1
  show ?thesis by (simp add: sample_store_ok bin_path_def)
qed

end
