(* ===== verification/Error_Text.thy ===== *)
theory Error_Text
  imports Config
begin

text \<open>
  The texts of the errors: the derived \<^verbatim>\<open>Display\<close> of \<^verbatim>\<open>WeloxsError\<close> in \<^verbatim>\<open>src/error.rs\<close> and the
  format strings at the places where the errors arise. Strings are the bytes of their UTF-8 encoding.
  The texts of I/O errors and of the TOML parser are parameters.
\<close>

section \<open>Formatting integers\<close>

definition digit_char :: "nat \<Rightarrow> char" where
  "digit_char d = char_of (if d < 10 then 48 + d else 87 + d)"

fun show_base :: "nat \<Rightarrow> nat \<Rightarrow> string" where
  "show_base b n = (if n < b \<or> b < 2 then [digit_char n] else show_base b (n div b) @ [digit_char (n mod b)])"

declare show_base.simps [simp del]

definition show_nat :: "nat \<Rightarrow> string" where
  "show_nat n = show_base 10 n"

text \<open>\<^verbatim>\<open>{:#0wx}\<close>: the prefix and at least \<open>w - 2\<close> hexadecimal digits.\<close>

definition show_hex :: "nat \<Rightarrow> nat \<Rightarrow> string" where
  "show_hex w n = (let ds = show_base 16 n in ''0x'' @ replicate (w - 2 - length ds) (CHR ''0'') @ ds)"

definition em_dash :: string where
  "em_dash = [char_of (0xE2 :: nat), char_of (0x80 :: nat), char_of (0x94 :: nat)]"

section \<open>Messages\<close>

fun config_message :: "(io_error \<Rightarrow> string) \<Rightarrow> string \<Rightarrow> config_error \<Rightarrow> string" where
  "config_message io toml (CannotRead path e) = ''cannot read '' @ path @ '': '' @ io e"
| "config_message io toml TomlParseError = ''TOML parse error: '' @ toml"
| "config_message io toml (MaxRecordsMismatch mr n) =
     ''max_records='' @ show_nat (unat mr) @ '' does not match COMPILED_N='' @ show_nat n @ '' '' @ em_dash
     @ '' rebuild binary or fix config''"
| "config_message io toml (MaxRecordsLimit mr) =
     ''max_records='' @ show_nat (unat mr) @ '' exceeds MAX_RECORDS_PROTOCOL_LIMIT=''
     @ show_nat (unat MAX_RECORDS_PROTOCOL_LIMIT)"
| "config_message io toml TtlZero = ''ttl_seconds must be > 0''"
| "config_message io toml AofPathRequired = ''aof_path is required''"
| "config_message io toml SnapshotPathRequired = ''snapshot_path is required''"
| "config_message io toml (UnknownFsync s) =
     ''unknown aof_fsync: '' @ [CHR 0x27] @ s @ [CHR 0x27] @ '' '' @ em_dash @ '' expected always|everysec|no''"

fun protocol_message :: "protocol_error \<Rightarrow> string" where
  "protocol_message (BadMagic magic) =
     ''bad magic: '' @ show_hex 6 (unat magic) @ '', expected '' @ show_hex 6 (unat MAGIC_WIRE)"
| "protocol_message (UnknownOpcode opcode) = ''unknown opcode: '' @ show_hex 4 (unat opcode)"
| "protocol_message (BadPayloadLen opcode expected got) =
     ''opcode '' @ show_hex 4 (unat opcode) @ '': expected payload_len='' @ show_nat (unat expected)
     @ '', got '' @ show_nat (unat got)"
| "protocol_message (BadGetCount count n) =
     ''GET count='' @ show_nat (unat count) @ '' out of range [1, '' @ show_nat n @ '']''"

fun error_text :: "(io_error \<Rightarrow> string) \<Rightarrow> string \<Rightarrow> weloxs_error \<Rightarrow> string" where
  "error_text io toml (Io e) = ''I/O error: '' @ io e"
| "error_text io toml (Config e) = ''config error: '' @ config_message io toml e"
| "error_text io toml (Protocol e) = ''protocol error: '' @ protocol_message e"

section \<open>Reading the numbers back\<close>

lemma ascii_digit_char: "d < 10 \<Longrightarrow> ascii_digit (digit_char d) = Some d"
  by (simp add: ascii_digit_def digit_char_def Let_def of_char_of)

lemma parse_digits_append:
  "parse_digits bound acc (xs @ ys) = Option.bind (parse_digits bound acc xs) (\<lambda>a. parse_digits bound a ys)"
  by (induction bound acc xs rule: parse_digits.induct) (auto split: option.split)

lemma show_base_small: "n < 10 \<Longrightarrow> show_base 10 n = [digit_char n]"
  by (subst show_base.simps) simp

lemma show_base_step: "\<not> n < 10 \<Longrightarrow> show_base 10 n = show_base 10 (n div 10) @ [digit_char (n mod 10)]"
  by (subst show_base.simps) simp

lemma parse_show_nat: "n < bound \<Longrightarrow> parse_digits bound 0 (show_nat n) = Some n"
  unfolding show_nat_def
proof (induction n rule: less_induct)
  case (less n)
  show ?case
  proof (cases "n < 10")
    case True
    with less.prems show ?thesis by (simp add: show_base_small ascii_digit_char)
  next
    case False
    then have "n div 10 < n" "n div 10 < bound" using less.prems by auto
    from less.IH [OF this] have ih: "parse_digits bound 0 (show_base 10 (n div 10)) = Some (n div 10)" .
    have d: "ascii_digit (digit_char (n mod 10)) = Some (n mod 10)" by (rule ascii_digit_char) simp
    have "parse_digits bound (n div 10) [digit_char (n mod 10)] = Some n"
      using less.prems by (simp add: d Let_def)
    with ih show ?thesis unfolding show_base_step [OF False] parse_digits_append by simp
  qed
qed

text \<open>Distinct numbers are shown distinctly, and what is shown can be given back on the command line.\<close>

lemma show_nat_inject: "show_nat m = show_nat n \<longleftrightarrow> m = n"
proof
  assume eq: "show_nat m = show_nat n"
  have "parse_digits (Suc (m + n)) 0 (show_nat m) = Some m" by (rule parse_show_nat) simp
  moreover have "parse_digits (Suc (m + n)) 0 (show_nat n) = Some n" by (rule parse_show_nat) simp
  ultimately show "m = n" unfolding eq by (simp del: parse_digits.simps)
qed simp

end
