(* ===== verification/Unit_Tests.thy ===== *)
theory Unit_Tests
  imports Spsc_Relaxed Connection Error_Text Store "HOL-Library.Sublist"
begin

text \<open>
  The unit tests of the data structures, transcribed from the test modules of the source files. A test
  is a Boolean function of what the environment chooses (addresses, the contents of fresh memory, the
  capacity the program was compiled for, the file system), with one conjunct per assertion; a panic is
  \<open>False\<close>. Each lemma shows that the test passes in the model, whatever the environment.
\<close>

section \<open>record.rs\<close>

definition test_three_records_fit_in_cache_line :: bool where
  "test_three_records_fit_in_cache_line \<longleftrightarrow> 3 * record_size \<le> 64"

definition test_record_field_access :: bool where
  "test_record_field_access \<longleftrightarrow>
     (let r = \<lparr>event_type = 7, timestamp = 12345, url_hash = 99999\<rparr>
      in event_type r = 7 \<and> timestamp r = 12345 \<and> url_hash r = 99999)"

lemma record_tests: "test_three_records_fit_in_cache_line" "test_record_field_access"
  by (simp_all add: test_three_records_fit_in_cache_line_def record_size_def test_record_field_access_def)

section \<open>ring\_buffer.rs\<close>

definition rb_make_record :: "u64 \<Rightarrow> event_record" where
  "rb_make_record ts = \<lparr>event_type = 1, timestamp = ts, url_hash = ts * 7\<rparr>"

definition make_buf :: "mem \<Rightarrow> addr \<Rightarrow> u16 \<Rightarrow> mem \<times> ring_buffer" where
  "make_buf m data cap =
     (write_bytes m data (records_as_bytes (replicate (unat cap) default_record)),
      \<lparr>rb_data = data, rb_capacity = cap, rb_head = 0, rb_count = 0, rb_last_write_ts = 0\<rparr>)"

text \<open>A call of \<^verbatim>\<open>get_last\<close> followed by assertions on its result.\<close>

definition expect_last ::
  "mem \<times> ring_buffer \<Rightarrow> u16 \<Rightarrow> nat \<Rightarrow> (u16 \<Rightarrow> event_record list \<Rightarrow> bool) \<Rightarrow> bool" where
  "expect_last s n len check =
     (case rb_get_last (fst s) (snd s) n (replicate len default_record) of
        None \<Rightarrow> False
      | Some (out, k) \<Rightarrow> check k out)"

definition test_push_and_get_last_single :: "mem \<Rightarrow> addr \<Rightarrow> bool" where
  "test_push_and_get_last_single m data =
     expect_last (rb_add (make_buf m data 4) (rb_make_record 100, 999)) 1 4
       (\<lambda>n out. n = 1 \<and> timestamp (out ! 0) = 100)"

definition test_get_last_newest_first :: "mem \<Rightarrow> addr \<Rightarrow> bool" where
  "test_get_last_newest_first m data =
     expect_last (foldl (\<lambda>s ts. rb_add s (rb_make_record ts, ts)) (make_buf m data 4) [10, 20, 30]) 3 4
       (\<lambda>n out. n = 3 \<and> timestamp (out ! 0) = 30 \<and> timestamp (out ! 1) = 20 \<and> timestamp (out ! 2) = 10)"

definition test_push_overflow_overwrites_oldest :: "mem \<Rightarrow> addr \<Rightarrow> bool" where
  "test_push_overflow_overwrites_oldest m data =
     (let s = foldl (\<lambda>s ts. rb_add s (rb_make_record ts, ts)) (make_buf m data 3) [10, 20, 30, 40]
      in rb_count (snd s) = 3 \<and> expect_last s 3 3
           (\<lambda>n out. n = 3 \<and> timestamp (out ! 0) = 40 \<and> timestamp (out ! 1) = 30 \<and> timestamp (out ! 2) = 20))"

definition test_last_write_ts_is_server_ts_not_record_ts :: "mem \<Rightarrow> addr \<Rightarrow> bool" where
  "test_last_write_ts_is_server_ts_not_record_ts m data \<longleftrightarrow>
     rb_last_write_ts (snd (rb_add (make_buf m data 4) (rb_make_record 9999, 42))) = 42"

definition test_get_last_empty_returns_zero :: "mem \<Rightarrow> addr \<Rightarrow> bool" where
  "test_get_last_empty_returns_zero m data = expect_last (make_buf m data 4) 2 4 (\<lambda>n out. n = 0)"

definition test_get_last_clamps_to_count :: "mem \<Rightarrow> addr \<Rightarrow> bool" where
  "test_get_last_clamps_to_count m data =
     expect_last (rb_add (make_buf m data 4) (rb_make_record 1, 1)) 4 4 (\<lambda>n out. n = 1)"

definition test_head_wraps_correctly :: "mem \<Rightarrow> addr \<Rightarrow> bool" where
  "test_head_wraps_correctly m data \<longleftrightarrow>
     (let s = foldl (\<lambda>s ts. rb_add s (rb_make_record ts, ts)) (make_buf m data 2) [1, 2, 3]
      in rb_head (snd s) = 1 \<and> rb_count (snd s) = 2)"

text \<open>The contents after the pushes of a test come from the library; the counters compute.\<close>

lemma make_buf_new:
  "0 < cap \<Longrightarrow> rb_inv (snd (make_buf m data cap))" "rb_contents (fst (make_buf m data cap)) (snd (make_buf m data cap)) = []"
  by (simp_all add: make_buf_def rb_inv_def rb_contents_def)

lemma make_buf_contents:
  assumes "0 < cap"
  shows "rb_contents (fst (foldl rb_add (make_buf m data cap) es)) (snd (foldl rb_add (make_buf m data cap) es))
     = take (unat cap) (rev (map fst es))"
  using rbh.hist_foldl [of "make_buf m data cap" es] make_buf_new [where m = m and data = data] assms
  by (simp add: make_buf_def)

lemma foldl_rb_add: "foldl (\<lambda>s ts. rb_add s (f ts, ts)) s xs = foldl rb_add s (map (\<lambda>ts. (f ts, ts)) xs)"
  by (induction xs arbitrary: s) simp_all

lemma expect_last_pushes:
  assumes "0 < cap" and "unat (min n (rb_count (snd (foldl rb_add (make_buf m data cap) es)))) \<le> len"
  shows "expect_last (foldl rb_add (make_buf m data cap) es) n len check \<longleftrightarrow>
     check (min n (rb_count (snd (foldl rb_add (make_buf m data cap) es))))
       (take (unat n) (take (unat cap) (rev (map fst es)))
        @ drop (unat (min n (rb_count (snd (foldl rb_add (make_buf m data cap) es))))) (replicate len default_record))"
  using rb_get_last_eq [of n "snd (foldl rb_add (make_buf m data cap) es)" "replicate len default_record"] assms
  by (simp add: expect_last_def make_buf_contents)

lemmas rb_run = make_buf_def rb_add_def rb_push_def rb_make_record_def

lemma ring_buffer_tests:
  "test_push_and_get_last_single m data" "test_get_last_newest_first m data"
  "test_push_overflow_overwrites_oldest m data" "test_last_write_ts_is_server_ts_not_record_ts m data"
  "test_get_last_empty_returns_zero m data" "test_get_last_clamps_to_count m data" "test_head_wraps_correctly m data"
proof -
  have "rb_count (snd (foldl rb_add (make_buf m data 4) [(rb_make_record 100, 999)])) = 1" by (simp add: rb_run)
  then show "test_push_and_get_last_single m data"
    using expect_last_pushes [of 4 1 m data "[(rb_make_record 100, 999)]" 4]
    by (simp add: test_push_and_get_last_single_def rb_make_record_def)
  show "test_get_last_empty_returns_zero m data"
    using expect_last_pushes [of 4 2 m data "[]" 4] by (simp add: test_get_last_empty_returns_zero_def rb_run)
  show "test_last_write_ts_is_server_ts_not_record_ts m data"
    by (simp add: test_last_write_ts_is_server_ts_not_record_ts_def rb_run Let_def)
  show "test_head_wraps_correctly m data"
    by (simp add: test_head_wraps_correctly_def rb_run Let_def)
  show "test_get_last_clamps_to_count m data"
    using expect_last_pushes [of 4 4 m data "[(rb_make_record 1, 1)]" 4]
    by (simp add: test_get_last_clamps_to_count_def rb_run Let_def)
  show "test_get_last_newest_first m data"
    using expect_last_pushes [of 4 3 m data "map (\<lambda>ts. (rb_make_record ts, ts)) [10, 20, 30]" 4]
    by (simp add: test_get_last_newest_first_def rb_run Let_def)
  show "test_push_overflow_overwrites_oldest m data"
    using expect_last_pushes [of 3 3 m data "map (\<lambda>ts. (rb_make_record ts, ts)) [10, 20, 30, 40]" 3]
    by (simp add: test_push_overflow_overwrites_oldest_def rb_run Let_def)
qed

section \<open>memory\_pool.rs\<close>

text \<open>Steps of a test that fail with a panic; the releases after the last assertion are left out.\<close>

definition new_pool :: "nat \<Rightarrow> nat \<Rightarrow> addr \<Rightarrow> mem \<Rightarrow> (mem \<Rightarrow> memory_pool \<Rightarrow> bool) \<Rightarrow> bool" where
  "new_pool t w base m k = (case memory_pool_new t w (Some base) m of Inl e \<Rightarrow> False | Inr (m', p) \<Rightarrow> k m' p)"

definition then_alloc :: "mem \<Rightarrow> memory_pool \<Rightarrow> (addr \<Rightarrow> memory_pool \<Rightarrow> bool) \<Rightarrow> bool" where
  "then_alloc m p k = (case alloc_slot m p of Inl e \<Rightarrow> False | Inr (a, p') \<Rightarrow> k a p')"

definition test_alloc_free_roundtrip :: "addr \<Rightarrow> mem \<Rightarrow> bool" where
  "test_alloc_free_roundtrip base m0 =
     new_pool 8 64 base m0 (\<lambda>m p. then_alloc m p (\<lambda>a p. then_alloc m p (\<lambda>b p.
       a \<noteq> b \<and> (case free_slot m p a of (m, p) \<Rightarrow> then_alloc m p (\<lambda>c p. c = a)))))"

definition test_alloc_returns_distinct_pointers :: "addr \<Rightarrow> mem \<Rightarrow> bool" where
  "test_alloc_returns_distinct_pointers base m0 =
     new_pool 4 64 base m0 (\<lambda>m p. then_alloc m p (\<lambda>a p. then_alloc m p (\<lambda>b p. then_alloc m p (\<lambda>c p.
       then_alloc m p (\<lambda>d p. \<forall>i < 4. \<forall>j < 4. i < j \<longrightarrow> [a, b, c, d] ! i \<noteq> [a, b, c, d] ! j)))))"

definition test_alloc_slots_are_slot_size_apart :: "addr \<Rightarrow> mem \<Rightarrow> bool" where
  "test_alloc_slots_are_slot_size_apart base m0 =
     new_pool 4 128 base m0 (\<lambda>m p. then_alloc m p (\<lambda>a p. then_alloc m p (\<lambda>b p.
       (if a < b then b - a else a - b) = 128)))"

definition test_alloc_beyond_capacity_panics :: "addr \<Rightarrow> mem \<Rightarrow> bool" where
  "test_alloc_beyond_capacity_panics base m0 =
     new_pool 2 64 base m0 (\<lambda>m p. then_alloc m p (\<lambda>a p. then_alloc m p (\<lambda>b p.
       alloc_slot m p = Inl (Panic ''MemoryPool exhausted -- increase memory_pool_slots in config''))))"

lemma new_pool_run:
  assumes "region_ok base w t" and "0 < t"
  obtains m' p where "new_pool t w base m k = k m' p" and "pool_free_list w m' p (slot_addrs base w t)"
    and "pool_slots p = slot_addrs base w t"
proof -
  obtain m' p where n: "memory_pool_new t w (Some base) m = Inr (m', p)"
    using assms by (simp add: memory_pool_new_def region_ok_def)
  from that [OF _ memory_pool_new_free_list [OF assms n]] n show ?thesis by (simp add: new_pool_def)
qed

lemma then_alloc_run:
  assumes "pool_free_list w m p (a # fl)"
  obtains p' where "then_alloc m p k = k a p'" and "pool_free_list w m p' fl" and "pool_slots p' = pool_slots p"
proof -
  from pool.alloc_Cons [OF assms] obtain p' where
    "alloc_slot m p = Inr (a, p')" "pool_free_list w m p' fl" "pool_slots p' = pool_slots p" by blast
  then show ?thesis using that [of p'] by (simp add: then_alloc_def)
qed

lemma slot_addrs_numeral:
  "slot_addrs base w (numeral k) = base # slot_addrs (base + w) w (pred_numeral k)"
  "slot_addrs base w (Suc t) = base # slot_addrs (base + w) w t" "slot_addrs base w 0 = []"
proof -
  show s: "slot_addrs base w (Suc t) = base # slot_addrs (base + w) w t" for t
    by (simp add: slot_addrs_def upt_conv_Cons map_Suc_upt [symmetric] comp_def algebra_simps del: upt_Suc)
  show "slot_addrs base w (numeral k) = base # slot_addrs (base + w) w (pred_numeral k)"
    unfolding numeral_eq_Suc by (rule s)
qed (simp add: slot_addrs_def)

lemma memory_pool_roundtrip_test:
  assumes "region_ok base 64 8"
  shows "test_alloc_free_roundtrip base m0"
proof -
  let ?k3 = "\<lambda>a m p. case free_slot m p a of (m, p) \<Rightarrow> then_alloc m p (\<lambda>c p. c = a)"
  let ?k2 = "\<lambda>m a b p. a \<noteq> b \<and> ?k3 a m p" let ?k1 = "\<lambda>m a p. then_alloc m p (?k2 m a)"
  obtain m p where 1: "test_alloc_free_roundtrip base m0 = then_alloc m p (?k1 m)"
    "pool_free_list 64 m p (slot_addrs base 64 8)" "pool_slots p = slot_addrs base 64 8"
    unfolding test_alloc_free_roundtrip_def by (rule new_pool_run [OF assms]) simp_all
  obtain fl where fl: "slot_addrs base 64 8 = base # (base + 64) # fl" "base \<notin> set fl"
    using slot_addrs_less [of _ "base + 128" 64 6] by (simp add: slot_addrs_numeral slot_addrs_range)
  obtain p1 where 2: "then_alloc m p (?k1 m) = ?k1 m base p1" "pool_free_list 64 m p1 ((base + 64) # fl)" "pool_slots p1 = pool_slots p"
    by (rule then_alloc_run [OF 1(2) [unfolded fl(1)]])
  obtain p2 where 3: "?k1 m base p1 = ?k2 m base (base + 64) p2" "pool_free_list 64 m p2 fl" "pool_slots p2 = pool_slots p1"
    by (rule then_alloc_run [OF 2(2)])
  obtain m' p3 where 4: "free_slot m p2 base = (m', p3)" by fastforce
  have "pool_free_list 64 m' p3 (base # fl)"
    using pool.free_Cons [OF 3(2) _ fl(2) 4] 1(3) 2(3) 3(3) fl(1) by simp
  then obtain p4 where "then_alloc m' p3 (\<lambda>c p. c = base) = (base = base)" by (rule then_alloc_run)
  then show ?thesis unfolding 1(1) 2(1) 3(1) by (simp add: 4)
qed

lemma memory_pool_distinct_test:
  assumes "region_ok base 64 4"
  shows "test_alloc_returns_distinct_pointers base m0"
proof -
  let ?ok = "\<lambda>a b c d :: addr. \<forall>i < 4. \<forall>j < 4. i < j \<longrightarrow> [a, b, c, d] ! i \<noteq> [a, b, c, d] ! j"
  let ?k4 = "\<lambda>a b c d (p :: memory_pool). ?ok a b c d" let ?k3 = "\<lambda>m a b c p. then_alloc m p (?k4 a b c)"
  let ?k2 = "\<lambda>m a b p. then_alloc m p (?k3 m a b)" let ?k1 = "\<lambda>m a p. then_alloc m p (?k2 m a)"
  obtain m p where 1: "test_alloc_returns_distinct_pointers base m0 = then_alloc m p (?k1 m)"
    "pool_free_list 64 m p [base, base + 64, base + 64 + 64, base + 64 + 64 + 64]"
    unfolding test_alloc_returns_distinct_pointers_def by (rule new_pool_run [OF assms]) (simp_all add: slot_addrs_numeral)
  obtain p1 where 2: "then_alloc m p (?k1 m) = ?k1 m base p1" "pool_free_list 64 m p1 [base + 64, base + 64 + 64, base + 64 + 64 + 64]"
    by (rule then_alloc_run [OF 1(2)])
  obtain p2 where 3: "?k1 m base p1 = ?k2 m base (base + 64) p2" "pool_free_list 64 m p2 [base + 64 + 64, base + 64 + 64 + 64]"
    by (rule then_alloc_run [OF 2(2)])
  obtain p3 where 4: "?k2 m base (base + 64) p2 = ?k3 m base (base + 64) (base + 64 + 64) p3"
    "pool_free_list 64 m p3 [base + 64 + 64 + 64]" by (rule then_alloc_run [OF 3(2)])
  obtain p4 where 5: "?k3 m base (base + 64) (base + 64 + 64) p3
      = ?k4 base (base + 64) (base + 64 + 64) (base + 64 + 64 + 64) p4" by (rule then_alloc_run [OF 4(2)])
  show ?thesis unfolding 1(1) 2(1) 3(1) 4(1) 5 by (simp add: All_less_Suc numeral_eq_Suc)
qed

lemma memory_pool_apart_test:
  assumes "region_ok base 128 4"
  shows "test_alloc_slots_are_slot_size_apart base m0"
proof -
  let ?k2 = "\<lambda>a b (p :: memory_pool). (if a < b then b - a else a - b) = (128 :: nat)" let ?k1 = "\<lambda>m a p. then_alloc m p (?k2 a)"
  obtain m p fl where 1: "test_alloc_slots_are_slot_size_apart base m0 = then_alloc m p (?k1 m)"
    "pool_free_list 128 m p (base # (base + 128) # fl)"
    unfolding test_alloc_slots_are_slot_size_apart_def by (rule new_pool_run [OF assms]) (simp_all add: slot_addrs_numeral)
  obtain p1 where 2: "then_alloc m p (?k1 m) = ?k1 m base p1" "pool_free_list 128 m p1 ((base + 128) # fl)"
    by (rule then_alloc_run [OF 1(2)])
  obtain p2 where 3: "?k1 m base p1 = ?k2 base (base + 128) p2" by (rule then_alloc_run [OF 2(2)])
  show ?thesis unfolding 1(1) 2(1) 3 by simp
qed

lemma memory_pool_panic_test:
  assumes "region_ok base 64 2"
  shows "test_alloc_beyond_capacity_panics base m0"
proof -
  let ?k2 = "\<lambda>m (b :: addr) p. alloc_slot m p = Inl (Panic ''MemoryPool exhausted -- increase memory_pool_slots in config'')"
  let ?k1 = "\<lambda>m (a :: addr) p. then_alloc m p (?k2 m)"
  obtain m p where 1: "test_alloc_beyond_capacity_panics base m0 = then_alloc m p (?k1 m)"
    "pool_free_list 64 m p [base, base + 64]"
    unfolding test_alloc_beyond_capacity_panics_def by (rule new_pool_run [OF assms]) (simp_all add: slot_addrs_numeral)
  obtain p1 where 2: "then_alloc m p (?k1 m) = ?k1 m base p1" "pool_free_list 64 m p1 [base + 64]"
    by (rule then_alloc_run [OF 1(2)])
  obtain p2 where 3: "?k1 m base p1 = ?k2 m (base + 64) p2" "pool_free_list 64 m p2 []" by (rule then_alloc_run [OF 2(2)])
  show ?thesis unfolding 1(1) 2(1) 3(1) using 3(2) by (simp add: alloc_slot_def pool_free_list_def)
qed

section \<open>store.rs\<close>

text \<open>
  \<^verbatim>\<open>Store::with_pool_slots(64)\<close> of a program compiled for \<open>n\<close> records, in memory granted at \<open>base\<close>. A
  pointer to a ring buffer stands for the entry of its user.
\<close>

definition store_make_record :: "u64 \<Rightarrow> event_record" where
  "store_make_record ts = \<lparr>event_type = 1, timestamp = ts, url_hash = 0\<rparr>"

definition new_store :: "nat \<Rightarrow> addr \<Rightarrow> mem \<Rightarrow> (store \<Rightarrow> bool) \<Rightarrow> bool" where
  "new_store n base m k = (case with_pool_slots n 64 (Some base) m of Inl e \<Rightarrow> False | Inr s \<Rightarrow> k s)"

definition then_create :: "store \<Rightarrow> u32 \<Rightarrow> (store \<Rightarrow> bool) \<Rightarrow> bool" where
  "then_create s uid k = (case get_or_create s uid of Inl e \<Rightarrow> False | Inr s' \<Rightarrow> k s')"

definition test_get_or_create_returns_same_ptr :: "nat \<Rightarrow> addr \<Rightarrow> mem \<Rightarrow> bool" where
  "test_get_or_create_returns_same_ptr n base m =
     new_store n base m (\<lambda>s. then_create s 42 (\<lambda>s1. then_create s1 42 (\<lambda>s2. store_get s1 42 = store_get s2 42)))"

definition test_get_returns_none_for_missing_key :: "nat \<Rightarrow> addr \<Rightarrow> mem \<Rightarrow> bool" where
  "test_get_returns_none_for_missing_key n base m = new_store n base m (\<lambda>s. store_get s 999 = None)"

definition test_push_and_get_roundtrip :: "nat \<Rightarrow> addr \<Rightarrow> mem \<Rightarrow> bool" where
  "test_push_and_get_roundtrip n base m =
     new_store n base m (\<lambda>s. then_create s 1 (\<lambda>s1.
       let s2 = buf_push s1 1 (store_make_record 100) 1000
       in case store_get s2 1 of
            None \<Rightarrow> False
          | Some b \<Rightarrow> expect_last (st_mem s2, b) 1 4 (\<lambda>k out. k = 1 \<and> timestamp (out ! 0) = 100)))"

definition test_erase_removes_key :: "nat \<Rightarrow> addr \<Rightarrow> mem \<Rightarrow> bool" where
  "test_erase_removes_key n base m =
     new_store n base m (\<lambda>s. then_create s 7 (\<lambda>s1.
       let s2 = store_erase s1 7 in store_get s2 7 = None \<and> store_len s2 = 0))"

definition test_erase_nonexistent_is_noop :: "nat \<Rightarrow> addr \<Rightarrow> mem \<Rightarrow> bool" where
  "test_erase_nonexistent_is_noop n base m = new_store n base m (\<lambda>s. store_erase s 999 = s)"

definition test_for_each_visits_all_keys :: "nat \<Rightarrow> addr \<Rightarrow> mem \<Rightarrow> u32 list \<Rightarrow> bool" where
  "test_for_each_visits_all_keys n base m order =
     new_store n base m (\<lambda>s. then_create s 1 (\<lambda>s. then_create s 2 (\<lambda>s. then_create s 3 (\<lambda>s.
       hash_order (st_map s) order \<longrightarrow> store_for_each order s (\<lambda>uid b. insert uid) {} = {1, 2, 3}))))"

definition test_len_tracks_insertions_and_erasures :: "nat \<Rightarrow> addr \<Rightarrow> mem \<Rightarrow> bool" where
  "test_len_tracks_insertions_and_erasures n base m =
     new_store n base m (\<lambda>s. store_len s = 0 \<and> then_create s 1 (\<lambda>s. then_create s 2 (\<lambda>s.
       store_len s = 2 \<and> store_len (store_erase s 1) = 1)))"

lemma new_store_run:
  assumes "compiled_n_ok n" and "region_ok base (sa_slot_size (word_of_nat n)) 64"
  obtains s where "new_store n base m k = k s" and "store_inv s" and "store_view s = Map.empty" and "st_map s = Map.empty"
    and "store_slots s = 64" and "st_capacity s = word_of_nat n"
proof -
  let ?w = "sa_slot_size (word_of_nat n)"
  have n: "unat (word_of_nat n :: u16) = n" "0 < (word_of_nat n :: u16)" "n \<le> 3854"
    using assms(1) compiled_n_u16 [OF assms(1)] by (auto simp: compiled_n_ok_def word_less_nat_alt)
  have w: "8 \<le> ?w" "64 * ?w \<le> 2 ^ 63 - 8"
    using sa_slot_size_ge n(1,3) by (auto simp: sa_slot_size_def next_multiple_of_def Let_def max_def)
  have "\<exists>m' a. store_alloc_new (word_of_nat n) 64 (Some base) m = Inr (m', a)"
    using w by (simp add: store_alloc_new_def memory_pool_new_def Let_def)
  then obtain s where s: "with_pool_slots n 64 (Some base) m = Inr s" by (auto simp: with_pool_slots_def Let_def)
  have z: "0 < (64 :: u32)" "region_ok base ?w (unat (64 :: u32))" using assms(2) by simp_all
  note i = with_pool_slots_inv [OF n(2) z s]
  have "dom (st_map s) = {}" using i(2) dom_store_view [of s] by simp
  then have "st_map s = Map.empty" by simp
  with that [of s] s i show ?thesis by (simp add: new_store_def)
qed

lemma then_create_run:
  assumes "store_inv s" and "card (dom (st_map s)) < store_slots s"
  obtains s' where "then_create s uid k = k s'" and "store_inv s'" and "get_or_create s uid = Inr s'"
    and "store_view s' = (if uid \<in> dom (st_map s) then store_view s else (store_view s)(uid \<mapsto> ([], 0)))"
    and "st_capacity s' = st_capacity s" and "store_slots s' = store_slots s" and "dom (st_map s') = insert uid (dom (st_map s))"
proof (cases "st_map s uid")
  case (Some b)
  then have "uid \<in> dom (st_map s)" by auto
  with that [of s] assms(1) Some show ?thesis by (simp add: then_create_def get_or_create_old insert_absorb)
next
  case None
  from get_or_create_new [OF assms(1) None assms(2)] obtain s' where
    s': "get_or_create s uid = Inr s'" "store_inv s'" "store_view s' = (store_view s)(uid \<mapsto> ([], 0))"
    "st_capacity s' = st_capacity s" "store_slots s' = store_slots s" by blast
  moreover have "dom (st_map s') = insert uid (dom (st_map s))"
    unfolding dom_store_view [symmetric] s'(3) by simp
  moreover have "uid \<notin> dom (st_map s)" using None by auto
  ultimately show ?thesis using that [of s'] by (simp add: then_create_def)
qed

lemma store_dom_erase: "store_inv s \<Longrightarrow> dom (st_map (store_erase s uid)) = dom (st_map s) - {uid}"
  unfolding dom_store_view [symmetric] by (simp only: store_erase_ok(2) dom_abs_erase)

lemma new_storeI:
  assumes "compiled_n_ok n" and "region_ok base (sa_slot_size (word_of_nat n)) 64"
    and "\<And>s. store_inv s \<Longrightarrow> store_view s = Map.empty \<Longrightarrow> st_map s = Map.empty \<Longrightarrow> store_slots s = 64 \<Longrightarrow>
      st_capacity s = word_of_nat n \<Longrightarrow> k s"
  shows "new_store n base m k"
  by (rule new_store_run [OF assms(1,2), of m k]) (use assms(3) in blast)

lemma then_createI:
  assumes "store_inv s" and "card (dom (st_map s)) < store_slots s"
    and "\<And>s'. store_inv s' \<Longrightarrow> get_or_create s uid = Inr s' \<Longrightarrow>
      store_view s' = (if uid \<in> dom (st_map s) then store_view s else (store_view s)(uid \<mapsto> ([], 0))) \<Longrightarrow>
      st_capacity s' = st_capacity s \<Longrightarrow> store_slots s' = store_slots s \<Longrightarrow>
      dom (st_map s') = insert uid (dom (st_map s)) \<Longrightarrow> k s'"
  shows "then_create s uid k"
  by (rule then_create_run [OF assms(1,2), of uid k]) (use assms(3) in blast)

lemma for_each_keys:
  "set order \<subseteq> dom (st_map s) \<Longrightarrow> store_for_each order s (\<lambda>uid b. insert uid) A = set order \<union> A"
  by (induction order arbitrary: A) (auto simp: store_for_each_def split: option.split)

lemma store_view_Some: "store_view s uid = Some (h, ts) \<Longrightarrow>
    \<exists>b. st_map s uid = Some b \<and> rb_contents (st_mem s) b = h \<and> rb_last_write_ts b = ts"
  by (auto simp: store_view_def)

lemma expect_last_view:
  assumes "rb_contents (st_mem s) b = h" and "length h \<le> len"
  shows "expect_last (st_mem s, b) n len check \<longleftrightarrow>
     check (min n (word_of_nat (length h))) (take (unat n) h @ drop (min (unat n) (length h)) (replicate len default_record))"
proof -
  have c: "rb_count b = word_of_nat (length h)" "length h = unat (rb_count b)"
    using assms(1) length_rb_contents [of "st_mem s" b] by (auto simp: word_unat_eq_iff unat_of_nat)
  have k: "unat (min n (rb_count b)) = min (unat n) (length h)" by (simp add: c(2) min_def word_le_nat_alt)
  show ?thesis
    using rb_get_last_eq [of n b "replicate len default_record" "st_mem s"] assms k c(1) by (simp add: expect_last_def)
qed

lemma store_tests:
  assumes ok: "compiled_n_ok n" "region_ok base (sa_slot_size (word_of_nat n)) 64"
  shows "test_get_returns_none_for_missing_key n base m" and "test_erase_nonexistent_is_noop n base m"
    and "test_get_or_create_returns_same_ptr n base m" and "test_erase_removes_key n base m"
    and "test_len_tracks_insertions_and_erasures n base m" and "test_for_each_visits_all_keys n base m order"
    and "test_push_and_get_roundtrip n base m"
proof -
  show "test_get_returns_none_for_missing_key n base m"
    unfolding test_get_returns_none_for_missing_key_def by (rule new_storeI [OF ok]) (simp add: store_get_def)
  show "test_erase_nonexistent_is_noop n base m"
    unfolding test_erase_nonexistent_is_noop_def by (rule new_storeI [OF ok]) (simp add: store_erase_def)
  show "test_get_or_create_returns_same_ptr n base m"
    unfolding test_get_or_create_returns_same_ptr_def
    by (rule new_storeI [OF ok], rule then_createI, simp_all) (auto simp: then_create_def get_or_create_def split: option.split)
  show "test_erase_removes_key n base m"
    unfolding test_erase_removes_key_def
  proof (rule new_storeI [OF ok], rule then_createI)
    fix s s' :: store
    assume s: "st_map s = Map.empty" "store_inv s'" "dom (st_map s') = insert 7 (dom (st_map s))"
    then have "dom (st_map (store_erase s' 7)) = {}" by (simp add: store_dom_erase)
    then show "let s2 = store_erase s' 7 in store_get s2 7 = None \<and> store_len s2 = 0"
      by (auto simp: store_get_def store_len_def)
  qed simp_all
  show "test_len_tracks_insertions_and_erasures n base m"
    unfolding test_len_tracks_insertions_and_erasures_def
    by (rule new_storeI [OF ok], rule conjI, simp add: store_len_def, rule then_createI, simp_all, rule then_createI)
      (simp_all add: store_len_def store_dom_erase)
  show "test_for_each_visits_all_keys n base m order"
    unfolding test_for_each_visits_all_keys_def
    by (rule new_storeI [OF ok], rule then_createI, simp_all, rule then_createI, simp_all, rule then_createI)
      (auto simp: hash_order_def for_each_keys)
  show "test_push_and_get_roundtrip n base m"
    unfolding test_push_and_get_roundtrip_def
  proof (rule new_storeI [OF ok], rule then_createI)
    fix s s' :: store
    assume s: "store_view s = Map.empty" "st_map s = Map.empty" "st_capacity s = word_of_nat n"
      and s': "store_inv s'" "store_view s' = (if 1 \<in> dom (st_map s) then store_view s else (store_view s)(1 \<mapsto> ([], 0)))"
        "st_capacity s' = st_capacity s" "dom (st_map s') = insert 1 (dom (st_map s))"
    let ?r = "store_make_record 100" let ?s2 = "buf_push s' 1 ?r 1000"
    obtain b where b: "st_map s' 1 = Some b" using s'(4) by auto
    have "store_view ?s2 1 = Some ([?r], 1000)"
      using buf_push_ok(2) [OF s'(1) b, of ?r 1000] s s' ok(1) compiled_n_u16 [OF ok(1)]
      by (simp add: abs_push_def hist_records_def compiled_n_ok_def take_Cons')
    then obtain b2 where "st_map ?s2 1 = Some b2" "rb_contents (st_mem ?s2) b2 = [?r]"
      using store_view_Some by blast
    then show "let s2 = ?s2 in case store_get s2 1 of None \<Rightarrow> False
        | Some b \<Rightarrow> expect_last (st_mem s2, b) 1 4 (\<lambda>k out. k = 1 \<and> timestamp (out ! 0) = 100)"
      by (simp add: store_get_def expect_last_view store_make_record_def)
  qed simp_all
qed

section \<open>spsc.rs\<close>

definition new_queue :: "nat \<Rightarrow> ('a spsc \<Rightarrow> bool) \<Rightarrow> bool" where
  "new_queue cap k = (case spsc_new cap of None \<Rightarrow> False | Some q \<Rightarrow> k q)"

text \<open>Pushes whose answers are not looked at, and pops with their expected answers.\<close>

definition push_each :: "nat \<Rightarrow> 'a list \<Rightarrow> 'a spsc \<Rightarrow> 'a spsc" where
  "push_each cap xs q = foldl (\<lambda>q x. snd (spsc_push cap q x)) q xs"

fun pops :: "nat \<Rightarrow> 'a option list \<Rightarrow> 'a spsc \<Rightarrow> bool" where
  "pops cap [] q \<longleftrightarrow> True"
| "pops cap (y # ys) q \<longleftrightarrow> (case spsc_pop cap q of (x, q') \<Rightarrow> x = y \<and> pops cap ys q')"

definition test_push_pop_roundtrip :: bool where
  "test_push_pop_roundtrip =
     new_queue 8 (\<lambda>q. case spsc_push 8 q (42 :: u32) of (ok, q) \<Rightarrow> ok \<and> pops 8 [Some 42, None] q)"

definition test_full_returns_false :: bool where
  "test_full_returns_false =
     new_queue 4 (\<lambda>q.
       case foldl (\<lambda>(ok, q) i. case spsc_push 4 q i of (b, q') \<Rightarrow> (ok \<and> b, q')) (True, q) [0, 1, 2, 3 :: u32] of
         (ok, q) \<Rightarrow> ok \<and> \<not> fst (spsc_push 4 q 99))"

definition test_fifo_order :: bool where
  "test_fifo_order =
     new_queue 8 (\<lambda>q. pops 8 [Some 0, Some 1, Some 2, Some 3, Some 4, None] (push_each 8 [0, 1, 2, 3, 4 :: u32] q))"

definition test_wrap_around :: bool where
  "test_wrap_around =
     new_queue 4 (\<lambda>q.
       let q1 = push_each 4 [1, 2, 3 :: u32] q;
           q2 = snd (spsc_pop 4 (snd (spsc_pop 4 q1)));
           q3 = push_each 4 [4, 5] q2
       in pops 4 [Some 3, Some 4, Some 5, None] q3)"

definition test_is_empty :: bool where
  "test_is_empty =
     new_queue 8 (\<lambda>q. spsc_is_empty q \<and>
       (let q1 = snd (spsc_push 8 q (1 :: u32))
        in \<not> spsc_is_empty q1 \<and> spsc_is_empty (snd (spsc_pop 8 q1))))"

text \<open>
  The test with two threads: whenever the consumer has received 512 items of a producer that pushes
  0 to 511 in order, it has received exactly these.
\<close>

definition test_concurrent_spsc :: "u64 rqsys \<Rightarrow> bool" where
  "test_concurrent_spsc s \<longleftrightarrow>
     (prefix (rq_sent s) (map word_of_nat [0..<512]) \<longrightarrow> length (rq_recv s) = 512 \<longrightarrow>
      rq_recv s = map (Some \<circ> word_of_nat) [0..<512])"

lemma new_queueI:
  fixes k :: "'a spsc \<Rightarrow> bool"
  assumes "cap_ok cap" and "\<And>q. spsc_inv cap q \<Longrightarrow> spsc_list cap q = [] \<Longrightarrow> k q"
  shows "new_queue cap k"
proof -
  from assms(1) obtain q :: "'a spsc" where "spsc_new cap = Some q" by (auto simp: spsc_new_def cap_ok_def)
  with assms(2) spsc_new_ok [OF assms(1)] show ?thesis by (auto simp: new_queue_def)
qed

lemma pops_list: "spsc_inv cap q \<Longrightarrow> pops cap (map Some (spsc_list cap q) @ [None]) q"
proof (induction "spsc_list cap q" arbitrary: q)
  case Nil
  then show ?case using spq.pop_Nil [of cap q] by simp
next
  case (Cons x xs)
  then obtain q' where "spsc_pop cap q = (Some x, q')" "spsc_inv cap q'" "spsc_list cap q' = xs"
    using spq.pop_Cons [of cap q x xs] by metis
  with Cons(1) [of q'] Cons(2) [symmetric] show ?case by simp
qed

lemma push_each_fits:
  assumes "spsc_inv cap q" and "length (spsc_list cap q) + length xs \<le> cap"
  shows "spsc_inv cap (push_each cap xs q)" and "spsc_list cap (push_each cap xs q) = spsc_list cap q @ xs"
  using spq.push_all_items [OF assms(1), of xs] assms(2) by (simp_all add: spq.push_all_def push_each_def)

lemma push_all_succeed:
  assumes "spsc_inv cap q" and "length (spsc_list cap q) + length xs \<le> cap"
  shows "foldl (\<lambda>(ok, q) i. case spsc_push cap q i of (b, q') \<Rightarrow> (ok \<and> b, q')) (True, q) xs = (True, push_each cap xs q)"
  using assms
proof (induction xs arbitrary: q)
  case (Cons x xs)
  then obtain q' where "spsc_push cap q x = (True, q')" "spsc_inv cap q'" "spsc_list cap q' = spsc_list cap q @ [x]"
    using spq.push_add [of cap q x] by auto
  with Cons.IH [of q'] Cons.prems show ?case by (simp add: push_each_def)
qed (simp add: push_each_def)

lemma test_caps: "cap_ok 4" "cap_ok 8" "cap_ok 1024"
  by (simp_all add: cap_ok_def is_power_of_two_def)

lemma spsc_roundtrip_test: "test_push_pop_roundtrip"
  unfolding test_push_pop_roundtrip_def
proof (rule new_queueI [OF test_caps(2)])
  fix q :: "u32 spsc" assume q: "spsc_inv 8 q" "spsc_list 8 q = []"
  then obtain q' where "spsc_push 8 q 42 = (True, q')" "spsc_inv 8 q'" "spsc_list 8 q' = [42]"
    using spq.push_add [of 8 q 42] by auto
  with pops_list [of 8 q'] show "case spsc_push 8 q 42 of (ok, q) \<Rightarrow> ok \<and> pops 8 [Some 42, None] q" by simp
qed

lemma spsc_full_test: "test_full_returns_false"
  unfolding test_full_returns_false_def
proof (rule new_queueI [OF test_caps(1)])
  fix q :: "u32 spsc" assume q: "spsc_inv 4 q" "spsc_list 4 q = []"
  let ?q = "push_each 4 [0, 1, 2, 3] q"
  have "spsc_inv 4 ?q" "length (spsc_list 4 ?q) = 4" using push_each_fits [OF q(1), of "[0, 1, 2, 3]"] q(2) by simp_all
  from spq.push_drop [OF this, of 99] push_all_succeed [OF q(1), of "[0, 1, 2, 3]"] q(2)
  show "case foldl (\<lambda>(ok, q) i. case spsc_push 4 q i of (b, q') \<Rightarrow> (ok \<and> b, q')) (True, q) [0, 1, 2, 3] of
      (ok, q) \<Rightarrow> ok \<and> \<not> fst (spsc_push 4 q 99)" by simp
qed

lemma spsc_fifo_test: "test_fifo_order"
  unfolding test_fifo_order_def
proof (rule new_queueI [OF test_caps(2)])
  fix q :: "u32 spsc" assume q: "spsc_inv 8 q" "spsc_list 8 q = []"
  then show "pops 8 [Some 0, Some 1, Some 2, Some 3, Some 4, None] (push_each 8 [0, 1, 2, 3, 4] q)"
    using push_each_fits [OF q(1), of "[0, 1, 2, 3, 4]"] pops_list [of 8 "push_each 8 [0, 1, 2, 3, 4] q"] by simp
qed

lemma spsc_pop_next:
  assumes "spsc_inv cap q" and "spsc_list cap q = x # xs"
  shows "spsc_inv cap (snd (spsc_pop cap q))" and "spsc_list cap (snd (spsc_pop cap q)) = xs"
  using spq.pop_Cons [OF assms] by auto

lemma spsc_wrap_test: "test_wrap_around"
  unfolding test_wrap_around_def
proof (rule new_queueI [OF test_caps(1)])
  fix q :: "u32 spsc" assume q: "spsc_inv 4 q" "spsc_list 4 q = []"
  define q1 where "q1 = push_each 4 [1, 2, 3] q"
  have 1: "spsc_inv 4 q1" "spsc_list 4 q1 = [1, 2, 3]" unfolding q1_def using push_each_fits [OF q(1), of "[1, 2, 3]"] q(2) by simp_all
  define q2 where "q2 = snd (spsc_pop 4 (snd (spsc_pop 4 q1)))"
  have 2: "spsc_inv 4 q2" "spsc_list 4 q2 = [3]"
    unfolding q2_def using spsc_pop_next [OF spsc_pop_next [OF 1]] by simp_all
  have "spsc_inv 4 (push_each 4 [4, 5] q2)" "spsc_list 4 (push_each 4 [4, 5] q2) = [3, 4, 5]"
    using push_each_fits [OF 2(1), of "[4, 5]"] 2(2) by simp_all
  with pops_list [of 4 "push_each 4 [4, 5] q2"]
  show "let q1 = push_each 4 [1, 2, 3] q; q2 = snd (spsc_pop 4 (snd (spsc_pop 4 q1))); q3 = push_each 4 [4, 5] q2
      in pops 4 [Some 3, Some 4, Some 5, None] q3" by (simp add: q2_def q1_def Let_def)
qed

lemma spsc_is_empty_test: "test_is_empty"
  unfolding test_is_empty_def
proof (rule new_queueI [OF test_caps(2)])
  fix q :: "u32 spsc" assume q: "spsc_inv 8 q" "spsc_list 8 q = []"
  then have 1: "spsc_inv 8 (snd (spsc_push 8 q 1))" "spsc_list 8 (snd (spsc_push 8 q 1)) = [1]"
    using push_each_fits [OF q(1), of "[1]"] by (simp_all add: push_each_def)
  with q spsc_pop_next [OF 1] show "spsc_is_empty q \<and> (let q1 = snd (spsc_push 8 q 1)
      in \<not> spsc_is_empty q1 \<and> spsc_is_empty (snd (spsc_pop 8 q1)))"
    by (simp add: spsc_is_empty_list [of _ 8] Let_def)
qed

lemma spsc_concurrent_test:
  assumes "rqreach 1024 s"
  shows "test_concurrent_spsc s"
  unfolding test_concurrent_spsc_def
proof (intro impI)
  assume p: "prefix (rq_sent s) (map word_of_nat [0..<512])" and l: "length (rq_recv s) = 512"
  have inv: "rq_inv 1024 s" using assms test_caps(3) by (intro rqreach_inv)
  have "length (rq_recv s) \<le> length (rq_sent s)" using rq_positions(2,3) [OF inv] by linarith
  moreover have "length (rq_sent s) \<le> 512" using prefix_length_le [OF p] by simp
  moreover have "rq_sent s = map word_of_nat [0..<512] \<or> length (rq_sent s) < 512"
    using p prefix_length_less [of "rq_sent s" "map word_of_nat [0..<512]"] by (auto simp: strict_prefix_def)
  ultimately have "rq_sent s = map word_of_nat [0..<512]" using l by simp
  moreover have "rq_recv s = map Some (take 512 (rq_sent s))" using rq_invD(5) [OF inv] l by simp
  ultimately show "rq_recv s = map (Some \<circ> word_of_nat) [0..<512]" by simp
qed

section \<open>connection.rs\<close>

definition make_header :: "u16 \<Rightarrow> u8 \<Rightarrow> u32 \<Rightarrow> u16 \<Rightarrow> bytes" where
  "make_header magic opcode uid payload_len =
     (let h0 = replicate 9 0;
          h1 = blit h0 0 (u16_to_le_bytes magic);
          h2 = h1[2 := opcode];
          h3 = blit h2 3 (u32_to_le_bytes uid)
      in blit h3 7 (u16_to_le_bytes payload_len))"

definition set_rbuf :: "connection \<Rightarrow> nat \<Rightarrow> bytes \<Rightarrow> connection" where
  "set_rbuf c i bs = c\<lparr>cn_rbuf := blit (cn_rbuf c) i bs\<rparr>"

definition test_validate_push_header_ok :: "nat \<Rightarrow> (nat \<Rightarrow> u8) \<Rightarrow> bool" where
  "test_validate_push_header_ok n uninit =
     (case validate_header (set_rbuf (connection_new n uninit 0) 0 (make_header MAGIC_WIRE OPCODE_PUSH 42 17)) of
        Inl e \<Rightarrow> False
      | Inr (opcode, uid, plen) \<Rightarrow> opcode = OPCODE_PUSH \<and> uid = 42 \<and> plen = 17)"

definition test_bad_magic_rejected :: "nat \<Rightarrow> (nat \<Rightarrow> u8) \<Rightarrow> bool" where
  "test_bad_magic_rejected n uninit =
     isl (validate_header (set_rbuf (connection_new n uninit 0) 0 (make_header 0xDEAD OPCODE_PUSH 1 17)))"

definition test_unknown_opcode_rejected :: "nat \<Rightarrow> (nat \<Rightarrow> u8) \<Rightarrow> bool" where
  "test_unknown_opcode_rejected n uninit =
     isl (validate_header (set_rbuf (connection_new n uninit 0) 0 (make_header MAGIC_WIRE 0xFF 1 0)))"

definition test_wrong_payload_len_rejected :: "nat \<Rightarrow> (nat \<Rightarrow> u8) \<Rightarrow> bool" where
  "test_wrong_payload_len_rejected n uninit =
     isl (validate_header (set_rbuf (connection_new n uninit 0) 0 (make_header MAGIC_WIRE OPCODE_PUSH 1 0)))"

definition test_del_header_zero_payload :: "nat \<Rightarrow> (nat \<Rightarrow> u8) \<Rightarrow> bool" where
  "test_del_header_zero_payload n uninit =
     (case validate_header (set_rbuf (connection_new n uninit 0) 0 (make_header MAGIC_WIRE OPCODE_DEL 5 0)) of
        Inl e \<Rightarrow> False
      | Inr (opcode, uid, plen) \<Rightarrow> opcode = OPCODE_DEL \<and> uid = 5 \<and> plen = 0)"

definition test_ok_response_layout :: "nat \<Rightarrow> (nat \<Rightarrow> u8) \<Rightarrow> bool" where
  "test_ok_response_layout n uninit =
     (let c = write_ok_response (connection_new n uninit 0)
      in take 2 (cn_wbuf c) = u16_to_le_bytes MAGIC_WIRE \<and> cn_wbuf c ! 2 = STATUS_OK
         \<and> slice 3 5 (cn_wbuf c) = u16_to_le_bytes 0 \<and> cn_wbuf_len c = 5 \<and> cn_state c = WriteResponse)"

definition test_not_found_response_layout :: "nat \<Rightarrow> (nat \<Rightarrow> u8) \<Rightarrow> bool" where
  "test_not_found_response_layout n uninit =
     (let c = write_not_found_response (connection_new n uninit 0)
      in cn_wbuf c ! 2 = STATUS_NOT_FOUND \<and> cn_wbuf_len c = 5)"

definition test_validate_get_count_valid :: "nat \<Rightarrow> (nat \<Rightarrow> u8) \<Rightarrow> bool" where
  "test_validate_get_count_valid n uninit =
     (let c = set_rbuf (connection_new n uninit 0) 0 (make_header MAGIC_WIRE OPCODE_GET 1 2);
          c1 = set_rbuf c 9 (u16_to_le_bytes 1)
      in validate_get_count n c1 = Inr 1)"

definition test_validate_get_count_zero_rejected :: "nat \<Rightarrow> (nat \<Rightarrow> u8) \<Rightarrow> bool" where
  "test_validate_get_count_zero_rejected n uninit =
     isl (validate_get_count n (set_rbuf (connection_new n uninit 0) 9 (u16_to_le_bytes 0)))"

definition test_validate_get_count_over_n_rejected :: "nat \<Rightarrow> (nat \<Rightarrow> u8) \<Rightarrow> bool" where
  "test_validate_get_count_over_n_rejected n uninit =
     isl (validate_get_count n (set_rbuf (connection_new n uninit 0) 9 (u16_to_le_bytes (word_of_nat (n + 1)))))"

lemma make_header_eq:
  "make_header magic opc uid len = u16_to_le_bytes magic @ [opc] @ u32_to_le_bytes uid @ u16_to_le_bytes len"
proof -
  have "blit (replicate 9 0) 0 (u16_to_le_bytes magic) = u16_to_le_bytes magic @ replicate 7 0" by (simp add: blit_def)
  moreover have "(u16_to_le_bytes magic @ replicate 7 0)[2 := opc] = u16_to_le_bytes magic @ [opc] @ replicate 6 0"
    by (simp add: list_update_append numeral_eq_Suc)
  ultimately show ?thesis by (simp add: make_header_def Let_def blit_def)
qed

lemma header_set: "length h = 9 \<Longrightarrow> take 9 (cn_rbuf (set_rbuf (connection_new n uninit fd) 0 h)) = h"
  by (simp add: set_rbuf_def connection_new_def blit_def)

lemma make_header_request: "make_header MAGIC_WIRE opc uid len = request_header opc uid len"
  by (simp add: make_header_eq request_header_def)

lemma connection_header_tests:
  "test_validate_push_header_ok n uninit" "test_unknown_opcode_rejected n uninit"
  "test_wrong_payload_len_rejected n uninit" "test_del_header_zero_payload n uninit"
proof -
  have v: "validate_header (set_rbuf (connection_new n uninit 0) 0 (make_header MAGIC_WIRE opc uid len)) =
      (case expected_payload opc of
        None \<Rightarrow> Inl (Protocol (UnknownOpcode opc))
      | Some e \<Rightarrow> if len = e then Inr (opc, uid, len) else Inl (Protocol (BadPayloadLen opc e len)))" for opc uid len
    unfolding make_header_request by (rule validate_header_request) (simp add: header_set)
  show "test_validate_push_header_ok n uninit" "test_unknown_opcode_rejected n uninit"
    "test_wrong_payload_len_rejected n uninit" "test_del_header_zero_payload n uninit"
    by (simp_all add: test_validate_push_header_ok_def test_unknown_opcode_rejected_def test_wrong_payload_len_rejected_def
        test_del_header_zero_payload_def v expected_payload_def OPCODE_PUSH_def OPCODE_GET_def OPCODE_DEL_def)
qed

lemma connection_magic_test: "test_bad_magic_rejected n uninit"
proof -
  let ?c = "set_rbuf (connection_new n uninit 0) 0 (make_header 0xDEAD OPCODE_PUSH 1 17)"
  have "slice 0 2 (cn_rbuf ?c) = u16_to_le_bytes 0xDEAD"
    by (simp add: set_rbuf_def connection_new_def blit_def slice_def make_header_eq)
  then show ?thesis by (simp add: test_bad_magic_rejected_def validate_header_def MAGIC_WIRE_def)
qed

lemma connection_response_tests: "test_ok_response_layout n uninit" "test_not_found_response_layout n uninit"
proof -
  let ?c = "connection_new n uninit 0"
  have l: "64 \<le> length (cn_wbuf ?c)" using WBUF_SIZE_min [of n] by (simp add: connection_new_def)
  have w: "cn_wbuf (write_response ?c st) = u16_to_le_bytes MAGIC_WIRE @ [st] @ u16_to_le_bytes 0 @ drop 5 (cn_wbuf ?c)" for st
    unfolding write_response_def Let_def using l by (subst wbuf_magic_status) (simp_all add: blit_def)
  show "test_ok_response_layout n uninit" "test_not_found_response_layout n uninit"
    by (simp_all add: test_ok_response_layout_def test_not_found_response_layout_def write_ok_response_def
        write_not_found_response_def w slice_def nth_append Let_def)
qed

lemma connection_count_tests:
  assumes "compiled_n_ok n"
  shows "test_validate_get_count_valid n uninit" and "test_validate_get_count_zero_rejected n uninit"
    and "test_validate_get_count_over_n_rejected n uninit"
proof -
  have f: "get_count_field (set_rbuf c 9 (u16_to_le_bytes k)) = k" if "length (cn_rbuf c) = 32" for c k
    using that by (simp add: get_count_field_def set_rbuf_def blit_def slice_def)
  have l: "length (cn_rbuf (connection_new n uninit 0)) = 32"
    "length (cn_rbuf (set_rbuf (connection_new n uninit 0) 0 (make_header MAGIC_WIRE OPCODE_GET 1 2))) = 32"
    by (simp_all add: connection_new_def set_rbuf_def blit_def make_header_eq RBUF_SIZE_def)
  have n: "unat (word_of_nat (n + 1) :: u16) = n + 1" using assms by (simp add: compiled_n_ok_def unat_of_nat del: of_nat_add of_nat_Suc)
  show "test_validate_get_count_valid n uninit" "test_validate_get_count_zero_rejected n uninit"
    "test_validate_get_count_over_n_rejected n uninit"
    using assms n by (simp_all add: test_validate_get_count_valid_def test_validate_get_count_zero_rejected_def
        test_validate_get_count_over_n_rejected_def get_count_accepted_iff f l compiled_n_ok_def Let_def del: of_nat_add of_nat_Suc)
qed

section \<open>config.rs\<close>

text \<open>
  The file a test writes is given by what parsing it delivers: the keys of the file are present, the
  others absent. \<open>toml_lines\<close> is the table of the four required keys.
\<close>

definition toml_lines :: "u16 \<Rightarrow> u64 \<Rightarrow> string \<Rightarrow> string \<Rightarrow> string option \<Rightarrow> toml_table" where
  "toml_lines mr ttl aof snap fsync =
     \<lparr>tt_max_records = Some mr, tt_ttl_seconds = Some ttl, tt_aof_path = Some aof, tt_snapshot_path = Some snap,
      tt_snapshot_interval = None, tt_listen_port = None, tt_memory_pool_slots = None, tt_aof_fsync = fsync\<rparr>"

definition load_toml :: "nat \<Rightarrow> string \<Rightarrow> toml_table \<Rightarrow> config weloxs_result" where
  "load_toml n path t = config_from_file (\<lambda>p. Inr []) (\<lambda>content. Some t) n path"

definition err_contains :: "(io_error \<Rightarrow> string) \<Rightarrow> string \<Rightarrow> 'a weloxs_result \<Rightarrow> string \<Rightarrow> bool" where
  "err_contains io toml r s = (case r of Inl e \<Rightarrow> sublist s (error_text io toml e) | Inr c \<Rightarrow> False)"

definition valid_toml :: "nat \<Rightarrow> toml_table" where
  "valid_toml n = toml_lines (word_of_nat n) 3600 ''/tmp/test.aof'' ''/tmp'' None"

definition test_parse_valid_config :: "nat \<Rightarrow> string \<Rightarrow> bool" where
  "test_parse_valid_config n path =
     (case load_toml n path (valid_toml n) of
        Inl e \<Rightarrow> False
      | Inr cfg \<Rightarrow> max_records cfg = word_of_nat n \<and> ttl_seconds cfg = 3600 \<and> aof_fsync cfg = Everysec
          \<and> listen_port cfg = PORT_DEFAULT \<and> snapshot_interval cfg = SNAPSHOT_INTERVAL_S)"

definition test_max_records_mismatch_is_error :: "(io_error \<Rightarrow> string) \<Rightarrow> string \<Rightarrow> nat \<Rightarrow> string \<Rightarrow> bool" where
  "test_max_records_mismatch_is_error io toml n path =
     (let bad_n = (if n = 100 then 99 else 100)
      in err_contains io toml (load_toml n path (toml_lines bad_n 1 ''/tmp/a'' ''/tmp'' None)) ''max_records'')"

definition test_zero_ttl_is_error :: "(io_error \<Rightarrow> string) \<Rightarrow> string \<Rightarrow> nat \<Rightarrow> string \<Rightarrow> bool" where
  "test_zero_ttl_is_error io toml n path =
     err_contains io toml (load_toml n path (toml_lines (word_of_nat n) 0 ''/tmp/a'' ''/tmp'' None)) ''ttl_seconds''"

definition test_always_fsync_mode :: "nat \<Rightarrow> string \<Rightarrow> bool" where
  "test_always_fsync_mode n path =
     (case load_toml n path (toml_lines (word_of_nat n) 1 ''/tmp/a'' ''/tmp'' (Some ''always'')) of
        Inl e \<Rightarrow> False
      | Inr cfg \<Rightarrow> aof_fsync cfg = Always)"

definition test_unknown_fsync_is_error :: "nat \<Rightarrow> string \<Rightarrow> bool" where
  "test_unknown_fsync_is_error n path =
     isl (load_toml n path (toml_lines (word_of_nat n) 1 ''/tmp/a'' ''/tmp'' (Some ''maybe'')))"

lemma load_toml_lines:
  "load_toml n path (toml_lines mr ttl aof snap fsync) = config_validate n
     \<lparr>raw_max_records = mr, raw_ttl_seconds = ttl, raw_aof_path = aof, raw_snapshot_path = snap,
      raw_snapshot_interval = SNAPSHOT_INTERVAL_S, raw_listen_port = PORT_DEFAULT,
      raw_memory_pool_slots = MEMORY_POOL_SLOTS_DEFAULT, raw_aof_fsync = or_default fsync ''everysec''\<rparr>"
  by (simp add: load_toml_def toml_lines_def config_from_file_def raw_config_of_def or_default_def
      default_snapshot_interval_def default_listen_port_def default_pool_slots_def default_fsync_def)

lemma config_capacity_tests:
  assumes "compiled_n_ok n"
  shows "test_parse_valid_config n path" and "test_zero_ttl_is_error io toml n path"
    and "test_always_fsync_mode n path" and "test_unknown_fsync_is_error n path"
proof -
  have n: "unat (word_of_nat n :: u16) = n" "\<not> MAX_RECORDS_PROTOCOL_LIMIT < (word_of_nat n :: u16)"
    using assms by (simp_all add: compiled_n_ok_def max_records_limit_le unat_of_nat)
  show "test_parse_valid_config n path" "test_always_fsync_mode n path" "test_unknown_fsync_is_error n path"
    by (simp_all add: test_parse_valid_config_def test_always_fsync_mode_def test_unknown_fsync_is_error_def
        valid_toml_def load_toml_lines config_validate_def n parse_fsync_def or_default_def)
  show "test_zero_ttl_is_error io toml n path"
    by (simp add: test_zero_ttl_is_error_def err_contains_def load_toml_lines config_validate_def n sublist_code)
qed

lemma config_mismatch_test: "test_max_records_mismatch_is_error io toml n path"
  by (simp add: test_max_records_mismatch_is_error_def err_contains_def load_toml_lines config_validate_def sublist_code)

end
