(* ===== verification/Unit_Tests_Files.thy ===== *)
theory Unit_Tests_Files
  imports Unit_Tests Commands Recovery Startup
begin

text \<open>
  The unit tests of the commands, the log, the snapshots, recovery, the TTL worker and the clock,
  transcribed as in \<^verbatim>\<open>Unit_Tests\<close>. The flush thread runs any number of rounds before each operation
  on the log (\<open>js\<close>); a round does not overlap a call of \<^verbatim>\<open>flush_sync\<close> (see \<^verbatim>\<open>Flush_Race\<close> for what happens
  when it does). A log that keeps spinning counts as a failure.
\<close>

section \<open>aof.rs\<close>

definition open_aof :: "(string \<Rightarrow> io_error + int) \<Rightarrow> string \<Rightarrow> fsync_mode \<Rightarrow> (aof_writer \<Rightarrow> bool) \<Rightarrow> bool" where
  "open_aof os_open path mode k =
     (case aof_open os_open sample_file path mode of
        Inl e \<Rightarrow> False
      | Inr (Inl e) \<Rightarrow> False
      | Inr (Inr w) \<Rightarrow> k w)"

definition then_append :: "nat \<Rightarrow> aof_writer \<Rightarrow> log_op \<Rightarrow> (aof_writer \<Rightarrow> bool) \<Rightarrow> bool" where
  "then_append j w x k = (case log_append ((flush_once ^^ j) w) x of None \<Rightarrow> False | Some w' \<Rightarrow> k w')"

text \<open>\<^verbatim>\<open>flush_sync\<close>, \<^verbatim>\<open>shutdown\<close>, and reading the file back.\<close>

definition finish_log :: "nat \<Rightarrow> nat \<Rightarrow> aof_writer \<Rightarrow> bytes" where
  "finish_log i j w = af_bytes (aw_file (aof_shutdown j (flush_sync ((flush_once ^^ i) w))))"

definition aof_make_record :: event_record where
  "aof_make_record = \<lparr>event_type = 1, timestamp = 42, url_hash = 99\<rparr>"

definition test_append_push_creates_file :: "(string \<Rightarrow> io_error + int) \<Rightarrow> string \<Rightarrow> (nat \<Rightarrow> nat) \<Rightarrow> bool" where
  "test_append_push_creates_file os_open path js =
     open_aof os_open path No (\<lambda>w. then_append (js 0) w (LPush 1 aof_make_record 123) (\<lambda>w.
       0 < length (finish_log (js 1) (js 2) w)))"

definition test_del_entry_is_15_bytes :: "(string \<Rightarrow> io_error + int) \<Rightarrow> string \<Rightarrow> (nat \<Rightarrow> nat) \<Rightarrow> bool" where
  "test_del_entry_is_15_bytes os_open path js =
     open_aof os_open path No (\<lambda>w. then_append (js 0) w (LDel 99 456) (\<lambda>w.
       let data = finish_log (js 1) (js 2) w in length data = 15 \<and> data ! 0 = OPCODE_DEL))"

definition test_push_entry_layout :: "(string \<Rightarrow> io_error + int) \<Rightarrow> string \<Rightarrow> (nat \<Rightarrow> nat) \<Rightarrow> bool" where
  "test_push_entry_layout os_open path js =
     open_aof os_open path No (\<lambda>w.
       let r = \<lparr>event_type = 7, timestamp = 0x0102030405060708, url_hash = 0xDEADBEEFCAFEBABE\<rparr>
       in then_append (js 0) w (LPush 0xAABBCCDD r 0x1122334455667788) (\<lambda>w.
            let data = finish_log (js 1) (js 2) w
            in length data = 32 \<and> data ! 0 = OPCODE_PUSH \<and> slice 1 5 data = u32_to_le_bytes 0xAABBCCDD
               \<and> slice 5 13 data = u64_to_le_bytes 0x1122334455667788 \<and> slice 13 15 data = u16_to_le_bytes 17))"

definition test_always_mode_bypasses_ring_buffer ::
  "(string \<Rightarrow> io_error + int) \<Rightarrow> string \<Rightarrow> (nat \<Rightarrow> nat) \<Rightarrow> bool" where
  "test_always_mode_bypasses_ring_buffer os_open path js =
     open_aof os_open path Always (\<lambda>w. then_append (js 0) w (LPush 1 aof_make_record 1) (\<lambda>w.
       then_append (js 1) w (LDel 2 2) (\<lambda>w.
         length (af_bytes (aw_file (aof_shutdown (js 2) w))) = AOF_PUSH_LEN + AOF_HEADER_LEN)))"

definition test_everysec_mode_writes_to_file ::
  "(string \<Rightarrow> io_error + int) \<Rightarrow> string \<Rightarrow> (nat \<Rightarrow> nat) \<Rightarrow> bool" where
  "test_everysec_mode_writes_to_file os_open path js =
     open_aof os_open path Everysec (\<lambda>w. then_append (js 0) w (LPush 1 aof_make_record 1) (\<lambda>w.
       let data = finish_log (js 1) (js 2) w in length data = AOF_PUSH_LEN \<and> data ! 0 = OPCODE_PUSH))"

text \<open>The file can be opened: the path has no zero byte, and the system answers with a descriptor.\<close>

definition opens :: "(string \<Rightarrow> io_error + int) \<Rightarrow> string \<Rightarrow> bool" where
  "opens os_open path \<longleftrightarrow> CHR 0x00 \<notin> set path \<and> (\<exists>fd \<ge> 0. os_open path = Inr fd)"

lemma open_aofI:
  assumes "opens os_open path" and "\<And>w. aof_ok w \<Longrightarrow> aw_stream w = [] \<Longrightarrow> aw_fsync_mode w = mode \<Longrightarrow> k w"
  shows "open_aof os_open path mode k"
proof -
  from assms(1) obtain fd where fd: "CHR 0x00 \<notin> set path" "os_open path = Inr fd" "0 \<le> fd" by (auto simp: opens_def)
  then obtain w where w: "aof_open os_open sample_file path mode = Inr (Inr w)" by (simp add: aof_open_def)
  have "aof_ok w" "aw_stream w = []" "aw_fsync_mode w = mode"
    using aof_open_ok [OF w fd(2,3)] by (simp_all add: sample_file_def)
  with assms(2) w show ?thesis by (simp add: open_aof_def)
qed

lemma append_room:
  assumes "aof_ok w" and "length (aw_stream w) + 32 \<le> AOF_BUF_SIZE"
  shows "\<exists>w'. log_append ((flush_once ^^ j) w) x = Some w' \<and> aof_ok w' \<and> aw_stream w' = aw_stream w @ entry_bytes x"
proof -
  let ?w = "(flush_once ^^ j) w"
  have w: "aof_ok ?w" "aw_stream ?w = aw_stream w" using flush_iter_ok [OF assms(1)] by auto
  have "length (aw_pending ?w) \<le> length (aw_stream ?w)" by (simp add: aw_stream_def)
  then have "length (aw_pending ?w) + length (entry_bytes x) \<le> AOF_BUF_SIZE" "length (entry_bytes x) \<le> AOF_BUF_SIZE"
    using w(2) assms(2) length_entry_le [of x] by simp_all
  with write_entry_progress [of ?w "entry_bytes x"] w obtain w' where "write_entry ?w (entry_bytes x) = Some w'"
    by (auto simp: aof_ok_def)
  with aol.append_stream [OF w(1) \<open>length (entry_bytes x) \<le> AOF_BUF_SIZE\<close>] w(2) show ?thesis by (auto simp: log_append_eq)
qed

lemma then_appendI:
  assumes "aof_ok w" and "length (aw_stream w) + 32 \<le> AOF_BUF_SIZE"
    and "\<And>w'. aof_ok w' \<Longrightarrow> aw_stream w' = aw_stream w @ entry_bytes x \<Longrightarrow> k w'"
  shows "then_append j w x k"
  using append_room [OF assms(1,2), of j x] assms(3) by (auto simp: then_append_def)

lemma flush_sync_ok:
  assumes "aof_ok w"
  shows "aof_ok (flush_sync w)" and "aw_stream (flush_sync w) = aw_stream w"
proof -
  have i: "aw_inv w" "aw_healthy w" using assms by (simp_all add: aof_ok_def)
  note f = flush_sync_healthy [OF i]
  show "aw_stream (flush_sync w) = aw_stream w" using f(1,2) by (simp add: aw_stream_def [of "flush_sync w"] aw_pending_empty)
  show "aof_ok (flush_sync w)"
  proof (cases "aw_head w = aw_tail w")
    case True
    with assms show ?thesis by (simp add: flush_sync_idle)
  next
    case False
    have "aw_fsync_mode (flush_sync w) = aw_fsync_mode w" by (simp add: flush_sync_def Let_def)
    moreover have "af_writes (aw_file (flush_sync w)) = []" "af_syncs (aw_file (flush_sync w)) = []"
      using i(2) by (simp_all add: flush_sync_def Let_def aw_healthy_def write_pending_def fdatasync_def)
    ultimately show ?thesis using f False i by (simp add: aof_ok_def aw_inv_def aw_healthy_def)
  qed
qed

lemma finish_log_stream: "aof_ok w \<Longrightarrow> finish_log i j w = aw_stream w"
  using flush_iter_ok [of w i] flush_sync_ok [of "(flush_once ^^ i) w"] aof_shutdown_ok(1) by (simp add: finish_log_def)

lemma aof_tests:
  assumes "opens os_open path"
  shows "test_append_push_creates_file os_open path js" and "test_del_entry_is_15_bytes os_open path js"
    and "test_push_entry_layout os_open path js" and "test_always_mode_bypasses_ring_buffer os_open path js"
    and "test_everysec_mode_writes_to_file os_open path js"
proof -
  show "test_append_push_creates_file os_open path js"
    unfolding test_append_push_creates_file_def
    by (rule open_aofI [OF assms], rule then_appendI) (simp_all add: AOF_BUF_SIZE_def finish_log_stream)
  show "test_del_entry_is_15_bytes os_open path js"
    unfolding test_del_entry_is_15_bytes_def
    by (rule open_aofI [OF assms], rule then_appendI) (simp_all add: AOF_BUF_SIZE_def finish_log_stream)
  show "test_push_entry_layout os_open path js"
    unfolding test_push_entry_layout_def Let_def
    by (rule open_aofI [OF assms], rule then_appendI) (simp_all add: AOF_BUF_SIZE_def finish_log_stream slice_def)
  show "test_always_mode_bypasses_ring_buffer os_open path js"
    unfolding test_always_mode_bypasses_ring_buffer_def
    by (rule open_aofI [OF assms], rule then_appendI, simp_all add: AOF_BUF_SIZE_def, rule then_appendI)
      (simp_all add: AOF_BUF_SIZE_def aof_shutdown_ok AOF_PUSH_LEN_def AOF_HEADER_LEN_def)
  show "test_everysec_mode_writes_to_file os_open path js"
    unfolding test_everysec_mode_writes_to_file_def
    by (rule open_aofI [OF assms], rule then_appendI)
      (simp_all add: AOF_BUF_SIZE_def finish_log_stream AOF_PUSH_LEN_def AOF_HEADER_LEN_def)
qed

section \<open>commands.rs\<close>

definition make_push_conn :: "nat \<Rightarrow> (nat \<Rightarrow> u8) \<Rightarrow> u32 \<Rightarrow> event_record \<Rightarrow> connection" where
  "make_push_conn n uninit uid r =
     (let c0 = connection_new n uninit 0;
          c1 = set_rbuf c0 0 (u16_to_le_bytes MAGIC_WIRE);
          c2 = set_rbuf c1 2 [OPCODE_PUSH];
          c3 = set_rbuf c2 3 (u32_to_le_bytes uid);
          c4 = set_rbuf c3 7 (u16_to_le_bytes 17)
      in set_rbuf c4 9 (record_to_bytes r))"

definition make_get_conn :: "nat \<Rightarrow> (nat \<Rightarrow> u8) \<Rightarrow> u32 \<Rightarrow> u16 \<Rightarrow> connection" where
  "make_get_conn n uninit uid count =
     (let c0 = connection_new n uninit 0;
          c1 = set_rbuf c0 0 (u16_to_le_bytes MAGIC_WIRE);
          c2 = set_rbuf c1 2 [OPCODE_GET];
          c3 = set_rbuf c2 3 (u32_to_le_bytes uid);
          c4 = set_rbuf c3 7 (u16_to_le_bytes 2)
      in set_rbuf c4 9 (u16_to_le_bytes count))"

definition make_del_conn :: "nat \<Rightarrow> (nat \<Rightarrow> u8) \<Rightarrow> u32 \<Rightarrow> connection" where
  "make_del_conn n uninit uid = set_rbuf (connection_new n uninit 0) 3 (u32_to_le_bytes uid)"

definition then_push ::
  "u64 \<Rightarrow> nat \<Rightarrow> connection \<Rightarrow> store \<Rightarrow> aof_writer \<Rightarrow> (connection \<Rightarrow> store \<Rightarrow> aof_writer \<Rightarrow> bool) \<Rightarrow> bool" where
  "then_push now j c s w k =
     (case push_command now c s ((flush_once ^^ j) w) of
        Done (c', s', w') \<Rightarrow> k c' s' w'
      | Blocked \<Rightarrow> False
      | Crashed e w' \<Rightarrow> False)"

definition then_del ::
  "u64 \<Rightarrow> nat \<Rightarrow> connection \<Rightarrow> store \<Rightarrow> aof_writer \<Rightarrow> (connection \<Rightarrow> store \<Rightarrow> aof_writer \<Rightarrow> bool) \<Rightarrow> bool" where
  "then_del now j c s w k =
     (case del_command now c s ((flush_once ^^ j) w) of
        Done (c', s', w') \<Rightarrow> k c' s' w'
      | Blocked \<Rightarrow> False
      | Crashed e w' \<Rightarrow> False)"

definition then_get :: "connection \<Rightarrow> store \<Rightarrow> (connection \<Rightarrow> bool) \<Rightarrow> bool" where
  "then_get c s k = (case get_command c s of None \<Rightarrow> False | Some c' \<Rightarrow> k c')"

text \<open>What a command test gets from its environment: the clock, the rounds of the flush thread, the file.\<close>

definition test_push_creates_entry_responds_ok ::
  "(nat \<Rightarrow> u64) \<Rightarrow> (nat \<Rightarrow> nat) \<Rightarrow> (string \<Rightarrow> io_error + int) \<Rightarrow> string \<Rightarrow> (nat \<Rightarrow> u8) \<Rightarrow> nat \<Rightarrow> addr \<Rightarrow> mem \<Rightarrow> bool" where
  "test_push_creates_entry_responds_ok now js os_open path uninit n base m =
     new_store n base m (\<lambda>s. open_aof os_open path No (\<lambda>w.
       let r = \<lparr>event_type = 5, timestamp = 1000, url_hash = 2000\<rparr>; conn = make_push_conn n uninit 99 r
       in then_push (now 0) (js 0) conn s w (\<lambda>conn s w. cn_wbuf conn ! 2 = STATUS_OK \<and> store_get s 99 \<noteq> None)))"

definition test_get_not_found_for_missing_uid :: "(nat \<Rightarrow> u8) \<Rightarrow> nat \<Rightarrow> addr \<Rightarrow> mem \<Rightarrow> bool" where
  "test_get_not_found_for_missing_uid uninit n base m =
     new_store n base m (\<lambda>s. then_get (make_get_conn n uninit 404 1) s (\<lambda>conn. cn_wbuf conn ! 2 = STATUS_NOT_FOUND))"

definition test_push_then_get_newest_first ::
  "(nat \<Rightarrow> u64) \<Rightarrow> (nat \<Rightarrow> nat) \<Rightarrow> (string \<Rightarrow> io_error + int) \<Rightarrow> string \<Rightarrow> (nat \<Rightarrow> u8) \<Rightarrow> nat \<Rightarrow> addr \<Rightarrow> mem \<Rightarrow> bool" where
  "test_push_then_get_newest_first now js os_open path uninit n base m =
     new_store n base m (\<lambda>s. open_aof os_open path No (\<lambda>w.
       then_push (now 0) (js 0) (make_push_conn n uninit 1 (store_make_record 10)) s w (\<lambda>_ s w.
       then_push (now 1) (js 1) (make_push_conn n uninit 1 (store_make_record 20)) s w (\<lambda>_ s w.
       then_push (now 2) (js 2) (make_push_conn n uninit 1 (store_make_record 30)) s w (\<lambda>_ s w.
       then_get (make_get_conn n uninit 1 3) s (\<lambda>conn.
         cn_wbuf conn ! 2 = STATUS_OK \<and> u16_from_le_bytes (slice 5 7 (cn_wbuf conn)) = 3
         \<and> timestamp (record_from_bytes (slice 7 24 (cn_wbuf conn))) = 30))))))"

definition test_del_removes_entry_and_responds_ok ::
  "(nat \<Rightarrow> u64) \<Rightarrow> (nat \<Rightarrow> nat) \<Rightarrow> (string \<Rightarrow> io_error + int) \<Rightarrow> string \<Rightarrow> (nat \<Rightarrow> u8) \<Rightarrow> nat \<Rightarrow> addr \<Rightarrow> mem \<Rightarrow> bool" where
  "test_del_removes_entry_and_responds_ok now js os_open path uninit n base m =
     new_store n base m (\<lambda>s. open_aof os_open path No (\<lambda>w.
       then_push (now 0) (js 0) (make_push_conn n uninit 5 default_record) s w (\<lambda>_ s w.
         store_get s 5 \<noteq> None \<and> then_del (now 1) (js 1) (make_del_conn n uninit 5) s w (\<lambda>conn s w.
           cn_wbuf conn ! 2 = STATUS_OK \<and> store_get s 5 = None))))"

definition test_del_nonexistent_is_ok ::
  "(nat \<Rightarrow> u64) \<Rightarrow> (nat \<Rightarrow> nat) \<Rightarrow> (string \<Rightarrow> io_error + int) \<Rightarrow> string \<Rightarrow> (nat \<Rightarrow> u8) \<Rightarrow> nat \<Rightarrow> addr \<Rightarrow> mem \<Rightarrow> bool" where
  "test_del_nonexistent_is_ok now js os_open path uninit n base m =
     new_store n base m (\<lambda>s. open_aof os_open path No (\<lambda>w.
       then_del (now 0) (js 0) (make_del_conn n uninit 999) s w (\<lambda>conn s w. cn_wbuf conn ! 2 = STATUS_OK)))"

lemma set_rbuf_append:
  "cn_rbuf c = a @ b \<Longrightarrow> length a = i \<Longrightarrow> length bs \<le> length b \<Longrightarrow>
   cn_rbuf (set_rbuf c i bs) = a @ bs @ drop (length bs) b"
  by (simp add: set_rbuf_def blit_def)

lemma set_rbuf_sizes [simp]:
  "i + length bs \<le> length (cn_rbuf c) \<Longrightarrow> conn_sizes n (set_rbuf c i bs) \<longleftrightarrow> conn_sizes n c"
  "cn_wbuf (set_rbuf c i bs) = cn_wbuf c"
  by (simp_all add: conn_sizes_def set_rbuf_def blit_def)

lemma new_conn_sizes: "conn_sizes n (connection_new n uninit fd)" "length (cn_rbuf (connection_new n uninit fd)) = 32"
  by (simp_all add: conn_sizes_def connection_new_def RBUF_SIZE_def)

lemma length_set_rbuf [simp]:
  "i + length bs \<le> length (cn_rbuf c) \<Longrightarrow> length (cn_rbuf (set_rbuf c i bs)) = length (cn_rbuf c)"
  by (simp add: set_rbuf_def blit_def)

lemma slice_set_rbuf:
  "i + length bs \<le> length (cn_rbuf c) \<Longrightarrow> slice i (i + length bs) (cn_rbuf (set_rbuf c i bs)) = bs"
  by (simp add: set_rbuf_def blit_def slice_def)

lemma slice_set_rbuf_before:
  "i + length bs \<le> length (cn_rbuf c) \<Longrightarrow> b \<le> i \<Longrightarrow> slice a b (cn_rbuf (set_rbuf c i bs)) = slice a b (cn_rbuf c)"
  by (simp add: set_rbuf_def blit_def slice_def drop_take)

lemma make_conn_fields:
  "header_user_id (make_push_conn n uninit uid r) = uid" "slice 9 26 (cn_rbuf (make_push_conn n uninit uid r)) = record_to_bytes r"
  "header_user_id (make_get_conn n uninit uid count) = uid" "get_count_field (make_get_conn n uninit uid count) = count"
  "header_user_id (make_del_conn n uninit uid) = uid"
  "conn_sizes n (make_push_conn n uninit uid r)" "conn_sizes n (make_get_conn n uninit uid count)"
  "conn_sizes n (make_del_conn n uninit uid)"
  using slice_set_rbuf [of 3 "u32_to_le_bytes uid"] slice_set_rbuf [of 9 "record_to_bytes r"]
    slice_set_rbuf [of 9 "u16_to_le_bytes count"]
  by (simp_all add: make_push_conn_def make_get_conn_def make_del_conn_def Let_def header_user_id_def get_count_field_def
      slice_set_rbuf_before new_conn_sizes)

lemma ok_response_status: "conn_sizes n c \<Longrightarrow> cn_wbuf (write_ok_response c) ! 2 = STATUS_OK"
  unfolding write_ok_response_def write_response_def Let_def conn_sizes_def
  using WBUF_SIZE_min [of n] by (subst wbuf_magic_status) (simp_all add: blit_def nth_append)

lemma then_pushI:
  assumes "aof_ok w" and "length (aw_stream w) + 32 \<le> AOF_BUF_SIZE" and "store_inv s"
    and "header_user_id c \<in> dom (st_map s) \<or> card (dom (st_map s)) < store_slots s"
    and "\<And>s' w'. aof_ok w' \<Longrightarrow> length (aw_stream w') = length (aw_stream w) + 32 \<Longrightarrow> store_inv s' \<Longrightarrow>
      store_view s' = abs_push (unat (st_capacity s)) (store_view s) (header_user_id c)
        (record_from_bytes (slice 9 26 (cn_rbuf c))) now \<Longrightarrow>
      st_capacity s' = st_capacity s \<Longrightarrow> store_slots s' = store_slots s \<Longrightarrow> k (write_ok_response c) s' w'"
  shows "then_push now j c s w k"
proof -
  let ?uid = "header_user_id c" and ?r = "record_from_bytes (slice 9 26 (cn_rbuf c))"
  have ok: "aof_ok ((flush_once ^^ j) w)" using flush_iter_ok [OF assms(1)] by simp
  from append_room [OF assms(1,2), of j "LPush ?uid ?r now"] obtain w' where
    w': "append_push ((flush_once ^^ j) w) ?uid ?r now = Some w'" "aof_ok w'"
      "aw_stream w' = aw_stream w @ entry_bytes (LPush ?uid ?r now)" by (auto simp: log_append_def)
  have "length (aw_stream w') = length (aw_stream w) + 32"
    unfolding w'(3) by (simp only: length_append length_entry_bytes) simp
  with push_command_done [OF ok w'(1) assms(3)] assms(4,5) w'(2) show ?thesis by (auto simp: then_push_def)
qed

lemma then_delI:
  assumes "aof_ok w" and "length (aw_stream w) + 32 \<le> AOF_BUF_SIZE" and "store_inv s"
    and "\<And>s' w'. aof_ok w' \<Longrightarrow> store_inv s' \<Longrightarrow> store_view s' = (store_view s)(header_user_id c := None) \<Longrightarrow>
      k (write_ok_response c) s' w'"
  shows "then_del now j c s w k"
proof -
  have ok: "aof_ok ((flush_once ^^ j) w)" using flush_iter_ok [OF assms(1)] by simp
  from append_room [OF assms(1,2), of j "LDel (header_user_id c) now"] obtain w' where
    "append_del ((flush_once ^^ j) w) (header_user_id c) now = Some w'" by (auto simp: log_append_def)
  with del_command_effect [OF ok assms(3), where now = now and c = c] assms(4) show ?thesis
    by (auto simp: then_del_def del_command_def Let_def)
qed

lemma store_get_view: "store_get s uid = None \<longleftrightarrow> store_view s uid = None"
  by (simp add: store_get_def store_view_def)

lemma command_tests:
  assumes ok: "compiled_n_ok n" "region_ok base (sa_slot_size (word_of_nat n)) 64" and op: "opens os_open path"
  shows "test_push_creates_entry_responds_ok now js os_open path uninit n base m"
    and "test_get_not_found_for_missing_uid uninit n base m"
    and "test_del_removes_entry_and_responds_ok now js os_open path uninit n base m"
    and "test_del_nonexistent_is_ok now js os_open path uninit n base m"
proof -
  have view: "store_get s uid \<noteq> None" if "store_view s = abs_push cap A uid r ts" for s uid cap A r ts
    using that by (simp add: store_get_view abs_push_def)
  show "test_push_creates_entry_responds_ok now js os_open path uninit n base m"
    unfolding test_push_creates_entry_responds_ok_def Let_def
    by (rule new_storeI [OF ok], rule open_aofI [OF op], rule then_pushI)
      (simp_all add: AOF_BUF_SIZE_def make_conn_fields ok_response_status [OF make_conn_fields(6)] view)
  show "test_get_not_found_for_missing_uid uninit n base m"
    unfolding test_get_not_found_for_missing_uid_def
  proof (rule new_storeI [OF ok])
    fix s :: store assume "st_map s = Map.empty"
    then have "get_command (make_get_conn n uninit 404 1) s = Some (write_not_found_response (make_get_conn n uninit 404 1))"
      by (simp add: get_command_def store_get_def)
    moreover have "cn_wbuf (write_not_found_response (make_get_conn n uninit 404 1)) ! 2 = STATUS_NOT_FOUND"
      unfolding write_not_found_response_def write_response_def Let_def
      using make_conn_fields(7) [of n uninit 404 1] WBUF_SIZE_min [of n]
      by (subst wbuf_magic_status) (simp_all add: blit_def nth_append conn_sizes_def)
    ultimately show "then_get (make_get_conn n uninit 404 1) s (\<lambda>conn. cn_wbuf conn ! 2 = STATUS_NOT_FOUND)"
      by (simp add: then_get_def)
  qed
  show "test_del_removes_entry_and_responds_ok now js os_open path uninit n base m"
    unfolding test_del_removes_entry_and_responds_ok_def
    by (rule new_storeI [OF ok], rule open_aofI [OF op])
      ((rule then_pushI then_delI conjI | simp add: AOF_BUF_SIZE_def make_conn_fields view
          ok_response_status [OF make_conn_fields(8)] | simp add: store_get_view)+)
  show "test_del_nonexistent_is_ok now js os_open path uninit n base m"
    unfolding test_del_nonexistent_is_ok_def
    by (rule new_storeI [OF ok], rule open_aofI [OF op], rule then_delI)
      (simp_all add: AOF_BUF_SIZE_def ok_response_status [OF make_conn_fields(8)])
qed

lemma get_three_records:
  assumes "compiled_n_ok n" and "store_inv s" and "st_capacity s = word_of_nat n"
    and "store_view s 1 = Some ([r1, r2, r3], ts)"
  shows "then_get (make_get_conn n uninit 1 3) s (\<lambda>conn. cn_wbuf conn ! 2 = STATUS_OK
     \<and> u16_from_le_bytes (slice 5 7 (cn_wbuf conn)) = 3 \<and> record_from_bytes (slice 7 24 (cn_wbuf conn)) = r1)"
proof -
  let ?c = "make_get_conn n uninit 1 3"
  obtain b where b: "st_map s 1 = Some b" "rb_contents (st_mem s) b = [r1, r2, r3]" using assms(4) store_view_Some by blast
  have b1: "st_map s (header_user_id ?c) = Some b" using b(1) by (simp add: make_conn_fields)
  have rs: "take (unat (get_count_field ?c)) (rb_contents (st_mem s) b) = [r1, r2, r3]" by (simp add: make_conn_fields b(2))
  have "7 + 3 * 17 \<le> length (cn_wbuf ?c)"
    using get_command_room [OF assms(2,3,1) make_conn_fields(7) b(1), of 3] by (simp add: b(2))
  with get_command_found [OF b1] rs show ?thesis
    by (simp add: then_get_def nth_append slice_def records_as_bytes_def)
qed

lemma three_pushes_view:
  assumes "3 \<le> n" and "store_view s = abs_push n (abs_push n (abs_push n Map.empty uid r1 t1) uid r2 t2) uid r3 t3"
  shows "store_view s uid = Some ([r3, r2, r1], t3)"
  using assms by (simp add: abs_push_def hist_records_def numeral_3_eq_3)

text \<open>This test needs a program compiled for at least three records; the build accepts fewer.\<close>

lemma command_newest_test:
  assumes ok: "compiled_n_ok n" "region_ok base (sa_slot_size (word_of_nat n)) 64" and op: "opens os_open path"
    and n: "3 \<le> n"
  shows "test_push_then_get_newest_first now js os_open path uninit n base m"
  unfolding test_push_then_get_newest_first_def
proof (rule new_storeI [OF ok], rule open_aofI [OF op])
  fix s :: store and w
  assume s: "store_inv s" "store_view s = Map.empty" "st_map s = Map.empty" "store_slots s = 64" "st_capacity s = word_of_nat n"
    and w: "aof_ok w" "aw_stream w = []"
  have u: "unat (word_of_nat n :: u16) = n" using compiled_n_u16 [OF ok(1)] .
  have dom: "uid \<in> dom (st_map s)" if "store_view s = abs_push cap A uid r ts" for s uid cap A r ts
    using that by (simp add: dom_store_view [symmetric] abs_push_def)
  have get: "then_get (make_get_conn n uninit 1 3) s' (\<lambda>conn. cn_wbuf conn ! 2 = STATUS_OK
      \<and> u16_from_le_bytes (slice 5 7 (cn_wbuf conn)) = 3 \<and> timestamp (record_from_bytes (slice 7 24 (cn_wbuf conn))) = 30)"
    if "store_inv s'" "st_capacity s' = word_of_nat n" "store_view s' = abs_push n (abs_push n (abs_push n Map.empty 1
      (store_make_record 10) ta) 1 (store_make_record 20) tb) 1 (store_make_record 30) tc" for s' ta tb tc
    using get_three_records [OF ok(1) that(1,2) three_pushes_view [OF n that(3)], of uninit]
    by (auto simp: then_get_def store_make_record_def split: option.splits)
  show "then_push (now 0) (js 0) (make_push_conn n uninit 1 (store_make_record 10)) s w (\<lambda>_ s w.
       then_push (now 1) (js 1) (make_push_conn n uninit 1 (store_make_record 20)) s w (\<lambda>_ s w.
       then_push (now 2) (js 2) (make_push_conn n uninit 1 (store_make_record 30)) s w (\<lambda>_ s w.
       then_get (make_get_conn n uninit 1 3) s (\<lambda>conn. cn_wbuf conn ! 2 = STATUS_OK
         \<and> u16_from_le_bytes (slice 5 7 (cn_wbuf conn)) = 3
         \<and> timestamp (record_from_bytes (slice 7 24 (cn_wbuf conn))) = 30))))"
    by ((rule then_pushI get [where ta = "now 0" and tb = "now 1" and tc = "now 2"]
        | simp add: s w make_conn_fields AOF_BUF_SIZE_def dom u)+)
qed

section \<open>snapshot.rs\<close>

definition snap_make_record :: "u64 \<Rightarrow> event_record" where
  "snap_make_record ts = \<lparr>event_type = 1, timestamp = ts, url_hash = ts * 2\<rparr>"

text \<open>A dump of the store in an order its hash map may list the keys in.\<close>

definition then_dump :: "u32 list \<Rightarrow> store \<Rightarrow> string \<Rightarrow> u64 \<Rightarrow> fs \<Rightarrow> (fs \<Rightarrow> bool) \<Rightarrow> bool" where
  "then_dump order s dir ts fs k \<longleftrightarrow>
     (hash_order (st_map s) order \<longrightarrow> (case dump_sync good_env order s dir ts fs of Inl e \<Rightarrow> False | Inr fs' \<Rightarrow> k fs'))"

definition then_load :: "fs \<Rightarrow> string \<Rightarrow> store \<Rightarrow> (u64 \<Rightarrow> store \<Rightarrow> bool) \<Rightarrow> bool" where
  "then_load fs dir s k =
     (case snapshot_load (fs_read fs) dir s of
        Inl e \<Rightarrow> False
      | Inr (Inl e) \<Rightarrow> False
      | Inr (Inr (ts, s')) \<Rightarrow> k ts s')"

definition test_snapshot_write_and_load_roundtrip ::
  "u64 \<Rightarrow> u32 list \<Rightarrow> string \<Rightarrow> nat \<Rightarrow> addr \<Rightarrow> mem \<Rightarrow> addr \<Rightarrow> mem \<Rightarrow> bool" where
  "test_snapshot_write_and_load_roundtrip ts order dir n base m base2 m2 =
     new_store n base m (\<lambda>s. then_create s 10 (\<lambda>s.
       let s1 = buf_push s 10 (snap_make_record 100) 1000;
           s2 = buf_push s1 10 (snap_make_record 200) 2000
       in then_dump order s2 dir ts Map.empty (\<lambda>fs.
         new_store n base2 m2 (\<lambda>t. then_load fs dir t (\<lambda>loaded_ts t.
           loaded_ts = ts \<and> store_len t = 1 \<and>
           (case store_get t 10 of
              None \<Rightarrow> False
            | Some b \<Rightarrow> expect_last (st_mem t, b) 2 4 (\<lambda>k out.
                k = 2 \<and> timestamp (out ! 0) = 200 \<and> timestamp (out ! 1) = 100) \<and> rb_last_write_ts b = 2000))))))"

definition test_load_nonexistent_returns_zero :: "string \<Rightarrow> nat \<Rightarrow> addr \<Rightarrow> mem \<Rightarrow> bool" where
  "test_load_nonexistent_returns_zero dir n base m =
     new_store n base m (\<lambda>s. then_load Map.empty dir s (\<lambda>ts s. ts = 0 \<and> store_len s = 0))"

definition test_snapshot_oldest_first_order ::
  "u32 list \<Rightarrow> string \<Rightarrow> nat \<Rightarrow> addr \<Rightarrow> mem \<Rightarrow> addr \<Rightarrow> mem \<Rightarrow> bool" where
  "test_snapshot_oldest_first_order order dir n base m base2 m2 =
     new_store n base m (\<lambda>s. then_create s 1 (\<lambda>s.
       let s1 = buf_push s 1 (snap_make_record 10) 10;
           s2 = buf_push s1 1 (snap_make_record 20) 20;
           s3 = buf_push s2 1 (snap_make_record 30) 30
       in then_dump order s3 dir 999 Map.empty (\<lambda>fs.
         new_store n base2 m2 (\<lambda>t. then_load fs dir t (\<lambda>_ t.
           case store_get t 1 of
              None \<Rightarrow> False
            | Some b \<Rightarrow> expect_last (st_mem t, b) 3 3 (\<lambda>_ out.
                timestamp (out ! 0) = 30 \<and> timestamp (out ! 2) = 10))))))"

text \<open>A sequence of pushes through the pointer \<^verbatim>\<open>get_or_create\<close> returned.\<close>

lemma buf_push_present:
  assumes "store_inv s" and "uid \<in> dom (st_map s)"
  shows "store_inv (buf_push s uid r ts)" and "uid \<in> dom (st_map (buf_push s uid r ts))"
    and "store_view (buf_push s uid r ts) = abs_push (unat (st_capacity s)) (store_view s) uid r ts"
    and "st_capacity (buf_push s uid r ts) = st_capacity s"
proof -
  obtain b where b: "st_map s uid = Some b" using assms(2) by auto
  note p = buf_push_ok [OF assms(1) b, of r ts]
  show "store_inv (buf_push s uid r ts)" "st_capacity (buf_push s uid r ts) = st_capacity s"
    "store_view (buf_push s uid r ts) = abs_push (unat (st_capacity s)) (store_view s) uid r ts" using p by auto
  then have "uid \<in> dom (store_view (buf_push s uid r ts))" by (simp add: abs_push_def)
  then show "uid \<in> dom (st_map (buf_push s uid r ts))" by simp
qed

text \<open>A new store that one user has pushed to.\<close>

lemma one_user_storeI:
  assumes ok: "compiled_n_ok n" "region_ok base (sa_slot_size (word_of_nat n)) 64"
    and "\<And>s. store_inv s \<Longrightarrow> uid \<in> dom (st_map s) \<Longrightarrow> store_view s = [uid \<mapsto> ([], 0)] \<Longrightarrow>
      unat (st_capacity s) = n \<Longrightarrow> k s"
  shows "new_store n base m (\<lambda>s. then_create s uid k)"
  using compiled_n_u16 [OF ok(1)]
  by (intro new_storeI [OF ok] then_createI) (simp_all add: assms(3))

lemma then_dumpI:
  assumes "store_inv s"
    and "hash_order (store_view s) order \<Longrightarrow>
      k (fs(bin_path dir \<mapsto> snapshot_bytes ts order (store_view s), tmp_path dir := None))"
  shows "then_dump order s dir ts fs k"
  unfolding then_dump_def
proof
  assume h: "hash_order (st_map s) order"
  then have "hash_order (store_view s) order" by (simp add: hash_order_def)
  with assms(2) dump_to_path_ok [OF assms(1) h good_env_ok, of dir ts fs]
  show "case dump_sync good_env order s dir ts fs of Inl e \<Rightarrow> False | Inr fs' \<Rightarrow> k fs'" by (simp add: dump_sync_def split: unit.splits)
qed

lemma hash_order_one: "hash_order [uid \<mapsto> h] order \<longleftrightarrow> order = [uid]"
proof
  assume "hash_order [uid \<mapsto> h] order"
  then have "set order = {uid}" "distinct order" by (auto simp: hash_order_def)
  then show "order = [uid]" by (cases order; cases "tl order") auto
qed (simp add: hash_order_def)

lemma then_loadI:
  assumes "store_inv s" and "store_view s = Map.empty" and "store_slots s = 64"
    and "fs (bin_path dir) = Some (snapshot_bytes ts [uid] [uid \<mapsto> h])" and "histories_ok (unat (st_capacity s)) [uid \<mapsto> h]"
    and "\<And>s'. store_inv s' \<Longrightarrow> store_view s' = [uid \<mapsto> h] \<Longrightarrow> k ts s'"
  shows "then_load fs dir s k"
  using parse_snapshot_roundtrip [OF assms(1,2) _ assms(5), of "[uid]" ts "[]"] assms(3,4,6)
  by (auto simp: then_load_def snapshot_load_def fs_read_def hash_order_one)

lemma store_len_view: "store_len s = card (dom (store_view s))"
  by (simp add: store_len_def)

lemma snapshot_missing_test:
  assumes ok: "compiled_n_ok n" "region_ok base (sa_slot_size (word_of_nat n)) 64"
  shows "test_load_nonexistent_returns_zero dir n base m"
  unfolding test_load_nonexistent_returns_zero_def
  by (rule new_storeI [OF ok]) (simp add: then_load_def snapshot_load_def fs_read_def store_len_def)

text \<open>The next two tests need a program compiled for at least two or three records.\<close>

lemma snapshot_roundtrip_test:
  assumes ok: "compiled_n_ok n" "region_ok base (sa_slot_size (word_of_nat n)) 64"
      "region_ok base2 (sa_slot_size (word_of_nat n)) 64" and n: "2 \<le> n"
  shows "test_snapshot_write_and_load_roundtrip ts order dir n base m base2 m2"
  unfolding test_snapshot_write_and_load_roundtrip_def
proof (rule one_user_storeI [OF ok(1,2)])
  fix s assume s: "store_inv s" "10 \<in> dom (st_map s)" "store_view s = [10 \<mapsto> ([], 0)]" "unat (st_capacity s) = n"
  define s2 where "s2 = buf_push (buf_push s 10 (snap_make_record 100) 1000) 10 (snap_make_record 200) 2000"
  let ?h = "([snap_make_record 200, snap_make_record 100], 2000)"
  note p = buf_push_present [OF s(1,2), of "snap_make_record 100" 1000]
  note q = buf_push_present [OF p(1,2), of "snap_make_record 200" 2000]
  have s2: "store_inv s2" "store_view s2 = [10 \<mapsto> ?h]"
    using p q n s(3,4) by (simp_all add: s2_def abs_push_def hist_records_def numeral_2_eq_2)
  have "then_dump order s2 dir ts Map.empty (\<lambda>fs. new_store n base2 m2 (\<lambda>t. then_load fs dir t (\<lambda>loaded_ts t.
      loaded_ts = ts \<and> store_len t = 1 \<and> (case store_get t 10 of None \<Rightarrow> False
        | Some b \<Rightarrow> expect_last (st_mem t, b) 2 4 (\<lambda>k out. k = 2 \<and> timestamp (out ! 0) = 200 \<and> timestamp (out ! 1) = 100)
            \<and> rb_last_write_ts b = 2000))))"
  proof (rule then_dumpI [OF s2(1)], rule new_storeI [OF ok(1,3)], rule then_loadI [where uid = 10 and h = ?h])
    fix t :: store assume t: "store_inv t" "store_view t = [10 \<mapsto> ?h]"
    then obtain b where "st_map t 10 = Some b" "rb_contents (st_mem t) b = fst ?h" "rb_last_write_ts b = 2000"
      using store_view_Some [of t 10 "fst ?h" 2000] by auto
    with t show "ts = ts \<and> store_len t = 1 \<and> (case store_get t 10 of None \<Rightarrow> False
        | Some b \<Rightarrow> expect_last (st_mem t, b) 2 4 (\<lambda>k out. k = 2 \<and> timestamp (out ! 0) = 200 \<and> timestamp (out ! 1) = 100)
            \<and> rb_last_write_ts b = 2000)"
      by (simp add: store_get_def store_len_view expect_last_view snap_make_record_def)
  qed (use n s2(2) compiled_n_u16 [OF ok(1)] in \<open>simp_all add: hash_order_one histories_ok_def\<close>)
  then show "let s1 = buf_push s 10 (snap_make_record 100) 1000; s2 = buf_push s1 10 (snap_make_record 200) 2000
      in then_dump order s2 dir ts Map.empty (\<lambda>fs. new_store n base2 m2 (\<lambda>t. then_load fs dir t (\<lambda>loaded_ts t.
      loaded_ts = ts \<and> store_len t = 1 \<and> (case store_get t 10 of None \<Rightarrow> False
        | Some b \<Rightarrow> expect_last (st_mem t, b) 2 4 (\<lambda>k out. k = 2 \<and> timestamp (out ! 0) = 200 \<and> timestamp (out ! 1) = 100)
            \<and> rb_last_write_ts b = 2000))))" by (simp add: s2_def)
qed

lemma snapshot_order_test:
  assumes ok: "compiled_n_ok n" "region_ok base (sa_slot_size (word_of_nat n)) 64"
      "region_ok base2 (sa_slot_size (word_of_nat n)) 64" and n: "3 \<le> n"
  shows "test_snapshot_oldest_first_order order dir n base m base2 m2"
  unfolding test_snapshot_oldest_first_order_def Let_def
proof (rule one_user_storeI [OF ok(1,2)])
  fix s assume s: "store_inv s" "1 \<in> dom (st_map s)" "store_view s = [1 \<mapsto> ([], 0)]" "unat (st_capacity s) = n"
  let ?s3 = "buf_push (buf_push (buf_push s 1 (snap_make_record 10) 10) 1 (snap_make_record 20) 20) 1 (snap_make_record 30) 30"
  let ?h = "([snap_make_record 30, snap_make_record 20, snap_make_record 10], 30)"
  note p = buf_push_present [OF s(1,2), of "snap_make_record 10" 10]
  note q = buf_push_present [OF p(1,2), of "snap_make_record 20" 20]
  note r = buf_push_present [OF q(1,2), of "snap_make_record 30" 30]
  have s3: "store_view ?s3 = [1 \<mapsto> ?h]"
    using p q r n s(3,4) by (simp add: abs_push_def hist_records_def numeral_3_eq_3)
  show "then_dump order ?s3 dir 999 Map.empty (\<lambda>fs. new_store n base2 m2 (\<lambda>t. then_load fs dir t (\<lambda>_ t.
      case store_get t 1 of None \<Rightarrow> False
      | Some b \<Rightarrow> expect_last (st_mem t, b) 3 3 (\<lambda>_ out. timestamp (out ! 0) = 30 \<and> timestamp (out ! 2) = 10))))"
  proof (rule then_dumpI [OF r(1)], rule new_storeI [OF ok(1,3)], rule then_loadI [where uid = 1 and h = ?h])
    fix t :: store assume t: "store_inv t" "store_view t = [1 \<mapsto> ?h]"
    then obtain b where "st_map t 1 = Some b" "rb_contents (st_mem t) b = fst ?h"
      using store_view_Some [of t 1 "fst ?h" 30] by auto
    then show "case store_get t 1 of None \<Rightarrow> False
      | Some b \<Rightarrow> expect_last (st_mem t, b) 3 3 (\<lambda>_ out. timestamp (out ! 0) = 30 \<and> timestamp (out ! 2) = 10)"
      by (simp add: store_get_def expect_last_view snap_make_record_def)
  qed (use n s3 compiled_n_u16 [OF ok(1)] in \<open>simp_all add: hash_order_one histories_ok_def\<close>)
qed

section \<open>recovery.rs\<close>

text \<open>
  The three tests with a snapshot and a log have the same shape: a store in which user 1 has one record
  is dumped at \<open>ts\<close>, \<open>ops\<close> are logged, and a new store recovers from the two files.
\<close>

definition then_recover :: "fs \<Rightarrow> store \<Rightarrow> string \<Rightarrow> string \<Rightarrow> (store \<Rightarrow> bool) \<Rightarrow> bool" where
  "then_recover fs s dir aof k =
     (case recover (fs_read fs) s dir aof of Inl e \<Rightarrow> False | Inr (Inl e) \<Rightarrow> False | Inr (Inr s') \<Rightarrow> k s')"

fun then_log :: "(nat \<Rightarrow> nat) \<Rightarrow> aof_writer \<Rightarrow> log_op list \<Rightarrow> (aof_writer \<Rightarrow> bool) \<Rightarrow> bool" where
  "then_log js w [] k = k w"
| "then_log js w (x # xs) k = then_append (js (length xs)) w x (\<lambda>w. then_log js w xs k)"

definition count_is :: "store \<Rightarrow> u32 \<Rightarrow> u16 \<Rightarrow> bool" where
  "count_is s uid c \<longleftrightarrow> (case store_get s uid of None \<Rightarrow> False | Some b \<Rightarrow> rb_count b = c)"

definition snapshot_then_log ::
  "(nat \<Rightarrow> nat) \<Rightarrow> (string \<Rightarrow> io_error + int) \<Rightarrow> u32 list \<Rightarrow> string \<Rightarrow> nat \<Rightarrow> addr \<Rightarrow> mem \<Rightarrow> addr \<Rightarrow> mem
    \<Rightarrow> u64 \<Rightarrow> log_op list \<Rightarrow> (store \<Rightarrow> bool) \<Rightarrow> bool" where
  "snapshot_then_log js os_open order dir n base m base2 m2 ts ops k =
     (let aof = dir @ ''/test.aof''
      in new_store n base m (\<lambda>s. then_create s 1 (\<lambda>s.
           then_dump order (buf_push s 1 (store_make_record 100) ts) dir ts Map.empty (\<lambda>fs.
             open_aof os_open aof No (\<lambda>w. then_log js w ops (\<lambda>w.
               new_store n base2 m2 (\<lambda>t.
                 then_recover (fs(aof \<mapsto> finish_log (js (length ops)) (js (Suc (length ops))) w)) t dir aof k)))))))"

definition test_recovery_from_snapshot_and_aof ::
  "(nat \<Rightarrow> nat) \<Rightarrow> (string \<Rightarrow> io_error + int) \<Rightarrow> u32 list \<Rightarrow> string \<Rightarrow> nat \<Rightarrow> addr \<Rightarrow> mem \<Rightarrow> addr \<Rightarrow> mem \<Rightarrow> bool" where
  "test_recovery_from_snapshot_and_aof js os_open order dir n base m base2 m2 =
     snapshot_then_log js os_open order dir n base m base2 m2 100000
       [LPush 1 (store_make_record 200) 200000, LPush 2 (store_make_record 300) 300000]
       (\<lambda>s. count_is s 1 2 \<and> count_is s 2 1)"

definition test_recovery_skips_aof_entries_before_snapshot_ts ::
  "(nat \<Rightarrow> nat) \<Rightarrow> (string \<Rightarrow> io_error + int) \<Rightarrow> u32 list \<Rightarrow> string \<Rightarrow> nat \<Rightarrow> addr \<Rightarrow> mem \<Rightarrow> addr \<Rightarrow> mem \<Rightarrow> bool" where
  "test_recovery_skips_aof_entries_before_snapshot_ts js os_open order dir n base m base2 m2 =
     snapshot_then_log js os_open order dir n base m base2 m2 200000
       [LPush 1 (store_make_record 50) 100000, LPush 1 (store_make_record 150) 300000]
       (\<lambda>s. count_is s 1 2)"

definition test_recovery_del_removes_key ::
  "(nat \<Rightarrow> nat) \<Rightarrow> (string \<Rightarrow> io_error + int) \<Rightarrow> u32 list \<Rightarrow> string \<Rightarrow> nat \<Rightarrow> addr \<Rightarrow> mem \<Rightarrow> addr \<Rightarrow> mem \<Rightarrow> bool" where
  "test_recovery_del_removes_key js os_open order dir n base m base2 m2 =
     snapshot_then_log js os_open order dir n base m base2 m2 100000 [LDel 1 200000] (\<lambda>s. store_get s 1 = None)"

definition test_recovery_no_snapshot_no_aof :: "string \<Rightarrow> nat \<Rightarrow> addr \<Rightarrow> mem \<Rightarrow> bool" where
  "test_recovery_no_snapshot_no_aof dir n base m =
     new_store n base m (\<lambda>s. then_recover Map.empty s dir (dir @ ''/nonexistent.aof'') (\<lambda>s. store_len s = 0))"

definition test_recovery_skips_unknown_aof_opcode :: "string \<Rightarrow> nat \<Rightarrow> addr \<Rightarrow> mem \<Rightarrow> bool" where
  "test_recovery_skips_unknown_aof_opcode dir n base m =
     (let aof = dir @ ''/unknown_op.aof'';
          unknown = [0xFF] @ u32_to_le_bytes 1 @ u64_to_le_bytes 200000 @ u16_to_le_bytes 0;
          push = [OPCODE_PUSH] @ u32_to_le_bytes 1 @ u64_to_le_bytes 300000 @ u16_to_le_bytes 17
                 @ record_to_bytes (store_make_record 42)
      in new_store n base m (\<lambda>s. then_recover [aof \<mapsto> unknown @ push] s dir aof (\<lambda>s. count_is s 1 1)))"

lemma then_logI:
  assumes "aof_ok w" and "length (aw_stream w) + 32 * length ops \<le> AOF_BUF_SIZE"
    and "\<And>w'. aof_ok w' \<Longrightarrow> aw_stream w' = aw_stream w @ concat (map entry_bytes ops) \<Longrightarrow> k w'"
  shows "then_log js w ops k"
  using assms
proof (induction ops arbitrary: w)
  case (Cons x ops)
  have "then_append (js (length ops)) w x (\<lambda>w. then_log js w ops k)"
  proof (rule then_appendI)
    fix w' assume w': "aof_ok w'" "aw_stream w' = aw_stream w @ entry_bytes x"
    then have "length (aw_stream w') + 32 * length ops \<le> AOF_BUF_SIZE"
      using Cons.prems(2) length_entry_le [of x] by simp
    then show "then_log js w' ops k"
      by (rule Cons.IH [OF w'(1)]) (use w'(2) Cons.prems(3) in simp)
  qed (use Cons.prems in simp_all)
  then show ?case by simp
qed simp

lemma count_is_view: "store_view s uid = Some (h, ts) \<Longrightarrow> length h < 2 ^ 16 \<Longrightarrow> count_is s uid (word_of_nat (length h))"
  using store_view_Some [of s uid h ts] length_rb_contents [of "st_mem s"]
  by (auto simp: count_is_def store_get_def word_unat_eq_iff unat_of_nat)

lemma snapshot_then_logI:
  assumes ok: "compiled_n_ok n" "region_ok base (sa_slot_size (word_of_nat n)) 64"
      "region_ok base2 (sa_slot_size (word_of_nat n)) 64" and op: "opens os_open (dir @ ''/test.aof'')"
    and len: "length ops \<le> 60"
    and k: "\<And>s. store_inv s \<Longrightarrow>
      store_view s = abs_replay n [1 \<mapsto> ([store_make_record 100], ts)] (filter (\<lambda>x. ts < op_ts x) ops) \<Longrightarrow> k s"
  shows "snapshot_then_log js os_open order dir n base m base2 m2 ts ops k"
  unfolding snapshot_then_log_def Let_def
proof (rule one_user_storeI [OF ok(1,2)])
  fix s assume s: "store_inv s" "1 \<in> dom (st_map s)" "store_view s = [1 \<mapsto> ([], 0)]" "unat (st_capacity s) = n"
  let ?aof = "dir @ ''/test.aof''" and ?A = "[1 \<mapsto> ([store_make_record 100], ts)]"
  note p = buf_push_present [OF s(1,2), of "store_make_record 100" ts]
  have n: "0 < n" "unat (word_of_nat n :: u16) = n"
    using ok(1) compiled_n_u16 [OF ok(1)] by (auto simp: compiled_n_ok_def)
  then have v: "store_view (buf_push s 1 (store_make_record 100) ts) = ?A"
    using p(3) s(3,4) by (simp add: abs_push_def hist_records_def take_Cons')
  show "then_dump order (buf_push s 1 (store_make_record 100) ts) dir ts Map.empty (\<lambda>fs.
      open_aof os_open ?aof No (\<lambda>w. then_log js w ops (\<lambda>w. new_store n base2 m2 (\<lambda>t.
        then_recover (fs(?aof \<mapsto> finish_log (js (length ops)) (js (Suc (length ops))) w)) t dir ?aof k))))"
  proof (rule then_dumpI [OF p(1)], rule open_aofI [OF op], rule then_logI, assumption, use len in \<open>simp add: AOF_BUF_SIZE_def\<close>,
      rule new_storeI [OF ok(1,3)])
    fix w w' and t :: store
    assume h: "hash_order (store_view (buf_push s 1 (store_make_record 100) ts)) order"
      and w: "aw_stream w = []" "aof_ok w'" "aw_stream w' = aw_stream w @ concat (map entry_bytes ops)"
      and t: "store_inv t" "store_view t = Map.empty" "store_slots t = 64" "st_capacity t = word_of_nat n"
    let ?fs = "(Map.empty(bin_path dir \<mapsto> snapshot_bytes ts order (store_view (buf_push s 1 (store_make_record 100) ts)),
        tmp_path dir := None))(?aof \<mapsto> finish_log (js (length ops)) (js (Suc (length ops))) w')"
    have o: "order = [1]" using h v by (simp add: hash_order_one)
    let ?K = "insert 1 (op_uid ` set ops)"
    have "card ?K \<le> Suc (length ops)"
      using card_insert_le_m1 [of "Suc (length ops)" "op_uid ` set ops" 1] card_image_le [of "set ops" op_uid] card_length [of ops]
      by simp
    then have K: "card ?K \<le> store_slots t" using len t(3) by simp
    have f: "fs_read ?fs (bin_path dir) = Inr (snapshot_bytes ts [1] ?A @ [])"
      "fs_read ?fs ?aof = Inr (concat (map entry_bytes ops) @ [])"
      using w v o by (simp_all add: fs_read_def bin_path_def tmp_path_def finish_log_stream)
    have "histories_ok (unat (st_capacity t)) ?A" using n t(4) by (simp add: histories_ok_def)
    from recover_files [where read_file = "fs_read ?fs", OF t(1,2) f(1) _ this f(2) _ _ _ K] n(2) t(3,4) k
    show "then_recover ?fs t dir ?aof k" by (auto simp: then_recover_def hash_order_one)
  qed
qed

text \<open>The first two need a program compiled for at least two records.\<close>

lemma recovery_log_tests:
  assumes ok: "compiled_n_ok n" "region_ok base (sa_slot_size (word_of_nat n)) 64"
      "region_ok base2 (sa_slot_size (word_of_nat n)) 64" and op: "opens os_open (dir @ ''/test.aof'')"
  shows "2 \<le> n \<Longrightarrow> test_recovery_from_snapshot_and_aof js os_open order dir n base m base2 m2"
    and "2 \<le> n \<Longrightarrow> test_recovery_skips_aof_entries_before_snapshot_ts js os_open order dir n base m base2 m2"
    and "test_recovery_del_removes_key js os_open order dir n base m base2 m2"
proof -
  have two: "take n [a, b] = [a, b]" if "2 \<le> n" for a b :: event_record using that by simp
  have one: "take n [a] = [a]" for a :: event_record using ok(1) by (simp add: compiled_n_ok_def take_Cons')
  show "test_recovery_from_snapshot_and_aof js os_open order dir n base m base2 m2" if n: "2 \<le> n"
    unfolding test_recovery_from_snapshot_and_aof_def
  proof (rule snapshot_then_logI [OF ok op])
    fix s assume "store_view s = abs_replay n [1 \<mapsto> ([store_make_record 100], 100000)] (filter (\<lambda>x. 100000 < op_ts x)
        [LPush 1 (store_make_record 200) 200000, LPush 2 (store_make_record 300) 300000])"
    then have "store_view s 1 = Some ([store_make_record 200, store_make_record 100], 200000)"
      "store_view s 2 = Some ([store_make_record 300], 300000)"
      by (simp_all add: abs_push_def hist_records_def two [OF n] one)
    from this [THEN count_is_view] show "count_is s 1 2 \<and> count_is s 2 1" by simp
  qed simp
  show "test_recovery_skips_aof_entries_before_snapshot_ts js os_open order dir n base m base2 m2" if n: "2 \<le> n"
    unfolding test_recovery_skips_aof_entries_before_snapshot_ts_def
  proof (rule snapshot_then_logI [OF ok op])
    fix s assume "store_view s = abs_replay n [1 \<mapsto> ([store_make_record 100], 200000)] (filter (\<lambda>x. 200000 < op_ts x)
        [LPush 1 (store_make_record 50) 100000, LPush 1 (store_make_record 150) 300000])"
    then have "store_view s 1 = Some ([store_make_record 150, store_make_record 100], 300000)"
      by (simp add: abs_push_def hist_records_def two [OF n])
    from count_is_view [OF this] show "count_is s 1 2" by simp
  qed simp
  show "test_recovery_del_removes_key js os_open order dir n base m base2 m2"
    unfolding test_recovery_del_removes_key_def
    by (rule snapshot_then_logI [OF ok op]) (simp_all add: store_get_view abs_erase_def)
qed

lemma recovery_none_test:
  assumes ok: "compiled_n_ok n" "region_ok base (sa_slot_size (word_of_nat n)) 64"
  shows "test_recovery_no_snapshot_no_aof dir n base m"
  unfolding test_recovery_no_snapshot_no_aof_def
  by (rule new_storeI [OF ok])
    (simp add: then_recover_def recover_def snapshot_load_def replay_aof_def fs_read_def store_len_def)

text \<open>The entry with the unknown opcode is skipped with its payload.\<close>

lemma replay_unknown:
  assumes "drop pos data = opcode # u32_to_le_bytes uid @ u64_to_le_bytes ts @ u16_to_le_bytes 0 @ rest"
    and "opcode \<noteq> OPCODE_PUSH" and "opcode \<noteq> OPCODE_DEL"
  shows "replay_loop data sts pos s k = replay_loop data sts (pos + 15) s k"
proof -
  have len: "\<not> length data < pos + 15" using arg_cong [OF assms(1), of length] by simp
  have "data ! pos = drop pos data ! 0" using len by (simp add: not_less)
  moreover have "unat (aof_payload_len data pos) = 0"
    unfolding aof_payload_len_def by (simp only: slice_drop assms(1)) (simp add: slice_def)
  ultimately show ?thesis
    using len assms by (subst replay_loop.simps) (simp add: Let_def replay_entry_def)
qed

lemma recovery_unknown_test:
  assumes ok: "compiled_n_ok n" "region_ok base (sa_slot_size (word_of_nat n)) 64"
  shows "test_recovery_skips_unknown_aof_opcode dir n base m"
  unfolding test_recovery_skips_unknown_aof_opcode_def Let_def
proof (rule new_storeI [OF ok])
  fix s :: store
  assume s: "store_inv s" "store_view s = Map.empty" "st_map s = Map.empty" "store_slots s = 64" "st_capacity s = word_of_nat n"
  let ?aof = "dir @ ''/unknown_op.aof''" and ?x = "LPush 1 (store_make_record 42) 300000"
  let ?u = "0xFF # u32_to_le_bytes 1 @ u64_to_le_bytes 200000 @ u16_to_le_bytes 0"
  let ?data = "?u @ entry_bytes ?x"
  have "replay_loop ?data 0 0 s 0 = replay_loop ?data 0 15 s 0"
    using replay_unknown [where pos = 0 and data = ?data and opcode = "0xFF" and uid = 1 and ts = 200000
        and rest = "entry_bytes ?x" and sts = 0 and s = s and k = 0] by (simp add: const_defs del: entry_bytes.simps)
  moreover obtain s' where s': "es.run s [?x] = Inr s'" "store_inv s'" "store_view s' = abs_replay n Map.empty [?x]"
    using es.run_view [OF s(1), of "{1}" "[?x]"] s compiled_n_u16 [OF ok(1)] by auto
  then have "replay_loop ?data 0 15 s 0 = Inr (s', 1)"
    using replay_loop_entries [of 15 ?data "[?x]" "[]" 0 s 0] by (simp del: es.run.simps entry_bytes.simps)
  ultimately have "replay_loop ?data 0 0 s 0 = Inr (s', 1)" by simp
  then have r: "recover (fs_read [?aof \<mapsto> ?data]) s dir ?aof = Inr (Inr s')"
    by (simp add: recover_def snapshot_load_def replay_aof_def fs_read_def bin_path_def del: entry_bytes.simps)
  have "store_view s' 1 = Some ([store_make_record 42], 300000)"
    using s'(3) ok(1) by (simp add: abs_push_def hist_records_def compiled_n_ok_def take_Cons')
  from count_is_view [OF this] r show "then_recover [?aof \<mapsto> ([0xFF] @ u32_to_le_bytes 1 @ u64_to_le_bytes 200000 @ u16_to_le_bytes 0)
      @ [OPCODE_PUSH] @ u32_to_le_bytes 1 @ u64_to_le_bytes 300000 @ u16_to_le_bytes 17 @ record_to_bytes (store_make_record 42)]
      s dir ?aof (\<lambda>s. count_is s 1 1)" by (simp add: then_recover_def)
qed

section \<open>ttl.rs\<close>

text \<open>
  The worker runs rounds before the test pushes its candidate (\<open>early\<close>), rounds between the push and
  the stop (\<open>late\<close>), and the final batch; each round has its readings of the clock.
\<close>

definition with_worker ::
  "u64 \<Rightarrow> (nat \<Rightarrow> u64) list \<Rightarrow> candidate \<Rightarrow> (nat \<Rightarrow> u64) list \<Rightarrow> (nat \<Rightarrow> u64) \<Rightarrow> (candidate option \<Rightarrow> bool) \<Rightarrow> bool" where
  "with_worker ttl_ns early c late final check =
     new_queue CANDIDATES_IN_CAP (\<lambda>cin. new_queue EXPIRED_KEYS_CAP (\<lambda>out.
       case foldl (\<lambda>(cin, out) now. drain_batch now cin out ttl_ns) (cin, out) early of (cin, out) \<Rightarrow>
       case ttl_stop late final ttl_ns (ttl_worker_new, snd (spsc_push CANDIDATES_IN_CAP cin c), out) of (w, cin, out) \<Rightarrow>
       check (fst (spsc_pop EXPIRED_KEYS_CAP out))))"

definition test_expired_candidate_forwarded ::
  "u64 \<Rightarrow> (nat \<Rightarrow> u64) list \<Rightarrow> (nat \<Rightarrow> u64) list \<Rightarrow> (nat \<Rightarrow> u64) \<Rightarrow> bool" where
  "test_expired_candidate_forwarded now early late final =
     (let ttl_ns = 1000000;
          old_ts = saturating_sub now 2000000
      in with_worker ttl_ns early \<lparr>cd_uid = 42, cd_last_write_ts = old_ts\<rparr> late final
           (\<lambda>r. r = Some \<lparr>cd_uid = 42, cd_last_write_ts = old_ts\<rparr>))"

definition test_fresh_candidate_not_forwarded ::
  "u64 \<Rightarrow> (nat \<Rightarrow> u64) list \<Rightarrow> (nat \<Rightarrow> u64) list \<Rightarrow> (nat \<Rightarrow> u64) \<Rightarrow> bool" where
  "test_fresh_candidate_not_forwarded now early late final =
     with_worker 60000000000 early \<lparr>cd_uid = 7, cd_last_write_ts = now\<rparr> late final (\<lambda>r. r = None)"

text \<open>Stopping twice, the second time by \<^verbatim>\<open>drop\<close>: the thread is gone and nothing happens.\<close>

definition test_stop_is_idempotent :: "(nat \<Rightarrow> u64) list \<Rightarrow> (nat \<Rightarrow> u64) \<Rightarrow> bool" where
  "test_stop_is_idempotent late final =
     new_queue CANDIDATES_IN_CAP (\<lambda>cin. new_queue EXPIRED_KEYS_CAP (\<lambda>out.
       let st = ttl_stop late final 1000000 (ttl_worker_new, cin, out)
       in \<not> tw_thread (fst st) \<and> ttl_drop late final 1000000 st = st))"

lemma early_rounds:
  assumes "spsc_inv CANDIDATES_IN_CAP cin" and "spsc_list CANDIDATES_IN_CAP cin = []" and "spsc_inv EXPIRED_KEYS_CAP out"
    and "spsc_list EXPIRED_KEYS_CAP out = []"
  shows "\<exists>cin' out'. foldl (\<lambda>(cin, out) now. drain_batch now cin out ttl) (cin, out) early = (cin', out')
     \<and> spsc_inv CANDIDATES_IN_CAP cin' \<and> spsc_list CANDIDATES_IN_CAP cin' = [] \<and> spsc_inv EXPIRED_KEYS_CAP out'
     \<and> spsc_list EXPIRED_KEYS_CAP out' = []"
  using assms
proof (induction early arbitrary: cin out)
  case (Cons now early)
  from drain_batch_items [OF Cons.prems(1,3), of now ttl] Cons.prems(2,4) obtain cin' out' where
    "drain_batch now cin out ttl = (cin', out')" "spsc_inv CANDIDATES_IN_CAP cin'" "spsc_list CANDIDATES_IN_CAP cin' = []"
    "spsc_inv EXPIRED_KEYS_CAP out'" "spsc_list EXPIRED_KEYS_CAP out' = []" by (auto simp: expired_in_batch_def)
  with Cons.IH [of cin' out'] show ?case by simp
qed simp

text \<open>The loop decides about a lone candidate with the first reading it makes.\<close>

definition first_reading :: "(nat \<Rightarrow> u64) list \<Rightarrow> (nat \<Rightarrow> u64) \<Rightarrow> u64" where
  "first_reading late final = hd (late @ [final]) 0"

lemma eviction_loop_empty:
  assumes "spsc_inv CANDIDATES_IN_CAP cin" and "spsc_list CANDIDATES_IN_CAP cin = []" and "spsc_inv EXPIRED_KEYS_CAP out"
  shows "\<exists>cin' out'. eviction_loop late final cin out ttl = (cin', out') \<and> spsc_inv EXPIRED_KEYS_CAP out'
     \<and> spsc_list EXPIRED_KEYS_CAP out' = spsc_list EXPIRED_KEYS_CAP out"
  using assms
proof (induction late arbitrary: cin out)
  case Nil
  from drain_batch_items [OF Nil(1,3), of final ttl] Nil(2) show ?case by (auto simp: expired_in_batch_def)
next
  case (Cons now late)
  from drain_batch_items [OF Cons.prems(1,3), of now ttl] Cons.prems(2) obtain cin' out' where
    "drain_batch now cin out ttl = (cin', out')" "spsc_inv CANDIDATES_IN_CAP cin'" "spsc_list CANDIDATES_IN_CAP cin' = []"
    "spsc_inv EXPIRED_KEYS_CAP out'" "spsc_list EXPIRED_KEYS_CAP out' = spsc_list EXPIRED_KEYS_CAP out"
    by (auto simp: expired_in_batch_def)
  with Cons.IH [of cin' out'] show ?case by simp
qed

lemma eviction_loop_one:
  assumes "spsc_inv CANDIDATES_IN_CAP cin" and "spsc_list CANDIDATES_IN_CAP cin = [c]" and "spsc_inv EXPIRED_KEYS_CAP out"
    and "spsc_list EXPIRED_KEYS_CAP out = []"
  shows "\<exists>cin' out'. eviction_loop late final cin out ttl = (cin', out') \<and> spsc_inv EXPIRED_KEYS_CAP out'
     \<and> spsc_list EXPIRED_KEYS_CAP out' = (if ttl_expired (first_reading late final) ttl c then [c] else [])"
proof -
  have cap: "EXPIRED_KEYS_CAP = Suc 4095" by (simp add: EXPIRED_KEYS_CAP_def)
  have b: "\<exists>cin' out'. drain_batch now cin out ttl = (cin', out') \<and> spsc_inv CANDIDATES_IN_CAP cin'
      \<and> spsc_list CANDIDATES_IN_CAP cin' = [] \<and> spsc_inv EXPIRED_KEYS_CAP out'
      \<and> spsc_list EXPIRED_KEYS_CAP out' = (if ttl_expired (now 0) ttl c then [c] else [])" for now
    using drain_batch_items [OF assms(1,3), of now ttl] assms(2,4)
    by (auto simp: expired_in_batch_def cap simp del: length_spsc_list)
  show ?thesis
  proof (cases late)
    case Nil
    with b [of final] show ?thesis by (auto simp: first_reading_def)
  next
    case (Cons now late')
    from b [of now] obtain cin' out' where d: "drain_batch now cin out ttl = (cin', out')" "spsc_inv CANDIDATES_IN_CAP cin'"
      "spsc_list CANDIDATES_IN_CAP cin' = []" "spsc_inv EXPIRED_KEYS_CAP out'"
      "spsc_list EXPIRED_KEYS_CAP out' = (if ttl_expired (now 0) ttl c then [c] else [])" by blast
    with eviction_loop_empty [OF d(2-4), of late' final ttl] Cons show ?thesis by (auto simp: first_reading_def)
  qed
qed

lemma with_workerI:
  assumes "check (if ttl_expired (first_reading late final) ttl c then Some c else None)"
  shows "with_worker ttl early c late final check"
  unfolding with_worker_def
proof (rule new_queueI [OF candidates_cap_ok], rule new_queueI [OF expired_cap_ok])
  fix cin out :: "candidate spsc"
  assume "spsc_inv CANDIDATES_IN_CAP cin" "spsc_list CANDIDATES_IN_CAP cin = []" "spsc_inv EXPIRED_KEYS_CAP out"
    "spsc_list EXPIRED_KEYS_CAP out = []"
  from early_rounds [OF this, of ttl early] obtain cin1 out1 where
    e: "foldl (\<lambda>(cin, out) now. drain_batch now cin out ttl) (cin, out) early = (cin1, out1)" "spsc_inv CANDIDATES_IN_CAP cin1"
    "spsc_list CANDIDATES_IN_CAP cin1 = []" "spsc_inv EXPIRED_KEYS_CAP out1" "spsc_list EXPIRED_KEYS_CAP out1 = []" by blast
  let ?cin = "snd (spsc_push CANDIDATES_IN_CAP cin1 c)"
  have "spsc_inv CANDIDATES_IN_CAP ?cin" "spsc_list CANDIDATES_IN_CAP ?cin = [c]"
    using push_each_fits [OF e(2), of "[c]"] e(3)
    by (simp_all add: push_each_def CANDIDATES_IN_CAP_def del: length_spsc_list)
  from eviction_loop_one [OF this e(4,5), of late final ttl] obtain cin' out' where
    l: "eviction_loop late final ?cin out1 ttl = (cin', out')" "spsc_inv EXPIRED_KEYS_CAP out'"
    "spsc_list EXPIRED_KEYS_CAP out' = (if ttl_expired (first_reading late final) ttl c then [c] else [])" by blast
  have "fst (spsc_pop EXPIRED_KEYS_CAP out') = (if ttl_expired (first_reading late final) ttl c then Some c else None)"
    using pops_list [OF l(2)] l(3) by (auto split: prod.splits if_splits)
  with assms e(1) l(1) show "case foldl (\<lambda>(cin, out) now. drain_batch now cin out ttl) (cin, out) early of (cin, out) \<Rightarrow>
       case ttl_stop late final ttl (ttl_worker_new, snd (spsc_push CANDIDATES_IN_CAP cin c), out) of (w, cin, out) \<Rightarrow>
       check (fst (spsc_pop EXPIRED_KEYS_CAP out))"
    by (simp add: ttl_stop_def ttl_worker_new_def)
qed

text \<open>
  The clock that the worker first reads is not behind the reading of the test (and at least two
  milliseconds after its epoch), or at most 60 seconds ahead of it.
\<close>

lemma ttl_expired_test:
  assumes "2000000 \<le> now" and "now \<le> first_reading late final"
  shows "test_expired_candidate_forwarded now early late final"
proof -
  have "unat (saturating_sub now 2000000) = unat now - 2000000"
    using assms(1) unat_sub [OF assms(1)] by (simp add: saturating_sub_def)
  moreover have "2000000 \<le> unat now" "unat now \<le> unat (first_reading late final)"
    using assms by (simp_all add: word_le_nat_alt)
  ultimately show ?thesis
    unfolding test_expired_candidate_forwarded_def Let_def by (intro with_workerI) (simp add: ttl_expired_def)
qed

lemma ttl_fresh_test:
  assumes "unat (first_reading late final) \<le> unat now + 60000000000"
  shows "test_fresh_candidate_not_forwarded now early late final"
  unfolding test_fresh_candidate_not_forwarded_def using assms by (intro with_workerI) (simp add: ttl_expired_def)

lemma ttl_stop_test: "test_stop_is_idempotent late final"
  unfolding test_stop_is_idempotent_def
  by (rule new_queueI [OF candidates_cap_ok], rule new_queueI [OF expired_cap_ok])
    (simp add: Let_def ttl_drop_def ttl_stop_def ttl_worker_new_def)

section \<open>time.rs\<close>

definition test_now_ns_increasing :: "int \<times> int \<Rightarrow> int \<times> int \<Rightarrow> bool" where
  "test_now_ns_increasing ta tb =
     (case (now_ns 0 (fst ta) (snd ta), now_ns 0 (fst tb) (snd tb)) of (Inr a, Inr b) \<Rightarrow> a < b | _ \<Rightarrow> False)"

definition test_now_ns_reasonable_epoch :: "int \<times> int \<Rightarrow> bool" where
  "test_now_ns_reasonable_epoch t =
     (case now_ns 0 (fst t) (snd t) of Inl e \<Rightarrow> False | Inr now \<Rightarrow> 1577836800000000000 < now)"

text \<open>A normalised time before the year 2554, and the order of such times.\<close>

definition timespec_ok :: "int \<times> int \<Rightarrow> bool" where
  "timespec_ok t \<longleftrightarrow> 0 \<le> fst t \<and> fst t < 18446744073 \<and> 0 \<le> snd t \<and> snd t < 1000000000"

lemma clock_increasing_test:
  assumes "timespec_ok ta" and "timespec_ok tb" and "fst ta < fst tb \<or> fst ta = fst tb \<and> snd ta < snd tb"
  shows "test_now_ns_increasing ta tb"
proof -
  from assms(1) obtain a where a: "now_ns 0 (fst ta) (snd ta) = Inr a" "uint a = fst ta * 1000000000 + snd ta"
    using now_ns_exact [of "fst ta" "snd ta"] by (auto simp: timespec_ok_def)
  from assms(2) obtain b where b: "now_ns 0 (fst tb) (snd tb) = Inr b" "uint b = fst tb * 1000000000 + snd tb"
    using now_ns_exact [of "fst tb" "snd tb"] by (auto simp: timespec_ok_def)
  have "uint a < uint b" using a(2) b(2) assms by (auto simp: timespec_ok_def)
  with a(1) b(1) show ?thesis by (simp add: test_now_ns_increasing_def word_less_def)
qed

lemma clock_epoch_test:
  assumes "timespec_ok t" and "1577836800 < fst t"
  shows "test_now_ns_reasonable_epoch t"
proof -
  from assms(1) obtain a where a: "now_ns 0 (fst t) (snd t) = Inr a" "uint a = fst t * 1000000000 + snd t"
    using now_ns_exact [of "fst t" "snd t"] by (auto simp: timespec_ok_def)
  have "uint (1577836800000000000 :: u64) < uint a" using a(2) assms by (simp add: timespec_ok_def)
  with a(1) show ?thesis by (simp add: test_now_ns_reasonable_epoch_def word_less_def)
qed

end
