(* ===== verification/Float_Text.thy ===== *)
theory Float_Text
  imports Error_Text Complex_Main
begin

text \<open>
  How the standard library prints a floating-point number with a fixed number of decimals (\<^verbatim>\<open>{:.1}\<close>,
  \<^verbatim>\<open>{:.2}\<close>), for numbers that are not negative: the exact value of the number is rounded to the nearest
  decimal, a tie to the even one. The text is read back to state what it says.
\<close>

section \<open>The model\<close>

definition round_half_even :: "real \<Rightarrow> int" where
  "round_half_even x =
     (let k = \<lfloor>x\<rfloor>; d = x - of_int k
      in if d < 1 / 2 \<or> d = 1 / 2 \<and> even k then k else k + 1)"

definition show_fixed :: "nat \<Rightarrow> real \<Rightarrow> string" where
  "show_fixed p x =
     (let v = nat (round_half_even (x * 10 ^ p));
          ds = show_nat (v mod 10 ^ p)
      in show_nat (v div 10 ^ p) @ ''.'' @ replicate (p - length ds) (CHR ''0'') @ ds)"

section \<open>Rounding\<close>

lemma round_half_even_cases: "round_half_even x = \<lfloor>x\<rfloor> \<or> round_half_even x = \<lfloor>x\<rfloor> + 1"
  by (simp add: round_half_even_def Let_def)

lemma round_half_even_error: "\<bar>of_int (round_half_even x) - x\<bar> \<le> 1 / 2"
proof -
  define d where "d = x - of_int \<lfloor>x\<rfloor>"
  have "0 \<le> d" "d < 1" unfolding d_def by linarith+
  then have "\<bar>(if d < 1 / 2 \<or> d = 1 / 2 \<and> even \<lfloor>x\<rfloor> then 0 else 1) - d\<bar> \<le> 1 / 2" by (auto simp: abs_if)
  moreover have "of_int (round_half_even x) - x = (if d < 1 / 2 \<or> d = 1 / 2 \<and> even \<lfloor>x\<rfloor> then 0 else 1) - d"
    unfolding round_half_even_def Let_def d_def [symmetric] by (simp add: d_def)
  ultimately show ?thesis by simp
qed

lemma round_half_even_of_int [simp]: "round_half_even (of_int k) = k"
  by (simp add: round_half_even_def)

lemma round_half_even_mono:
  assumes "x \<le> y"
  shows "round_half_even x \<le> round_half_even y"
proof (cases "\<lfloor>x\<rfloor> = \<lfloor>y\<rfloor>")
  case True
  with assms show ?thesis by (auto simp: round_half_even_def Let_def)
next
  case False
  then have "\<lfloor>x\<rfloor> + 1 \<le> \<lfloor>y\<rfloor>" using floor_mono [OF assms] by simp
  with round_half_even_cases [of x] round_half_even_cases [of y] show ?thesis by auto
qed

lemma round_half_even_nonneg: "0 \<le> x \<Longrightarrow> 0 \<le> round_half_even x"
  using round_half_even_mono [of 0 x] round_half_even_of_int [of 0] by simp

section \<open>Reading the text\<close>

definition digits_value :: "string \<Rightarrow> nat" where
  "digits_value ds = foldl (\<lambda>v c. 10 * v + (of_char c - 48)) 0 ds"

definition read_fixed :: "string \<Rightarrow> real" where
  "read_fixed s =
     (let whole = takeWhile (\<lambda>c. c \<noteq> CHR ''.'') s;
          frac = drop (Suc (length whole)) s
      in real (digits_value whole) + real (digits_value frac) / 10 ^ length frac)"

lemma of_char_digit: "d < 10 \<Longrightarrow> of_char (digit_char d) = 48 + d"
  by (simp add: digit_char_def of_char_of)

lemma show_nat_induct [case_names small step]:
  assumes "\<And>n. n < 10 \<Longrightarrow> P n" and "\<And>n. \<not> n < 10 \<Longrightarrow> P (n div 10) \<Longrightarrow> P n"
  shows "P (n :: nat)"
proof (induction n rule: less_induct)
  case (less n)
  then show ?case using assms by (cases "n < 10") auto
qed

lemma digits_value_show: "digits_value (show_nat n) = n"
proof (induction n rule: show_nat_induct)
  case (small n)
  then show ?case by (simp add: show_nat_def show_base_small digits_value_def of_char_digit)
next
  case (step n)
  then show ?case by (simp add: show_nat_def show_base_step digits_value_def of_char_digit)
qed

lemma digits_value_zeros: "digits_value (replicate k (CHR ''0'') @ ds) = digits_value ds"
  by (induction k) (simp_all add: digits_value_def)

lemma show_nat_digits: "c \<in> set (show_nat n) \<Longrightarrow> 48 \<le> (of_char c :: nat) \<and> (of_char c :: nat) \<le> 57"
proof (induction n rule: show_nat_induct)
  case (small n)
  then show ?case by (simp add: show_nat_def show_base_small of_char_digit)
next
  case (step n)
  have "n mod 10 < 10" by simp
  with step show ?case by (auto simp: show_nat_def show_base_step of_char_digit)
qed

lemma show_nat_chars: "c \<in> set (show_nat n) \<Longrightarrow> c \<noteq> CHR ''.'' \<and> c \<noteq> CHR '' ''"
  using show_nat_digits [of c n] by auto

lemma show_nat_length: "n < 10 ^ p \<Longrightarrow> 0 < p \<Longrightarrow> length (show_nat n) \<le> p"
proof (induction n arbitrary: p rule: show_nat_induct)
  case (small n)
  then show ?case by (simp add: show_nat_def show_base_small)
next
  case (step n)
  then obtain q where p: "p = Suc q" by (cases p) auto
  with step.hyps step.prems(1) have "0 < q" by (cases q) auto
  moreover have "n div 10 < 10 ^ q" using step.prems(1) by (simp add: p div_less_iff_less_mult mult.commute)
  ultimately show ?case using step.IH [of q] step.hyps by (simp add: p show_nat_def show_base_step)
qed

lemma read_show_nat: "read_fixed (show_nat n) = real n"
proof -
  have "takeWhile (\<lambda>c. c \<noteq> CHR ''.'') (show_nat n) = show_nat n" using show_nat_chars by (simp add: takeWhile_eq_all_conv)
  then have "read_fixed (show_nat n) = real (digits_value (show_nat n)) + real (digits_value [])"
    by (simp only: read_fixed_def Let_def) simp
  then show ?thesis unfolding digits_value_show by (simp add: digits_value_def)
qed

lemma read_show_fixed:
  assumes "0 \<le> x" and "0 < p"
  shows "read_fixed (show_fixed p x) = of_int (round_half_even (x * 10 ^ p)) / 10 ^ p"
proof -
  define v where "v = nat (round_half_even (x * 10 ^ p))"
  define frac where "frac = replicate (p - length (show_nat (v mod 10 ^ p))) (CHR ''0'') @ show_nat (v mod 10 ^ p)"
  have s: "show_fixed p x = show_nat (v div 10 ^ p) @ CHR ''.'' # frac"
    by (simp add: show_fixed_def v_def frac_def Let_def)
  have t: "takeWhile (\<lambda>c. c \<noteq> CHR ''.'') (show_fixed p x) = show_nat (v div 10 ^ p)"
    unfolding s using show_nat_chars by (subst takeWhile_append2) auto
  have "length (show_nat (v mod 10 ^ p)) \<le> p" using assms(2) by (intro show_nat_length) simp_all
  then have f: "length frac = p" "digits_value frac = v mod 10 ^ p" by (simp_all add: frac_def digits_value_zeros digits_value_show)
  have "read_fixed (show_fixed p x) = real (v div 10 ^ p) + real (v mod 10 ^ p) / 10 ^ p"
    unfolding read_fixed_def Let_def t using f by (simp add: s digits_value_show)
  also have "\<dots> = real v / 10 ^ p"
  proof -
    have "real v = real (v div 10 ^ p * 10 ^ p + v mod 10 ^ p)" by (simp only: div_mult_mod_eq)
    then have "real v = real (v div 10 ^ p) * 10 ^ p + real (v mod 10 ^ p)" by (simp only: of_nat_add of_nat_mult of_nat_power) simp
    then show ?thesis by (simp add: add_divide_distrib)
  qed
  also have "real v = of_int (round_half_even (x * 10 ^ p))"
    using round_half_even_nonneg [of "x * 10 ^ p"] assms(1) by (simp add: v_def)
  finally show ?thesis .
qed

lemma show_fixed_chars: "0 < p \<Longrightarrow> c \<in> set (show_fixed p x) \<Longrightarrow> c \<noteq> CHR '' ''"
  using show_nat_chars by (auto simp: show_fixed_def Let_def split: if_splits)

text \<open>What the text says is within half of its last decimal, keeps the order, and keeps integers.\<close>

lemma read_show_fixed_error:
  assumes "0 \<le> x" and "0 < p"
  shows "\<bar>read_fixed (show_fixed p x) - x\<bar> \<le> 1 / (2 * 10 ^ p)"
proof -
  have "\<bar>of_int (round_half_even (x * 10 ^ p)) - x * 10 ^ p\<bar> / 10 ^ p \<le> 1 / 2 / 10 ^ p"
    by (intro divide_right_mono round_half_even_error) simp
  moreover have "\<bar>of_int (round_half_even (x * 10 ^ p)) - x * 10 ^ p\<bar> / 10 ^ p
      = \<bar>of_int (round_half_even (x * 10 ^ p)) / 10 ^ p - x\<bar>"
    by (simp add: abs_if divide_simps split: if_splits)
  ultimately show ?thesis by (simp add: read_show_fixed [OF assms])
qed

lemma read_show_fixed_mono:
  assumes "0 \<le> x" and "x \<le> y" and "0 < p"
  shows "read_fixed (show_fixed p x) \<le> read_fixed (show_fixed p y)"
  using assms by (simp add: read_show_fixed divide_right_mono round_half_even_mono)

lemma read_show_fixed_of_nat:
  assumes "0 < p"
  shows "read_fixed (show_fixed p (real k)) = real k"
  using assms round_half_even_of_int [of "int k * 10 ^ p"] by (simp add: read_show_fixed)

end
