(* ===== verification/Bench.thy ===== *)
theory Bench
  imports Event_Loop Float_Text
begin

text \<open>
  \<^verbatim>\<open>src/bin/bench.rs\<close>, the load generator that is shipped with the server: its PUSH frame, the loops of
  a thread in sequential and in pipelined mode with every error path, the statistics and the command
  line. The outcomes of the blocking socket calls and the readings of the stopwatch are scripts; a
  failed \<^verbatim>\<open>tcp_connect\<close> ends the process, which is the result \<open>None\<close>. Counters that go up by one per
  request are natural numbers. The frame is one that the server of \<open>Event_Loop\<close> serves, with the five
  bytes of response the client waits for.
\<close>

section \<open>The model\<close>

definition PROGRESS_GRANULARITY :: nat where
  "PROGRESS_GRANULARITY = 256"

definition bench_magic_wire :: u16 where
  "bench_magic_wire = 0xAE01"

definition bench_opcode_push :: u8 where
  "bench_opcode_push = 0x01"

definition build_push :: "u32 \<Rightarrow> bytes" where
  "build_push uid =
     (let f0 = replicate 26 0;
          f1 = blit f0 0 (u16_to_le_bytes bench_magic_wire);
          f2 = f1[2 := bench_opcode_push];
          f3 = blit f2 3 (u32_to_le_bytes uid);
          f4 = blit f3 7 (u16_to_le_bytes 17)
      in f4[9 := 1])"

subsection \<open>The connection of a thread\<close>

datatype bench_error = TimedOut | WouldBlock | ConnectionReset | UnexpectedEof | OtherError

text \<open>
  \<open>bt_writes\<close>: the number of bytes a failed \<^verbatim>\<open>write_all\<close> got out, \<open>None\<close> for success. \<open>bt_reads\<close>:
  the error of a \<^verbatim>\<open>read_exact\<close>, \<open>None\<close> for success. \<open>bt_connects\<close>: whether a connection is made.
  Exhausted scripts mean success, and a stopwatch at zero. \<open>bt_conns\<close> is what was sent, per
  connection, the current one first.
\<close>

record bench_thread =
  bt_writes :: "nat option list"
  bt_reads :: "bench_error option list"
  bt_connects :: "bool list"
  bt_clock :: "u64 list"
  bt_conns :: "bytes list"
  bt_latencies :: "u64 list"
  bt_errors :: nat
  bt_warmup_done :: nat
  bt_measure_done :: nat

definition next_in :: "'a \<Rightarrow> 'a list \<Rightarrow> 'a" where
  "next_in d xs = (case xs of [] \<Rightarrow> d | x # _ \<Rightarrow> x)"

definition send_bytes :: "bytes \<Rightarrow> bench_thread \<Rightarrow> bench_thread" where
  "send_bytes bs st = st\<lparr>bt_conns := (next_in [] (bt_conns st) @ bs) # tl (bt_conns st)\<rparr>"

definition write_all_frame :: "bytes \<Rightarrow> bench_thread \<Rightarrow> bool \<times> bench_thread" where
  "write_all_frame frame st =
     (let st1 = st\<lparr>bt_writes := tl (bt_writes st)\<rparr>
      in case next_in None (bt_writes st) of
           None \<Rightarrow> (True, send_bytes frame st1)
         | Some k \<Rightarrow> (False, send_bytes (take k frame) st1))"

definition read_exact_response :: "bench_thread \<Rightarrow> bench_error option \<times> bench_thread" where
  "read_exact_response st = (next_in None (bt_reads st), st\<lparr>bt_reads := tl (bt_reads st)\<rparr>)"

definition tcp_connect :: "bench_thread \<Rightarrow> bench_thread option" where
  "tcp_connect st =
     (if next_in True (bt_connects st)
      then Some (st\<lparr>bt_connects := tl (bt_connects st), bt_conns := [] # bt_conns st\<rparr>)
      else None)"

definition elapsed_ns :: "bench_thread \<Rightarrow> u64 \<times> bench_thread" where
  "elapsed_ns st = (next_in 0 (bt_clock st), st\<lparr>bt_clock := tl (bt_clock st)\<rparr>)"

definition add_error :: "bench_thread \<Rightarrow> bench_thread" where
  "add_error st = st\<lparr>bt_errors := Suc (bt_errors st)\<rparr>"

definition push_latency :: "u64 \<Rightarrow> bench_thread \<Rightarrow> bench_thread" where
  "push_latency l st = st\<lparr>bt_latencies := bt_latencies st @ [l]\<rparr>"

definition tick_measure :: "nat \<Rightarrow> bench_thread \<Rightarrow> bench_thread" where
  "tick_measure k st = st\<lparr>bt_measure_done := bt_measure_done st + k\<rparr>"

subsection \<open>Warmup\<close>

text \<open>The rounds from \<open>i\<close> on, \<open>k\<close> of them; an error leaves the loop.\<close>

primrec warmup_loop :: "bytes \<Rightarrow> nat \<Rightarrow> nat \<Rightarrow> bench_thread \<Rightarrow> bench_thread" where
  "warmup_loop frame 0 i st = st"
| "warmup_loop frame (Suc k) i st =
     (case write_all_frame frame st of
        (False, st1) \<Rightarrow> st1
      | (True, st1) \<Rightarrow>
          (case read_exact_response st1 of
             (Some e, st2) \<Rightarrow> st2
           | (None, st2) \<Rightarrow>
               warmup_loop frame k (Suc i)
                 (if i mod PROGRESS_GRANULARITY = 0
                  then st2\<lparr>bt_warmup_done := bt_warmup_done st2 + PROGRESS_GRANULARITY\<rparr> else st2)))"

definition warmup :: "bytes \<Rightarrow> nat \<Rightarrow> bench_thread \<Rightarrow> bench_thread" where
  "warmup frame n st =
     (let st1 = warmup_loop frame n 0 st
      in st1\<lparr>bt_warmup_done := bt_warmup_done st1 + n mod PROGRESS_GRANULARITY\<rparr>)"

subsection \<open>Sequential measurement\<close>

text \<open>One round; \<^verbatim>\<open>continue\<close> skips the progress counter.\<close>

definition seq_round :: "bytes \<Rightarrow> nat \<Rightarrow> bench_thread \<Rightarrow> bench_thread option" where
  "seq_round frame i st =
     (case write_all_frame frame st of
        (False, st1) \<Rightarrow> tcp_connect (add_error st1)
      | (True, st1) \<Rightarrow>
          map_option (\<lambda>st3. if i mod PROGRESS_GRANULARITY = 0 then tick_measure PROGRESS_GRANULARITY st3 else st3)
            (case read_exact_response st1 of
               (None, st2) \<Rightarrow> (case elapsed_ns st2 of (l, st3) \<Rightarrow> Some (push_latency l st3))
             | (Some e, st2) \<Rightarrow> tcp_connect (add_error st2)))"

primrec seq_loop :: "bytes \<Rightarrow> nat \<Rightarrow> nat \<Rightarrow> bench_thread \<Rightarrow> bench_thread option" where
  "seq_loop frame 0 i st = Some st"
| "seq_loop frame (Suc k) i st = Option.bind (seq_round frame i st) (seq_loop frame k (Suc i))"

subsection \<open>Pipelined measurement\<close>

primrec pipe_send :: "bytes \<Rightarrow> nat \<Rightarrow> bench_thread \<Rightarrow> nat \<times> bench_thread" where
  "pipe_send frame 0 st = (0, st)"
| "pipe_send frame (Suc k) st =
     (case write_all_frame frame st of
        (False, st1) \<Rightarrow> (0, add_error st1)
      | (True, st1) \<Rightarrow> (case pipe_send frame k st1 of (sent, st2) \<Rightarrow> (Suc sent, st2)))"

primrec pipe_recv :: "nat \<Rightarrow> bench_thread \<Rightarrow> (nat \<times> bench_thread) option" where
  "pipe_recv 0 st = Some (0, st)"
| "pipe_recv (Suc k) st =
     (case read_exact_response st of
        (None, st1) \<Rightarrow> map_option (\<lambda>(r, st2). (Suc r, st2)) (pipe_recv k st1)
      | (Some e, st1) \<Rightarrow>
          (if e \<in> {TimedOut, WouldBlock, ConnectionReset, UnexpectedEof}
           then map_option (Pair 0) (tcp_connect (add_error st1))
           else Some (0, add_error st1)))"

definition pipe_record :: "nat \<Rightarrow> bench_thread \<Rightarrow> bench_thread" where
  "pipe_record rcvd st =
     (if rcvd = 0 then st
      else case elapsed_ns st of
             (l, st1) \<Rightarrow> (push_latency (l div word_of_nat rcvd) ^^ rcvd) st1)"

function pipe_loop :: "bytes \<Rightarrow> nat \<Rightarrow> nat \<Rightarrow> nat \<Rightarrow> bench_thread \<Rightarrow> bench_thread option" where
  "pipe_loop frame pipeline count i st =
     (if \<not> i < count then Some st
      else let batch = min pipeline (count - i)
           in case pipe_send frame batch st of
                (sent, st1) \<Rightarrow>
                  (case pipe_recv sent st1 of
                     None \<Rightarrow> None
                   | Some (rcvd, st2) \<Rightarrow>
                       let advance = max sent 1
                       in pipe_loop frame pipeline count (i + advance)
                            (tick_measure advance (pipe_record rcvd st2))))"
  by pat_completeness auto
termination
  by (relation "measure (\<lambda>(frame, pipeline, count, i, st). count - i)") auto

declare pipe_loop.simps [simp del]

subsection \<open>A thread\<close>

text \<open>
  \<^verbatim>\<open>run_thread\<close>, without its latencies and errors at the start; the barrier only delays. The second
  component is \<^verbatim>\<open>elapsed_ns\<close> of the result.
\<close>

definition run_thread :: "u32 \<Rightarrow> nat \<Rightarrow> nat \<Rightarrow> nat \<Rightarrow> bench_thread \<Rightarrow> (bench_thread \<times> u64) option" where
  "run_thread uid n_warmup count pipeline st =
     (let frame = build_push uid
      in Option.bind (tcp_connect st) (\<lambda>st0.
           let st1 = (warmup frame n_warmup st0)\<lparr>bt_latencies := [], bt_errors := 0\<rparr>
           in Option.bind (if pipeline \<le> 1 then seq_loop frame count 0 st1 else pipe_loop frame pipeline count 0 st1)
                (\<lambda>st2. case elapsed_ns st2 of (wall, st3) \<Rightarrow> Some (st3, wall))))"

subsection \<open>Statistics\<close>

text \<open>
  \<^verbatim>\<open>percentile\<close>: \<open>rnd\<close> rounds a real number to the nearest \<^verbatim>\<open>f64\<close>, as every conversion, product and
  quotient does; \<open>None\<close> is the panic of the subtraction at rank zero. What is used of \<open>rnd\<close> is below.
\<close>

definition percentile :: "(real \<Rightarrow> real) \<Rightarrow> u64 list \<Rightarrow> real \<Rightarrow> u64 option" where
  "percentile rnd xs p =
     (if xs = [] then Some 0
      else let rank = min (nat \<lceil>rnd (rnd (rnd (real (length xs)) * p) / 100)\<rceil>) (length xs)
           in if rank = 0 then None else Some (xs ! (rank - 1)))"

text \<open>
  The rounding of \<^verbatim>\<open>f64\<close> to nearest keeps the order and the numbers that \<^verbatim>\<open>f64\<close> can represent, and its
  relative error is at most \<open>2 ^ - 53\<close>.
\<close>

definition f64_rounding :: "(real \<Rightarrow> real) \<Rightarrow> bool" where
  "f64_rounding rnd \<longleftrightarrow> mono rnd \<and> rnd (1 / 2) = 1 / 2 \<and> (\<forall>k \<le> 2 ^ 53. rnd (real k) = real k)
     \<and> (\<forall>x. 1 \<le> x \<longrightarrow> x \<le> 2 ^ 64 \<longrightarrow> \<bar>rnd x - x\<bar> \<le> x / 2 ^ 53)"

definition micro_sign :: string where
  "micro_sign = [char_of (0xC2 :: nat), char_of (0xB5 :: nat)]"

definition fmt_ns :: "(real \<Rightarrow> real) \<Rightarrow> u64 \<Rightarrow> string" where
  "fmt_ns rnd ns =
     (if ns < 1000 then show_nat (unat ns) @ '' ns''
      else if ns < 1000000 then show_fixed 1 (rnd (rnd (real (unat ns)) / 1000)) @ '' '' @ micro_sign @ ''s''
      else show_fixed 2 (rnd (rnd (real (unat ns)) / 1000000)) @ '' ms'')"

text \<open>\<^verbatim>\<open>print_progress\<close>: the percentage and the count that are shown; the product is one of \<^verbatim>\<open>usize\<close>.\<close>

definition print_progress :: "nat \<Rightarrow> nat \<Rightarrow> nat \<times> nat" where
  "print_progress ndone ntotal =
     (unat (word_of_nat (min ndone ntotal * 100) :: u64) div max ntotal 1, min ndone ntotal)"

text \<open>
  The loops of \<^verbatim>\<open>main\<close> that wait for the threads. A sample is the counter that was loaded, with
  whether 120 seconds have passed, or all threads have finished. The result is the number of rounds,
  \<open>None\<close> when the loop goes on after the last sample.
\<close>

primrec progress_wait :: "nat \<Rightarrow> (nat \<times> bool) list \<Rightarrow> nat option" where
  "progress_wait ntotal [] = None"
| "progress_wait ntotal (x # xs) =
     (if ntotal \<le> fst x \<or> snd x then Some 1 else map_option Suc (progress_wait ntotal xs))"

record bench_report =
  br_total :: nat
  br_successful :: nat
  br_errors :: nat
  br_wall_ns :: u64
  br_latencies :: "u64 list"

definition collect_results :: "nat \<Rightarrow> (bench_thread \<times> u64) list \<Rightarrow> bench_report" where
  "collect_results total_count results =
     (let all = sort (concat (map (\<lambda>(r, _). bt_latencies r) results))
      in \<lparr>br_total = total_count, br_successful = length all,
          br_errors = sum_list (map (\<lambda>(r, _). bt_errors r) results),
          br_wall_ns = (if results = [] then 1 else Max (set (map snd results))),
          br_latencies = all\<rparr>)"

text \<open>
  The end of \<^verbatim>\<open>main\<close>: the throughput, \<open>None\<close> when the division by the time gives no finite number, and
  the lines of the table of latencies; it is \<open>None\<close> when a percentile panics. The literal 99.9 is the \<^verbatim>\<open>f64\<close> next to it.
\<close>

definition throughput :: "(real \<Rightarrow> real) \<Rightarrow> bench_report \<Rightarrow> real option" where
  "throughput rnd rep =
     (let secs = rnd (rnd (real (unat (br_wall_ns rep))) / 1000000000)
      in if secs = 0 then None else Some (rnd (rnd (real (br_successful rep)) / secs)))"

definition latency_table :: "(real \<Rightarrow> real) \<Rightarrow> u64 list \<Rightarrow> u64 list option" where
  "latency_table rnd xs =
     (case those (map (percentile rnd xs) [50, 90, 95, 99, rnd (999 / 10)]) of
        None \<Rightarrow> None
      | Some ps \<Rightarrow> Some ((if xs = [] then 0 else hd xs) # ps @ [if xs = [] then 0 else last xs]))"

definition latency_labels :: "string list" where
  "latency_labels = [''  min   : '', ''  p50   : '', ''  p90   : '', ''  p95   : '', ''  p99   : '', ''  p99.9 : '', ''  max   : '']"

definition print_latencies :: "(real \<Rightarrow> real) \<Rightarrow> bench_report \<Rightarrow> string list option" where
  "print_latencies rnd rep =
     map_option (\<lambda>t. map2 (@) latency_labels (map (fmt_ns rnd) t)) (latency_table rnd (br_latencies rep))"

subsection \<open>The command line and the main function\<close>

record bench_cfg =
  bc_addr :: string
  bc_threads :: nat
  bc_count :: nat
  bc_warmup :: nat
  bc_uid :: u32
  bc_pipeline :: nat

definition default_cfg :: bench_cfg where
  "default_cfg = \<lparr>bc_addr = ''127.0.0.1:7379'', bc_threads = 4, bc_count = 100000, bc_warmup = 500,
     bc_uid = 1, bc_pipeline = 1\<rparr>"

text \<open>The flags with a number; the setter of \<^verbatim>\<open>--uid\<close> gets a 32-bit value.\<close>

definition flag_setter :: "string \<Rightarrow> ((nat \<Rightarrow> bench_cfg \<Rightarrow> bench_cfg) \<times> nat) option" where
  "flag_setter a =
     (if a = ''--threads'' then Some (\<lambda>k c. c\<lparr>bc_threads := k\<rparr>, 2 ^ 64)
      else if a = ''--count'' then Some (\<lambda>k c. c\<lparr>bc_count := k\<rparr>, 2 ^ 64)
      else if a = ''--warmup'' then Some (\<lambda>k c. c\<lparr>bc_warmup := k\<rparr>, 2 ^ 64)
      else if a = ''--uid'' then Some (\<lambda>k c. c\<lparr>bc_uid := word_of_nat k\<rparr>, 2 ^ 32)
      else if a = ''--pipeline'' then Some (\<lambda>k c. c\<lparr>bc_pipeline := k\<rparr>, 2 ^ 64)
      else None)"

fun parse_args :: "string list \<Rightarrow> bench_cfg \<Rightarrow> panic + bench_cfg" where
  "parse_args [] cfg = Inr cfg"
| "parse_args (a # args) cfg =
     (case flag_setter a of
        Some (set_field, bound) \<Rightarrow>
          (case args of
             [] \<Rightarrow> Inl (Panic ''index out of bounds'')
           | v # args' \<Rightarrow>
               (case parse_unsigned bound v of
                  None \<Rightarrow> Inl (Panic ''ParseIntError'')
                | Some k \<Rightarrow> parse_args args' (set_field k cfg)))
      | None \<Rightarrow>
          if take 2 a \<noteq> ''--'' then parse_args args (cfg\<lparr>bc_addr := a\<rparr>)
          else parse_args args cfg)"

text \<open>\<^verbatim>\<open>main\<close>: the threads run independently, each on its own connection; \<open>None\<close> is the exit of a thread.\<close>

definition bench_main :: "string list \<Rightarrow> (nat \<Rightarrow> bench_thread) \<Rightarrow> panic + bench_report option" where
  "bench_main args ths =
     (case parse_args args default_cfg of
        Inl p \<Rightarrow> Inl p
      | Inr cfg \<Rightarrow>
          if bc_threads cfg = 0 then Inl (Panic ''attempt to divide by zero'')
          else let per_thread = max (bc_count cfg div bc_threads cfg) 1;
                   total_count = per_thread * bc_threads cfg;
                   rs = map (\<lambda>i. run_thread (bc_uid cfg) (bc_warmup cfg) per_thread (bc_pipeline cfg) (ths i))
                          [0..<bc_threads cfg]
               in Inr (if None \<in> set rs then None else Some (collect_results total_count (map the rs))))"

section \<open>Accounting\<close>

lemma send_bytes_counts [simp]:
  "bt_latencies (send_bytes bs st) = bt_latencies st" "bt_errors (send_bytes bs st) = bt_errors st"
  by (simp_all add: send_bytes_def)

lemma write_all_counts:
  "write_all_frame frame st = (ok, st') \<Longrightarrow> bt_latencies st' = bt_latencies st \<and> bt_errors st' = bt_errors st"
  by (auto simp: write_all_frame_def Let_def split: option.splits)

lemma read_exact_counts:
  "read_exact_response st = (r, st') \<Longrightarrow> bt_latencies st' = bt_latencies st \<and> bt_errors st' = bt_errors st"
  by (auto simp: read_exact_response_def)

lemma tcp_connect_counts:
  "tcp_connect st = Some st' \<Longrightarrow> bt_latencies st' = bt_latencies st \<and> bt_errors st' = bt_errors st"
  by (auto simp: tcp_connect_def split: if_splits)

lemma seq_round_counts:
  "seq_round frame i st = Some st' \<Longrightarrow>
     length (bt_latencies st') + bt_errors st' = Suc (length (bt_latencies st) + bt_errors st)"
  by (auto simp: seq_round_def elapsed_ns_def push_latency_def add_error_def tick_measure_def
      dest!: write_all_counts read_exact_counts tcp_connect_counts split: prod.splits bool.splits option.splits)

lemma seq_loop_counts:
  "seq_loop frame k i st = Some st' \<Longrightarrow>
     length (bt_latencies st') + bt_errors st' = k + (length (bt_latencies st) + bt_errors st)"
proof (induction k arbitrary: i st)
  case (Suc k)
  then obtain st1 where "seq_round frame i st = Some st1" "seq_loop frame k (Suc i) st1 = Some st'"
    by (auto split: bind_splits)
  with Suc.IH seq_round_counts show ?case by fastforce
qed simp

lemma pipe_send_counts:
  "pipe_send frame k st = (sent, st') \<Longrightarrow> sent \<le> k \<and> bt_latencies st' = bt_latencies st
     \<and> bt_errors st' = bt_errors st + (if sent < k then 1 else 0)"
proof (induction k arbitrary: st sent)
  case (Suc k)
  obtain ok st1 where w: "write_all_frame frame st = (ok, st1)" by fastforce
  show ?case
  proof (cases ok)
    case True
    with Suc.prems w obtain j where j: "pipe_send frame k st1 = (j, st')" "sent = Suc j"
      by (auto split: prod.splits)
    with Suc.IH [OF j(1)] write_all_counts [OF w] show ?thesis by simp
  next
    case False
    with Suc.prems w write_all_counts [OF w] show ?thesis by (auto simp: add_error_def)
  qed
qed simp

lemma pipe_recv_counts:
  "pipe_recv k st = Some (r, st') \<Longrightarrow> r \<le> k \<and> bt_latencies st' = bt_latencies st
     \<and> bt_errors st' = bt_errors st + (if r < k then 1 else 0)"
proof (induction k arbitrary: st r)
  case (Suc k)
  obtain e st1 where rd: "read_exact_response st = (e, st1)" by fastforce
  show ?case
  proof (cases e)
    case None
    with Suc.prems rd obtain j where j: "pipe_recv k st1 = Some (j, st')" "r = Suc j" by auto
    with Suc.IH [OF j(1)] read_exact_counts [OF rd] show ?thesis by simp
  next
    case (Some err)
    with Suc.prems rd read_exact_counts [OF rd] show ?thesis
      by (auto simp: add_error_def dest!: tcp_connect_counts split: if_splits)
  qed
qed simp

lemma push_latency_iterate:
  "bt_latencies ((push_latency l ^^ k) st) = bt_latencies st @ replicate k l
   \<and> bt_errors ((push_latency l ^^ k) st) = bt_errors st"
  by (induction k) (simp_all add: push_latency_def replicate_append_same)

lemma pipe_record_counts:
  "length (bt_latencies (pipe_record k st)) = length (bt_latencies st) + k \<and> bt_errors (pipe_record k st) = bt_errors st"
  by (auto simp: pipe_record_def elapsed_ns_def push_latency_iterate)

lemma pipe_loop_counts:
  assumes "pipe_loop frame pipeline count i st = Some st'" and "0 < pipeline"
  shows "length (bt_latencies st') \<le> length (bt_latencies st) + (count - i)
     \<and> bt_errors st \<le> bt_errors st' \<and> bt_errors st' \<le> bt_errors st + 2 * (count - i)
     \<and> (bt_errors st' = bt_errors st \<longrightarrow> length (bt_latencies st') = length (bt_latencies st) + (count - i))"
  using assms
proof (induction frame pipeline count i st rule: pipe_loop.induct)
  case (1 frame pipeline count i st)
  show ?case
  proof (cases "i < count")
    case False
    with 1(2) show ?thesis by (subst (asm) pipe_loop.simps) auto
  next
    case True
    let ?batch = "min pipeline (count - i)"
    obtain sent st1 where s: "pipe_send frame ?batch st = (sent, st1)" by fastforce
    from 1(2) True s obtain k st2 where r: "pipe_recv sent st1 = Some (k, st2)"
      by (subst (asm) pipe_loop.simps) (auto simp: Let_def split: option.splits)
    let ?st3 = "tick_measure (max sent 1) (pipe_record k st2)"
    have rec: "pipe_loop frame pipeline count (i + max sent 1) ?st3 = Some st'"
      using 1(2) True s r by (subst (asm) pipe_loop.simps) (simp add: Let_def)
    note sc = pipe_send_counts [OF s] and rc = pipe_recv_counts [OF r]
    have l3: "length (bt_latencies ?st3) = length (bt_latencies st) + k"
      "bt_errors ?st3 = bt_errors st + (if sent < ?batch then 1 else 0) + (if k < sent then 1 else 0)"
      using sc rc pipe_record_counts [of k st2] by (simp_all add: tick_measure_def)
    have ih: "length (bt_latencies st') \<le> length (bt_latencies ?st3) + (count - (i + max sent 1))
       \<and> bt_errors ?st3 \<le> bt_errors st' \<and> bt_errors st' \<le> bt_errors ?st3 + 2 * (count - (i + max sent 1))
       \<and> (bt_errors st' = bt_errors ?st3 \<longrightarrow>
            length (bt_latencies st') = length (bt_latencies ?st3) + (count - (i + max sent 1)))"
      using 1(1) [OF _ refl s [symmetric] r refl refl] True rec 1(3) by simp
    have b: "0 < ?batch" "sent \<le> count - i" "k \<le> sent" using True 1(3) sc rc by auto
    have adv: "count - (i + max sent 1) + max sent 1 = count - i" using b True by auto
    show ?thesis
    proof (cases "bt_errors st' = bt_errors st")
      case True
      then have "\<not> sent < ?batch" "\<not> k < sent" "bt_errors st' = bt_errors ?st3" using ih l3(2) by (auto split: if_splits)
      then have "k = sent" "max sent 1 = sent" using b by auto
      with ih l3 adv True \<open>bt_errors st' = bt_errors ?st3\<close> show ?thesis by auto
    next
      case False
      have "k \<le> max sent 1" "1 \<le> max sent 1" using b(3) by simp_all
      moreover have "bt_errors st \<le> bt_errors ?st3" "bt_errors ?st3 \<le> bt_errors st + 2" unfolding l3(2) by simp_all
      ultimately have "length (bt_latencies st') \<le> length (bt_latencies st) + (count - i)"
        "bt_errors st \<le> bt_errors st'" "bt_errors st' \<le> bt_errors st + 2 * (count - i)"
        using ih l3(1) adv by linarith+
      with False show ?thesis by blast
    qed
  qed
qed

lemma run_thread_counts:
  assumes "run_thread uid n_warmup count pipeline st = Some (st', wall)"
  shows "if pipeline \<le> 1 then length (bt_latencies st') + bt_errors st' = count
     else length (bt_latencies st') \<le> count \<and> bt_errors st' \<le> 2 * count
       \<and> (bt_errors st' = 0 \<longrightarrow> length (bt_latencies st') = count)"
proof -
  from assms obtain st0 where "tcp_connect st = Some st0" by (auto simp: run_thread_def Let_def split: bind_splits)
  define st1 where "st1 = (warmup (build_push uid) n_warmup st0)\<lparr>bt_latencies := [], bt_errors := 0\<rparr>"
  with assms \<open>tcp_connect st = Some st0\<close> obtain st2
    where run: "(if pipeline \<le> 1 then seq_loop (build_push uid) count 0 st1
               else pipe_loop (build_push uid) pipeline count 0 st1) = Some st2"
    and st': "bt_latencies st' = bt_latencies st2" "bt_errors st' = bt_errors st2"
    by (auto simp: run_thread_def Let_def elapsed_ns_def split: bind_splits)
  have st1: "bt_latencies st1 = []" "bt_errors st1 = 0" by (simp_all add: st1_def)
  show ?thesis
  proof (cases "pipeline \<le> 1")
    case True
    with run seq_loop_counts [of "build_push uid" count 0 st1 st2] st1 st' show ?thesis by simp
  next
    case False
    with run pipe_loop_counts [of "build_push uid" pipeline count 0 st1 st2] st1 st' show ?thesis by simp
  qed
qed

text \<open>A thread ends with a result when every connection it asks for is made.\<close>

definition connects_ok :: "bench_thread \<Rightarrow> bool" where
  "connects_ok st \<longleftrightarrow> (\<forall>b \<in> set (bt_connects st). b)"

lemma connects_ok_kept [simp]:
  "connects_ok (send_bytes bs st) = connects_ok st" "connects_ok (add_error st) = connects_ok st"
  "connects_ok (push_latency l st) = connects_ok st" "connects_ok (tick_measure k st) = connects_ok st"
  "connects_ok (st\<lparr>bt_warmup_done := w\<rparr>) = connects_ok st" "connects_ok (st\<lparr>bt_writes := ws\<rparr>) = connects_ok st"
  "connects_ok (st\<lparr>bt_reads := rs\<rparr>) = connects_ok st" "connects_ok (st\<lparr>bt_clock := cs\<rparr>) = connects_ok st"
  "connects_ok (st\<lparr>bt_latencies := ls, bt_errors := e\<rparr>) = connects_ok st"
  by (simp_all add: connects_ok_def send_bytes_def add_error_def push_latency_def tick_measure_def)

lemma write_all_connects: "write_all_frame frame st = (ok, st') \<Longrightarrow> connects_ok st' = connects_ok st"
  by (auto simp: write_all_frame_def Let_def split: option.splits)

lemma read_exact_connects: "read_exact_response st = (r, st') \<Longrightarrow> connects_ok st' = connects_ok st"
  by (auto simp: read_exact_response_def)

lemma tcp_connect_ok:
  assumes "connects_ok st"
  obtains st' where "tcp_connect st = Some st'" and "connects_ok st'"
  using assms by (cases "bt_connects st") (auto simp: connects_ok_def tcp_connect_def next_in_def)

lemma warmup_loop_connects: "connects_ok (warmup_loop frame k i st) = connects_ok st"
  by (induction k arbitrary: i st)
    (auto simp: Let_def dest!: write_all_connects read_exact_connects split: prod.splits bool.splits option.splits)

lemma seq_round_connects:
  assumes "connects_ok st"
  obtains st' where "seq_round frame i st = Some st'" and "connects_ok st'"
proof -
  obtain ok st1 where w: "write_all_frame frame st = (ok, st1)" by fastforce
  obtain e st2 where r: "read_exact_response st1 = (e, st2)" by fastforce
  have c: "connects_ok (add_error st1)" "connects_ok (add_error st2)" "connects_ok st2"
    using assms write_all_connects [OF w] read_exact_connects [OF r] by simp_all
  obtain a where a: "tcp_connect (add_error st1) = Some a" "connects_ok a" using tcp_connect_ok [OF c(1)] .
  obtain b where b: "tcp_connect (add_error st2) = Some b" "connects_ok b" using tcp_connect_ok [OF c(2)] .
  from w r a b c(3) have "\<exists>st'. seq_round frame i st = Some st' \<and> connects_ok st'"
    by (cases ok; cases e) (simp_all add: seq_round_def elapsed_ns_def)
  then show ?thesis using that by blast
qed

lemma seq_loop_connects: "connects_ok st \<Longrightarrow> \<exists>st'. seq_loop frame k i st = Some st'"
proof (induction k arbitrary: i st)
  case (Suc k)
  obtain st1 where "seq_round frame i st = Some st1" "connects_ok st1" using seq_round_connects [OF Suc.prems] .
  with Suc.IH show ?case by simp
qed simp

lemma pipe_send_connects: "pipe_send frame k st = (sent, st') \<Longrightarrow> connects_ok st' = connects_ok st"
  by (induction k arbitrary: st sent)
    (auto dest!: write_all_connects split: prod.splits bool.splits)

lemma pipe_recv_connects: "connects_ok st \<Longrightarrow> \<exists>r st'. pipe_recv k st = Some (r, st') \<and> connects_ok st'"
proof (induction k arbitrary: st)
  case (Suc k)
  obtain e st1 where rd: "read_exact_response st = (e, st1)" by fastforce
  have c: "connects_ok st1" "connects_ok (add_error st1)" using Suc.prems read_exact_connects [OF rd] by simp_all
  obtain a where a: "tcp_connect (add_error st1) = Some a" "connects_ok a" using tcp_connect_ok [OF c(2)] .
  from Suc.IH [OF c(1)] obtain r st' where "pipe_recv k st1 = Some (r, st')" "connects_ok st'" by blast
  with rd a c show ?case by (cases e) simp_all
qed simp

lemma pipe_record_connects [simp]: "connects_ok (pipe_record k st) = connects_ok st"
proof -
  have "connects_ok ((push_latency l ^^ j) st') = connects_ok st'" for l j st' by (induction j) simp_all
  then show ?thesis by (simp add: pipe_record_def elapsed_ns_def)
qed

lemma pipe_loop_connects: "connects_ok st \<Longrightarrow> \<exists>st'. pipe_loop frame pipeline count i st = Some st'"
proof (induction frame pipeline count i st rule: pipe_loop.induct)
  case (1 frame pipeline count i st)
  show ?case
  proof (cases "i < count")
    case True
    obtain sent st1 where s: "pipe_send frame (min pipeline (count - i)) st = (sent, st1)" by fastforce
    from pipe_recv_connects [of st1 sent] pipe_send_connects [OF s] 1(2)
    obtain r st2 where r: "pipe_recv sent st1 = Some (r, st2)" "connects_ok st2" by auto
    from 1(1) [OF _ refl s [symmetric] r(1) refl refl] True r(2)
    show ?thesis by (subst pipe_loop.simps) (simp add: Let_def s r(1))
  qed (simp add: pipe_loop.simps)
qed

lemma run_thread_ends:
  assumes "connects_ok st"
  obtains st' wall where "run_thread uid n_warmup count pipeline st = Some (st', wall)"
proof -
  obtain st0 where st0: "tcp_connect st = Some st0" "connects_ok st0" using tcp_connect_ok [OF assms] .
  define st1 where "st1 = (warmup (build_push uid) n_warmup st0)\<lparr>bt_latencies := [], bt_errors := 0\<rparr>"
  have "connects_ok st1" using st0(2) by (simp add: st1_def warmup_def Let_def warmup_loop_connects)
  then obtain st2 where "(if pipeline \<le> 1 then seq_loop (build_push uid) count 0 st1
      else pipe_loop (build_push uid) pipeline count 0 st1) = Some st2"
    using seq_loop_connects [of st1 "build_push uid" count 0]
      pipe_loop_connects [of st1 "build_push uid" pipeline count 0] by (cases "pipeline \<le> 1") auto
  then show ?thesis using that st0(1) unfolding st1_def by (simp add: run_thread_def Let_def elapsed_ns_def)
qed

section \<open>Properties\<close>

lemma build_push_request:
  "build_push uid = request_frame OPCODE_PUSH uid (record_to_bytes \<lparr>event_type = 1, timestamp = 0, url_hash = 0\<rparr>)"
proof -
  have frame: "(blit (blit ((blit (replicate 26 0) 0 m)[2 := opc]) 3 u) 7 l)[9 := 1]
      = m @ [opc] @ u @ l @ 1 # replicate 16 (0 :: u8)"
    if len: "length m = 2" "length u = 4" "length l = 2" for m u l :: bytes and opc
  proof -
    have "replicate 26 (0 :: u8) = replicate 2 0 @ [0] @ replicate 4 0 @ replicate 2 0 @ 0 # replicate 16 0"
      by (simp flip: replicate_add replicate_Suc)
    then show ?thesis using len by (simp add: blit_def list_update_append)
  qed
  have "to_le k 0 = replicate k (0 :: u8)" for k by (induction k) simp_all
  then have "u64_to_le_bytes 0 = replicate 8 0" by (simp add: u64_to_le_bytes_def)
  then show ?thesis
    by (simp add: build_push_def request_frame_def request_header_def record_to_bytes_def Let_def frame
        bench_magic_wire_def bench_opcode_push_def MAGIC_WIRE_def OPCODE_PUSH_def flip: replicate_add)
qed

text \<open>
  C31: client and server agree. A frame of the load generator that arrives at an idle connection of
  the server, whole or in pieces, is served as a PUSH for its user id: the record is logged and
  stored, exactly the frame is taken from the socket, and the answer has the five bytes that the
  client reads.
\<close>

theorem bench_request_served:
  assumes "el_inv n el" and "el_connections el fd = Some c" and "cn_state c \<in> {ReadHeader, ReadPayload}"
    and "reads_flow (k_socks (el_kernel el) fd)"
    and "received c @ sk_in (k_socks (el_kernel el) fd) = build_push uid @ rest"
    and "uid \<in> dom (store_view (el_store el)) \<or> card (dom (store_view (el_store el))) < store_slots (el_store el)"
  shows "\<exists>el' c'. handle_read n now el fd = Done el' \<and> el_inv n el'
     \<and> store_view (el_store el')
         = abs_push n (store_view (el_store el)) uid \<lparr>event_type = 1, timestamp = 0, url_hash = 0\<rparr> now
     \<and> el_connections el' fd = Some c' \<and> k_epoll (el_kernel el') fd = Some EpollOut
     \<and> length (conn_output c') = 5 \<and> sk_in (k_socks (el_kernel el') fd) = rest"
proof -
  have "length (response_frame STATUS_OK []) = 5" by (simp add: response_frame_def)
  with push_request_ok [OF assms(1-4) _ assms(6), of "\<lparr>event_type = 1, timestamp = 0, url_hash = 0\<rparr>" rest now] assms(5)
  show ?thesis by (auto simp: build_push_request)
qed

theorem bench_request_served_witness:
  "\<exists>el'. handle_read 2 40 (sample_loop (build_push 7 @ [1])) 5 = Done el'
     \<and> store_view (el_store el') = [7 \<mapsto> ([\<lparr>event_type = 1, timestamp = 0, url_hash = 0\<rparr>], 40)]"
proof -
  have "received (connection_new 2 (\<lambda>_. 0) 5) = []" "cn_state (connection_new 2 (\<lambda>_. 0) 5) \<in> {ReadHeader, ReadPayload}"
    by (simp_all add: received_def connection_new_def)
  with bench_request_served [OF sample_loop_inv(1) sample_loop_fields(1) _ sample_loop_fields(5),
      where input1 = "build_push 7 @ [1]" and uid = 7 and rest = "[1]" and now = 40]
  show ?thesis
    by (auto simp: sample_loop_fields sample_store_ok abs_push_def hist_records_def)
qed

text \<open>The report sums up the threads.\<close>

lemma sum_list_same: "(\<And>x. x \<in> set xs \<Longrightarrow> f x = (c :: nat)) \<Longrightarrow> sum_list (map f xs) = length xs * c"
  by (induction xs) auto

lemma sum_list_le: "(\<And>x. x \<in> set xs \<Longrightarrow> f x \<le> (c :: nat)) \<Longrightarrow> sum_list (map f xs) \<le> length xs * c"
  by (induction xs) (auto simp: add_le_mono)

lemma collect_results_counts:
  "br_successful (collect_results t rs) = sum_list (map (\<lambda>r. length (bt_latencies (fst r))) rs)"
  "br_errors (collect_results t rs) = sum_list (map (\<lambda>r. bt_errors (fst r)) rs)"
  "br_total (collect_results t rs) = t"
  by (simp_all add: collect_results_def Let_def length_concat comp_def split_def)

lemma bench_main_report:
  assumes "parse_args args default_cfg = Inr cfg" and "0 < bc_threads cfg" and "\<And>i. connects_ok (ths i)"
  defines "per_thread \<equiv> max (bc_count cfg div bc_threads cfg) 1"
  obtains rs where "bench_main args ths = Inr (Some (collect_results (per_thread * bc_threads cfg) rs))"
    and "length rs = bc_threads cfg"
    and "\<And>r. r \<in> set rs \<Longrightarrow> \<exists>i. run_thread (bc_uid cfg) (bc_warmup cfg) per_thread (bc_pipeline cfg) (ths i) = Some r"
proof -
  let ?run = "\<lambda>i. run_thread (bc_uid cfg) (bc_warmup cfg) per_thread (bc_pipeline cfg) (ths i)"
  have run: "\<exists>r. ?run i = Some r" for i using run_thread_ends [OF assms(3)] by metis
  then have all: "None \<notin> set (map ?run [0..<bc_threads cfg])" by (auto simp: image_iff) (metis option.distinct(1))
  show ?thesis
  proof (rule that)
    show "bench_main args ths
        = Inr (Some (collect_results (per_thread * bc_threads cfg) (map the (map ?run [0..<bc_threads cfg]))))"
      using assms(1,2) all unfolding per_thread_def by (simp add: bench_main_def Let_def)
    show "\<exists>i. ?run i = Some r" if "r \<in> set (map the (map ?run [0..<bc_threads cfg]))" for r
      using that run by (auto simp: image_iff)
  qed simp
qed

text \<open>
  C32: what the report of the load generator accounts for. When all connections are made the
  program ends with a report for the requests of all threads; in sequential mode every request is
  counted once, as a success with a latency or as an error; in pipelined mode there are at most as many
  successes as requests and at most twice as many errors, and a report without errors counts every
  request as a success.
\<close>

theorem bench_report_accounts:
  assumes "parse_args args default_cfg = Inr cfg" and "0 < bc_threads cfg" and "\<And>i. connects_ok (ths i)"
  shows "\<exists>rep. bench_main args ths = Inr (Some rep) \<and> sorted (br_latencies rep)
     \<and> length (br_latencies rep) = br_successful rep
     \<and> br_total rep = max (bc_count cfg div bc_threads cfg) 1 * bc_threads cfg
     \<and> (if bc_pipeline cfg \<le> 1 then br_successful rep + br_errors rep = br_total rep
        else br_successful rep \<le> br_total rep \<and> br_errors rep \<le> 2 * br_total rep
          \<and> (br_errors rep = 0 \<longrightarrow> br_successful rep = br_total rep))"
proof -
  define k where "k = max (bc_count cfg div bc_threads cfg) 1"
  obtain rs where main: "bench_main args ths = Inr (Some (collect_results (k * bc_threads cfg) rs))"
    and len: "length rs = bc_threads cfg"
    and rs: "\<And>r. r \<in> set rs \<Longrightarrow> \<exists>i. run_thread (bc_uid cfg) (bc_warmup cfg) k (bc_pipeline cfg) (ths i) = Some r"
    by (rule bench_main_report [of args cfg ths, OF assms, folded k_def]) blast
  let ?rep = "collect_results (k * bc_threads cfg) rs"
  let ?l = "\<lambda>r :: bench_thread \<times> u64. length (bt_latencies (fst r))" and ?e = "\<lambda>r :: bench_thread \<times> u64. bt_errors (fst r)"
  have each: "if bc_pipeline cfg \<le> 1 then ?l r + ?e r = k else ?l r \<le> k \<and> ?e r \<le> 2 * k \<and> (?e r = 0 \<longrightarrow> ?l r = k)"
    if "r \<in> set rs" for r
    using rs [OF that] run_thread_counts by (metis prod.collapse)
  note counts = collect_results_counts [of "k * bc_threads cfg" rs] and le = sum_list_le [of rs ?l k] sum_list_le [of rs ?e "2 * k"]
  have "if bc_pipeline cfg \<le> 1 then br_successful ?rep + br_errors ?rep = k * bc_threads cfg
     else br_successful ?rep \<le> k * bc_threads cfg \<and> br_errors ?rep \<le> 2 * (k * bc_threads cfg)
       \<and> (br_errors ?rep = 0 \<longrightarrow> br_successful ?rep = k * bc_threads cfg)"
  proof (cases "bc_pipeline cfg \<le> 1")
    case True
    with each sum_list_same [of rs "\<lambda>r. ?l r + ?e r" k] len show ?thesis
      by (simp add: counts sum_list_addf mult.commute)
  next
    case False
    have "sum_list (map ?l rs) = length rs * k" if "sum_list (map ?e rs) = 0"
      using that each False by (intro sum_list_same) (auto simp: sum_list_eq_0_iff)
    with False each le len show ?thesis by (simp add: counts mult.commute mult.left_commute)
  qed
  moreover have "sorted (br_latencies ?rep)" "length (br_latencies ?rep) = br_successful ?rep" "br_total ?rep = k * bc_threads cfg"
    by (simp_all add: collect_results_def Let_def)
  ultimately show ?thesis using main unfolding k_def by auto
qed

definition sample_thread :: bench_thread where
  "sample_thread = \<lparr>bt_writes = [None, Some 3], bt_reads = [], bt_connects = [], bt_clock = [4, 5], bt_conns = [],
     bt_latencies = [], bt_errors = 0, bt_warmup_done = 0, bt_measure_done = 0\<rparr>"

theorem bench_report_accounts_witness:
  "\<exists>rep. bench_main [''--warmup'', ''0'', ''--count'', ''3'', ''--threads'', ''1''] (\<lambda>_. sample_thread) = Inr (Some rep)
     \<and> br_successful rep + br_errors rep = 3"
proof -
  let ?args = "[''--warmup'', ''0'', ''--count'', ''3'', ''--threads'', ''1'']"
  let ?cfg = "default_cfg\<lparr>bc_warmup := 0, bc_count := 3, bc_threads := 1\<rparr>"
  have p: "parse_args ?args default_cfg = Inr ?cfg"
    by (simp add: flag_setter_def parse_unsigned_def ascii_digit_def default_cfg_def)
  have f: "bc_count ?cfg = 3" "bc_threads ?cfg = 1" "bc_pipeline ?cfg = 1" by (simp_all add: default_cfg_def)
  show ?thesis
    using bench_report_accounts [OF p, of "\<lambda>_. sample_thread"] unfolding f
    by (auto simp: connects_ok_def sample_thread_def)
qed

subsection \<open>Progress\<close>

lemma print_progress_bounds:
  assumes "print_progress ndone ntotal = (pct, shown)" and "ntotal \<le> 2 ^ 57"
  shows "pct \<le> 100" and "pct = 100 \<longleftrightarrow> 0 < ntotal \<and> ntotal \<le> ndone" and "shown \<le> ntotal"
proof -
  have "min ndone ntotal * 100 \<le> 2 ^ 57 * 100" using assms(2) by (intro mult_le_mono) auto
  then have "min ndone ntotal * 100 < 2 ^ 64" by (rule le_less_trans) simp
  then have "unat (word_of_nat (min ndone ntotal * 100) :: u64) = min ndone ntotal * 100"
    by (simp add: unat_of_nat del: of_nat_mult)
  then have p: "pct = min ndone ntotal * 100 div max ntotal 1" and sh: "shown = min ndone ntotal"
    using assms(1) by (auto simp: print_progress_def)
  show "shown \<le> ntotal" by (simp add: sh)
  have top: "0 < ntotal \<Longrightarrow> ntotal \<le> ndone \<Longrightarrow> pct = 100" by (simp add: p)
  have low: "pct < 100" if "\<not> (0 < ntotal \<and> ntotal \<le> ndone)"
    using that by (auto simp: p div_less_iff_less_mult max_def)
  show "pct \<le> 100" using top low by fastforce
  show "pct = 100 \<longleftrightarrow> 0 < ntotal \<and> ntotal \<le> ndone" using top low by fastforce
qed

text \<open>
  The wait ends with the first sample that reaches the total or meets the other condition. The counter
  of a warmup without errors reaches its number of requests, so the wait for the warmup ends without
  its timeout.
\<close>

lemma progress_wait_ends: "(\<exists>k. progress_wait ntotal xs = Some k) \<longleftrightarrow> (\<exists>x \<in> set xs. ntotal \<le> fst x \<or> snd x)"
  by (induction xs) auto

lemma granules_Suc:
  "(Suc i + 255) div 256 = (i + 255) div 256 + (if i mod 256 = 0 then 1 else (0 :: nat))"
proof -
  obtain q r where i: "i = r + q * 256" "r < 256" by (metis div_mod_decomp mod_less_divisor add.commute zero_less_numeral)
  have "(i + 255) div 256 = q + (r + 255) div 256" unfolding i(1) by simp
  moreover have "(Suc i + 255) div 256 = q + 1" using i(2) unfolding i(1) by simp
  moreover have "(r + 255) div 256 = (if r = 0 then 0 else 1)"
  proof (cases r)
    case (Suc k)
    then have "r + 255 = k + 1 * 256" "k < 256" using i(2) by simp_all
    then show ?thesis using Suc by (simp only: div_mult_self3) simp
  qed simp
  moreover have "i mod 256 = r" using i by simp
  ultimately show ?thesis by simp
qed

lemma warmup_loop_counter:
  assumes "set (bt_writes st) \<subseteq> {None}" and "set (bt_reads st) \<subseteq> {None}"
  shows "bt_warmup_done (warmup_loop frame k i st) + (i + 255) div 256 * 256
     = bt_warmup_done st + (i + k + 255) div 256 * 256"
  using assms
proof (induction k arbitrary: i st)
  case (Suc k)
  have n: "next_in None (bt_writes st) = None" "next_in None (bt_reads st) = None"
    "set (tl (bt_writes st)) \<subseteq> {None}" "set (tl (bt_reads st)) \<subseteq> {None}"
    using Suc.prems by (cases "bt_writes st"; cases "bt_reads st"; simp add: next_in_def)+
  define st2 where "st2 = (send_bytes frame (st\<lparr>bt_writes := tl (bt_writes st)\<rparr>))\<lparr>bt_reads := tl (bt_reads st)\<rparr>"
  define st3 where "st3 = (if i mod 256 = 0 then st2\<lparr>bt_warmup_done := bt_warmup_done st2 + 256\<rparr> else st2)"
  have loop: "warmup_loop frame (Suc k) i st = warmup_loop frame k (Suc i) st3"
    using n by (simp add: write_all_frame_def read_exact_response_def send_bytes_def st2_def st3_def PROGRESS_GRANULARITY_def)
  have "set (bt_writes st3) \<subseteq> {None}" "set (bt_reads st3) \<subseteq> {None}"
    using n by (simp_all add: st3_def st2_def send_bytes_def)
  note ih = Suc.IH [OF this, of "Suc i"]
  have done3: "bt_warmup_done st3 = bt_warmup_done st + (if i mod 256 = 0 then 256 else 0)"
    by (simp add: st3_def st2_def send_bytes_def)
  show ?case unfolding loop using ih done3 granules_Suc [of i] by (simp split: if_splits)
qed simp

lemma warmup_counter:
  assumes "set (bt_writes st) \<subseteq> {None}" and "set (bt_reads st) \<subseteq> {None}"
  shows "bt_warmup_done st + n \<le> bt_warmup_done (warmup frame n st)"
proof -
  have "n + 255 < Suc ((n + 255) div 256) * 256" by (rule dividend_less_times_div [of 256, THEN less_le_trans]) simp_all
  then have "n \<le> (n + 255) div 256 * 256" by simp
  then show ?thesis
    using warmup_loop_counter [OF assms, of frame n 0] by (simp add: warmup_def Let_def)
qed

subsection \<open>Percentiles\<close>

definition percentile_rank :: "(real \<Rightarrow> real) \<Rightarrow> nat \<Rightarrow> real \<Rightarrow> nat" where
  "percentile_rank rnd n p = min (nat \<lceil>rnd (rnd (rnd (real n) * p) / 100)\<rceil>) n"

lemma percentile_by_rank:
  "xs \<noteq> [] \<Longrightarrow> 0 < percentile_rank rnd (length xs) p \<Longrightarrow>
     percentile rnd xs p = Some (xs ! (percentile_rank rnd (length xs) p - 1))"
  by (simp add: percentile_def percentile_rank_def Let_def)

lemma percentile_rank_pos:
  assumes "f64_rounding rnd" and "0 < n" and "n \<le> 2 ^ 53" and "50 \<le> p"
  shows "0 < percentile_rank rnd n p"
proof -
  have m: "mono rnd" "rnd (real n) = real n" "rnd 50 = 50" "rnd (1 / 2) = 1 / 2"
    using assms(1,3) unfolding f64_rounding_def by (auto dest: spec [of _ 50])
  have "1 * 50 \<le> real n * p" using assms(2,4) by (intro mult_mono) auto
  then have "50 \<le> rnd (real n * p)" using monoD [OF m(1), of 50 "real n * p"] m(3) by simp
  then have "1 / 2 \<le> rnd (rnd (real n * p) / 100)" using monoD [OF m(1), of "1 / 2" "rnd (real n * p) / 100"] m(4) by simp
  then have "1 \<le> \<lceil>rnd (rnd (real n * p) / 100)\<rceil>" by linarith
  with assms(2) m(2) show ?thesis by (simp add: percentile_rank_def)
qed

lemma percentile_rank_mono:
  assumes "f64_rounding rnd" and "n \<le> 2 ^ 53" and "p \<le> q"
  shows "percentile_rank rnd n p \<le> percentile_rank rnd n q"
proof -
  have m: "mono rnd" "rnd (real n) = real n" using assms(1,2) by (auto simp: f64_rounding_def)
  have "rnd (real n * p) \<le> rnd (real n * q)" using assms(3) by (intro monoD [OF m(1)] mult_left_mono) auto
  then have "rnd (rnd (real n * p) / 100) \<le> rnd (rnd (real n * q) / 100)" by (intro monoD [OF m(1)]) simp
  then have "nat \<lceil>rnd (rnd (real n * p) / 100)\<rceil> \<le> nat \<lceil>rnd (rnd (real n * q) / 100)\<rceil>"
    by (intro nat_mono ceiling_mono)
  then show ?thesis unfolding percentile_rank_def m(2) by (intro min.mono order_refl)
qed

lemma percentiles_ordered:
  assumes "f64_rounding rnd" and "sorted xs" and "xs \<noteq> []" and "length xs \<le> 2 ^ 53" and "50 \<le> p" and "p \<le> q"
  shows "\<exists>a b. percentile rnd xs p = Some a \<and> percentile rnd xs q = Some b \<and> a \<in> set xs \<and> b \<in> set xs \<and> a \<le> b"
proof -
  let ?r = "percentile_rank rnd (length xs)"
  have pos: "0 < ?r p" "0 < ?r q" using assms by (auto intro!: percentile_rank_pos)
  have le: "?r p \<le> ?r q" "?r q \<le> length xs"
    using percentile_rank_mono [OF assms(1,4,6)] by (simp_all add: percentile_rank_def)
  with pos have "xs ! (?r p - 1) \<le> xs ! (?r q - 1)" by (intro sorted_nth_mono [OF assms(2)]) auto
  with pos le show ?thesis by (simp add: percentile_by_rank [OF assms(3)])
qed

lemma sorted_hd_last: "sorted xs \<Longrightarrow> x \<in> set xs \<Longrightarrow> hd xs \<le> x \<and> x \<le> last (xs :: 'a :: linorder list)"
  by (induction xs rule: rev_induct) (auto simp: sorted_append hd_append split: if_splits dest: hd_in_set)

lemma latency_table_ordered:
  assumes "f64_rounding rnd" and "sorted xs" and "length xs \<le> 2 ^ 53"
  shows "\<exists>t. latency_table rnd xs = Some t \<and> length t = 7 \<and> sorted t \<and> set t \<subseteq> (if xs = [] then {0} else set xs)"
proof (cases "xs = []")
  case True
  then show ?thesis by (simp add: latency_table_def percentile_def)
next
  case False
  note ord = percentiles_ordered [OF assms(1,2) False assms(3)]
  have "rnd (real 99) = real 99" "mono rnd" using assms(1) unfolding f64_rounding_def by (auto dest: spec [of _ 99])
  then have lit: "99 \<le> rnd (999 / 10)" using monoD [of rnd 99 "999 / 10"] by simp
  obtain a b c d e where p: "percentile rnd xs 50 = Some a" "percentile rnd xs 90 = Some b" "percentile rnd xs 95 = Some c"
    "percentile rnd xs 99 = Some d" "percentile rnd xs (rnd (999 / 10)) = Some e" "a \<le> b" "b \<le> c" "c \<le> d" "d \<le> e"
    "set [a, b, c, d, e] \<subseteq> set xs"
    using ord [of 50 90] ord [of 90 95] ord [of 95 99] ord [of 99 "rnd (999 / 10)"] lit by auto
  have "hd xs \<le> a" "e \<le> last xs" using sorted_hd_last [OF assms(2)] p(10) by simp_all
  with p False show ?thesis by (auto simp: latency_table_def)
qed

subsection \<open>Printed times\<close>

text \<open>The time that a printed text says, in nanoseconds.\<close>

definition read_time :: "string \<Rightarrow> real option" where
  "read_time s =
     (let num = takeWhile (\<lambda>c. c \<noteq> CHR '' '') s;
          unit = drop (Suc (length num)) s
      in if unit = ''ns'' then Some (read_fixed num)
         else if unit = micro_sign @ ''s'' then Some (1000 * read_fixed num)
         else if unit = ''ms'' then Some (1000000 * read_fixed num) else None)"

definition shown_ns :: "(real \<Rightarrow> real) \<Rightarrow> real \<Rightarrow> real" where
  "shown_ns rnd v =
     (if v < 1000 then v
      else if v < 1000000 then 1000 * read_fixed (show_fixed 1 (rnd (rnd v / 1000)))
      else 1000000 * read_fixed (show_fixed 2 (rnd (rnd v / 1000000))))"

lemma read_time_append:
  assumes "\<And>c. c \<in> set num \<Longrightarrow> c \<noteq> CHR '' ''"
  shows "takeWhile (\<lambda>c. c \<noteq> CHR '' '') (num @ CHR '' '' # unit) = num"
  using assms by (subst takeWhile_append2) auto

lemma read_fmt_ns: "read_time (fmt_ns rnd ns) = Some (shown_ns rnd (real (unat ns)))"
proof -
  have lt: "ns < 1000 \<longleftrightarrow> real (unat ns) < 1000" "ns < 1000000 \<longleftrightarrow> real (unat ns) < 1000000"
    by (simp_all add: word_less_nat_alt del: of_nat_unat)
  have n: "takeWhile (\<lambda>c. c \<noteq> CHR '' '') (show_nat m @ CHR '' '' # u) = show_nat m" for m u
    by (rule read_time_append) (simp add: show_nat_chars)
  have f: "takeWhile (\<lambda>c. c \<noteq> CHR '' '') (show_fixed p x @ CHR '' '' # u) = show_fixed p x" if "0 < p" for p x u
    by (rule read_time_append) (rule show_fixed_chars [OF that])
  show ?thesis
    by (simp add: fmt_ns_def shown_ns_def lt read_time_def n f read_show_nat micro_sign_def Let_def del: of_nat_unat)
qed

lemma f64_roundingD:
  assumes "f64_rounding rnd"
  shows "a \<le> b \<Longrightarrow> rnd a \<le> rnd b" and "k \<le> 2 ^ 53 \<Longrightarrow> rnd (real k) = real k"
    and "1 \<le> x \<Longrightarrow> x \<le> 2 ^ 64 \<Longrightarrow> \<bar>rnd x - x\<bar> \<le> x / 2 ^ 53"
  using assms by (auto simp: f64_rounding_def mono_def)

lemma f64_exact:
  assumes "f64_rounding rnd"
  shows "rnd 1 = 1" and "rnd 1000 = 1000" and "rnd 1000000 = 1000000"
  using f64_roundingD(2) [OF assms, of 1] f64_roundingD(2) [OF assms, of 1000] f64_roundingD(2) [OF assms, of 1000000] by simp_all

text \<open>The quotient of a time that reaches the unit is at least one, and two roundings keep it close.\<close>

lemma quotient_ge_1:
  assumes "f64_rounding rnd" and "rnd k = k" and "0 < k" and "k \<le> v"
  shows "1 \<le> rnd v / k" and "1 \<le> rnd (rnd v / k)"
proof -
  show q: "1 \<le> rnd v / k" using f64_roundingD(1) [OF assms(1,4)] assms(2,3) by (simp add: le_divide_eq)
  show "1 \<le> rnd (rnd v / k)" using f64_roundingD(1) [OF assms(1) q] f64_exact(1) [OF assms(1)] by simp
qed

lemma quotient_close:
  assumes "f64_rounding rnd" and "rnd k = k" and "2 \<le> k" and "k \<le> v" and "v \<le> 2 ^ 64"
  shows "\<bar>rnd (rnd v / k) - v / k\<bar> \<le> v / k / 2 ^ 51"
proof -
  have v: "\<bar>rnd v - v\<bar> \<le> v / 2 ^ 53" using assms by (intro f64_roundingD(3)) auto
  moreover have "v / 2 ^ 53 \<le> v" using assms(3,4) by simp
  ultimately have up: "rnd v \<le> 2 * v" by linarith
  have q1: "1 \<le> rnd v / k" using quotient_ge_1(1) [OF assms(1,2) _ assms(4)] assms(3) by simp
  have q2: "rnd v / k \<le> 2 * v / k" using up assms(3) by (intro divide_right_mono) auto
  have "2 * v / k \<le> v" using assms(3,4) by (simp add: divide_le_eq mult.commute mult_left_mono)
  with q2 assms(5) have "rnd v / k \<le> 2 ^ 64" by linarith
  then have "\<bar>rnd (rnd v / k) - rnd v / k\<bar> \<le> rnd v / k / 2 ^ 53" by (rule f64_roundingD(3) [OF assms(1) q1])
  also have "\<dots> \<le> 2 * v / k / 2 ^ 53" using q2 by (rule divide_right_mono) simp
  finally have a: "\<bar>rnd (rnd v / k) - rnd v / k\<bar> \<le> v / k / 2 ^ 52" by simp
  have "\<bar>rnd v / k - v / k\<bar> = \<bar>rnd v - v\<bar> / k" using assms(3) by (simp add: abs_divide flip: diff_divide_distrib)
  also have "\<dots> \<le> v / 2 ^ 53 / k" using v assms(3) by (intro divide_right_mono) auto
  finally have b: "\<bar>rnd v / k - v / k\<bar> \<le> v / k / 2 ^ 53" by (simp add: mult.commute)
  have "0 \<le> v / k" using assms(3,4) by simp
  with a b show ?thesis unfolding abs_le_iff by simp
qed

text \<open>A longer time is never shown as a shorter one, and what is shown is within half of the last decimal.\<close>

lemma shown_ns_mono:
  assumes rnd: "f64_rounding rnd" and le: "v \<le> w"
  shows "shown_ns rnd v \<le> shown_ns rnd w"
proof -
  note m = f64_roundingD(1) [OF rnd] and e = f64_exact [OF rnd]
  have q: "rnd (rnd v / k) \<le> rnd (rnd w / k)" if "0 < k" for k
    using that le by (intro m divide_right_mono) auto
  have one: "1 \<le> read_fixed (show_fixed p (rnd (rnd x / k)))" if "k \<le> x" "rnd k = k" "0 < k" "0 < p" for x k p
    using read_show_fixed_mono [of 1 "rnd (rnd x / k)" p] quotient_ge_1(2) [OF rnd that(2,3,1)]
      read_show_fixed_of_nat [of p 1] that(4) by simp
  have top: "read_fixed (show_fixed 1 (rnd (rnd v / 1000))) \<le> 1000" if "1000 \<le> v" "v \<le> 1000000"
  proof -
    have "rnd (rnd v / 1000) \<le> real 1000" using m [of "rnd v / 1000" 1000] m [OF that(2)] e by simp
    then show ?thesis
      using read_show_fixed_mono [of "rnd (rnd v / 1000)" "real 1000" 1] read_show_fixed_of_nat [of 1 1000]
        quotient_ge_1(2) [OF rnd e(2) _ that(1)] by simp
  qed
  have mono: "read_fixed (show_fixed p (rnd (rnd v / k))) \<le> read_fixed (show_fixed p (rnd (rnd w / k)))"
    if "k \<le> v" "rnd k = k" "0 < k" "0 < p" for k p
    using quotient_ge_1(2) [OF rnd that(2,3,1)] q [OF that(3)] that(4) by (intro read_show_fixed_mono) auto
  show ?thesis
    using le top mono [of 1000 1] mono [of 1000000 2] one [of 1000 w 1] one [of 1000000 w 2] e by (auto simp: shown_ns_def)
qed

definition time_tolerance :: "real \<Rightarrow> real" where
  "time_tolerance v = (if v < 1000 then 0 else if v < 1000000 then 50 else 5000) + v / 2 ^ 51"

lemma shown_ns_close:
  assumes rnd: "f64_rounding rnd" and v: "0 \<le> v" "v \<le> 2 ^ 64"
  shows "\<bar>shown_ns rnd v - v\<bar> \<le> time_tolerance v"
proof -
  have close: "\<bar>k * read_fixed (show_fixed p (rnd (rnd v / k))) - v\<bar> \<le> k / (2 * 10 ^ p) + v / 2 ^ 51"
    if k: "k \<le> v" "rnd k = k" "2 \<le> k" "0 < p" for k p
  proof -
    let ?q = "rnd (rnd v / k)" let ?s = "read_fixed (show_fixed p ?q)"
    have "\<bar>?s - ?q\<bar> \<le> 1 / (2 * 10 ^ p)"
      using quotient_ge_1(2) [OF rnd k(2) _ k(1)] k(3,4) by (intro read_show_fixed_error) auto
    with quotient_close [OF rnd k(2,3,1) v(2)] have "\<bar>?s - v / k\<bar> \<le> 1 / (2 * 10 ^ p) + v / k / 2 ^ 51" by linarith
    then have "k * \<bar>?s - v / k\<bar> \<le> k * (1 / (2 * 10 ^ p) + v / k / 2 ^ 51)" using k(3) by (intro mult_left_mono) auto
    moreover have "k * \<bar>?s - v / k\<bar> = \<bar>k * ?s - v\<bar>" using k(3) by (simp add: abs_mult_pos' right_diff_distrib)
    moreover have "k * (1 / (2 * 10 ^ p) + v / k / 2 ^ 51) = k / (2 * 10 ^ p) + v / 2 ^ 51" using k(3) by (simp add: distrib_left)
    ultimately show ?thesis by simp
  qed
  show ?thesis
    using close [of 1000 1] close [of 1000000 2] f64_exact [OF rnd] v(1) by (auto simp: shown_ns_def time_tolerance_def)
qed

text \<open>
  C33: the printed latencies. For the sorted latencies of a run, also when there are none, the table of minimum,
  percentiles and maximum is printed without a panic: seven labelled lines with values that are latencies
  of the run, in ascending order. Read back with their units, the printed times are in ascending order too, and each is
  the time it stands for up to half of its last decimal, which is 50 ns for times printed in microseconds and 5000 ns for
  milliseconds, and a relative error of \<open>2 ^ - 51\<close>. This holds for any rounding of the products and quotients that
  keeps order, exact numbers and the relative error of \<^verbatim>\<open>f64\<close>, and for at most \<open>2 ^ 53\<close> latencies.
\<close>

theorem printed_latencies_ordered:
  assumes "f64_rounding rnd" and "sorted (br_latencies rep)" and "length (br_latencies rep) \<le> 2 ^ 53"
  shows "\<exists>t texts times. latency_table rnd (br_latencies rep) = Some t \<and> length t = 7 \<and> sorted t
     \<and> set t \<subseteq> (if br_latencies rep = [] then {0} else set (br_latencies rep))
     \<and> print_latencies rnd rep = Some (map2 (@) latency_labels texts)
     \<and> map read_time texts = map Some times \<and> sorted times
     \<and> list_all2 (\<lambda>x ns. \<bar>x - real (unat ns)\<bar> \<le> time_tolerance (real (unat ns))) times t"
proof -
  from latency_table_ordered [OF assms] obtain t where
    t: "latency_table rnd (br_latencies rep) = Some t" "length t = 7" "sorted t"
    "set t \<subseteq> (if br_latencies rep = [] then {0} else set (br_latencies rep))" by blast
  define times where "times = map (\<lambda>ns. shown_ns rnd (real (unat ns))) t"
  have "print_latencies rnd rep = Some (map2 (@) latency_labels (map (fmt_ns rnd) t))"
    using t(1) by (simp add: print_latencies_def)
  moreover have "map read_time (map (fmt_ns rnd) t) = map Some times"
    unfolding times_def map_map comp_def read_fmt_ns ..
  moreover have "real (unat x) \<le> real (unat y)" if "x \<le> y" for x y :: u64
    using that by (simp add: word_le_nat_alt del: of_nat_unat)
  then have "sorted times" unfolding times_def using t(3) shown_ns_mono [OF assms(1)]
    by (auto simp: sorted_map simp del: of_nat_unat intro: sorted_wrt_mono_rel [of _ "(\<le>)"])
  moreover have "real (unat ns) \<le> 2 ^ 64" for ns :: u64
  proof -
    have "unat ns \<le> 2 ^ 64" using unsigned_less [of ns, where 'a = nat] by simp
    then show ?thesis by (metis of_nat_le_numeral_power_cancel_iff)
  qed
  then have "list_all2 (\<lambda>x ns. \<bar>x - real (unat ns)\<bar> \<le> time_tolerance (real (unat ns))) times t"
    unfolding times_def using shown_ns_close [OF assms(1)] by (simp add: list_all2_map1 list_all2_same del: of_nat_unat)
  ultimately show ?thesis using t by blast
qed

text \<open>The text of one time in each unit, with a tie and with a rounding up to the next unit.\<close>

lemma fmt_ns_samples:
  "fmt_ns id 999 = ''999 ns''" "fmt_ns id 1250 = ''1.2 '' @ micro_sign @ ''s''" "fmt_ns id 999999 = ''1000.0 '' @ micro_sign @ ''s''"
  "fmt_ns id 20300000 = ''20.30 ms''"
  by (simp_all add: fmt_ns_def show_fixed_def round_half_even_def show_nat_def show_base.simps digit_char_def char_of_def bit_simps)

theorem printed_latencies_ordered_witness:
  "\<exists>texts times. print_latencies id \<lparr>br_total = 3, br_successful = 3, br_errors = 0, br_wall_ns = 1, br_latencies = [3, 5, 9000]\<rparr>
     = Some (map2 (@) latency_labels texts) \<and> map read_time texts = map Some times \<and> sorted times"
proof -
  have "f64_rounding id" by (simp add: f64_rounding_def mono_def)
  from printed_latencies_ordered [OF this, of "\<lparr>br_total = 3, br_successful = 3, br_errors = 0, br_wall_ns = 1, br_latencies = [3, 5, 9000]\<rparr>"]
  show ?thesis by auto
qed

end
