(* ===== verification/Spec2Isabelle.thy ===== *)
theory Spec2Isabelle
  imports Startup Aof_Liveness Spsc_Relaxed Life Flush_Race Unit_Tests_Files Bench
begin

text \<open>
  A verification of the event store in this repository: a TCP server that keeps, per 32-bit user id,
  the most recent records of 17 bytes in a ring buffer in memory, makes them durable with an
  append-only log and fork snapshots, and evicts users that were not written for a time to live.

  \<^bold>\<open>The parts of the program and how they interact.\<close>
  One thread runs the event loop (\<^verbatim>\<open>src/event_loop.rs\<close>). It owns the connections
  (\<^verbatim>\<open>src/connection.rs\<close>), the store (\<^verbatim>\<open>src/store.rs\<close>, \<^verbatim>\<open>src/ring_buffer.rs\<close>,
  \<^verbatim>\<open>src/memory_pool.rs\<close>), the log writer (\<^verbatim>\<open>src/aof.rs\<close>) and the snapshot manager
  (\<^verbatim>\<open>src/snapshot.rs\<close>), and runs the three commands (\<^verbatim>\<open>src/commands.rs\<close>). A second thread
  flushes the ring of the log to the file; a third, the TTL worker (\<^verbatim>\<open>src/ttl.rs\<close>), receives
  samples of (user, last write) through one lock-free queue (\<^verbatim>\<open>src/spsc.rs\<close>) and returns the
  expired ones through another. At startup \<^verbatim>\<open>src/main.rs\<close> reads the configuration, builds the
  parts and lets \<^verbatim>\<open>src/recovery.rs\<close> load the snapshot and replay the log into the store. A second
  program, \<^verbatim>\<open>src/bin/bench.rs\<close>, is a client that sends PUSH requests and measures their latency.

  \<^bold>\<open>Theories.\<close>
  \<^item> \<open>Prelude\<close>: the integer types, little-endian codecs behind the locale \<open>fixed_codec\<close>, slices, the
    arithmetic of ring positions. \<open>Constants\<close>: \<^verbatim>\<open>src/constants.rs\<close> and \<^verbatim>\<open>build.rs\<close>.
    \<open>Error\<close>: \<^verbatim>\<open>src/error.rs\<close>. \<open>Config\<close>: \<^verbatim>\<open>src/config.rs\<close>, with the TOML parser as a
    parameter. \<open>Error_Text\<close>: the texts of the errors. \<open>Float_Text\<close>: numbers printed with decimals. \<open>Buf_Writer\<close>: the
    buffered writer of the standard library through which a snapshot is written.
  \<^item> \<open>Record_Wire\<close>: \<^verbatim>\<open>src/record.rs\<close>, a record and its 17 bytes. \<open>Memory\<close>: the process memory as a
    map from addresses to bytes, with the raw reads and writes the unsafe code does.
  \<^item> \<open>Ring_Buffer\<close>: \<^verbatim>\<open>src/ring_buffer.rs\<close> over that memory; its contents, newest first, satisfy
    the locale \<open>recent_history\<close>. \<open>Memory_Pool\<close>: \<^verbatim>\<open>src/memory_pool.rs\<close>, the intrusive free list;
    its contract is the locale \<open>slot_allocator\<close>, also met by the slab of \<open>Store_Alloc\<close>
    (\<^verbatim>\<open>StoreAlloc\<close> in \<^verbatim>\<open>src/store.rs\<close>).
  \<^item> \<open>Event_Log\<close>: the specification. A map from users to histories, the logged operations PUSH and
    DEL, evictions, and the locale \<open>event_store\<close> of stores that implement them.
    \<open>Store\<close>: \<^verbatim>\<open>src/store.rs\<close>; \<open>store_view\<close> abstracts a store to the specification, and the
    interpretation \<open>es\<close> is the refinement.
  \<^item> \<open>Spsc\<close>: \<^verbatim>\<open>src/spsc.rs\<close> as a sequential queue (locale \<open>bounded_queue\<close>);
    \<open>Spsc_Concurrent\<close>: the same queue as a step relation with one atomic access per step.
  \<^item> \<open>Ra_Memory\<close>: a memory with relaxed, acquire and release accesses to the two counters of a ring and
    unsynchronised accesses to its cells. Every store of a counter stays readable until the reader
    knows of a later one; an access to a cell by a thread that does not know of the last conflicting
    access is a race. \<open>Spsc_Relaxed\<close> and \<open>Aof_Relaxed\<close>: the queue and the log ring on this memory,
    with the orderings the code asks for.
  \<^item> \<open>Connection\<close>: the buffers, header checks and fixed responses; \<open>Conn_Io\<close>: the read and write
    loops of \<^verbatim>\<open>handle_read\<close> and \<^verbatim>\<open>handle_write\<close> against a socket whose answers (short reads,
    \<^verbatim>\<open>EAGAIN\<close>, errors, end of file) are arbitrary.
  \<^item> \<open>Aof\<close>: \<^verbatim>\<open>src/aof.rs\<close> with its ring, failing and short writes and the locale \<open>byte_log\<close>;
    \<open>Aof_Concurrent\<close>: the ring with the event loop and the flush thread interleaved;
    \<open>Aof_Liveness\<close>: its infinite executions under a fair scheduler; \<open>Flush_Race\<close>: \<^verbatim>\<open>flush_sync\<close> beside the
    flush thread.
  \<^item> \<open>Commands\<close>, \<open>Snapshot\<close>, \<open>Recovery\<close>, \<open>Ttl\<close>: the files of these names.
    \<open>Event_Loop\<close>: \<^verbatim>\<open>src/event_loop.rs\<close>, every handler and one round of \<^verbatim>\<open>run\<close>.
    \<open>System\<close>: rounds of the loop, flushes, batches of the worker and the signal in any order.
    \<open>Crash\<close>: what a new process recovers when the old one was killed. \<open>Life\<close>: the server with its files,
    its forked snapshot children and a clock that does not go back, until the power is lost.
    \<open>Startup\<close>: \<^verbatim>\<open>src/main.rs\<close>, \<^verbatim>\<open>src/time.rs\<close>, the listening socket and the signal handlers,
    with every way startup can end. \<open>Bench\<close>: \<^verbatim>\<open>src/bin/bench.rs\<close>, with the outcomes of its socket calls as scripts and
    the rounding of floating-point numbers as a parameter.
  \<^item> \<open>Unit_Tests\<close> and \<open>Unit_Tests_Files\<close>: the unit tests of all files as Boolean functions of what the
    environment chooses, each proved to pass in every environment that gives it its files, its memory and,
    for five of them, a capacity of at least two or three records.

  \<^bold>\<open>How state and operations correspond.\<close>
  A struct is a record with the same fields, an enum a datatype; integers keep their width as words
  wherever they wrap. A panic is a value: \<open>Inl\<close>, \<open>None\<close> or \<open>Crashed\<close>, as each definition says. System
  calls, the clock, the order of a hash map, the contents of fresh memory and the parser of the
  configuration file are arguments. Loops on sockets and on the log terminate by a measure and are
  total functions; the only waiting in the program, for room in the log ring, is the outcome
  \<open>Blocked\<close>, and \<open>with_flush_thread\<close> lets the flush thread make one pass before the call is repeated,
  which is proved to be enough. Rounds of the loop and of the two other threads that run until a
  flag is cleared take their number or their clock readings as arguments, and the theorems hold for
  every such number.

  \<^bold>\<open>What the theorems show.\<close>
  The store implements the specification for every sequence of operations and panics exactly when a
  new key finds no slot; slots never overlap and a push stays within its own. A request is
  recognised however the network cuts it, in a bounded number of system calls; PUSH, GET and DEL are
  correct from socket to response, and the handlers keep the invariant of the whole loop. Log and
  store change by the same operations in the same order. In every interleaving that the memory
  orderings allow, the event loop and the flush thread never race on a cell and the file is a prefix of
  the log, and likewise the queue is free of races and first-in first-out; with a relaxed load of the
  head this would fail (\<open>orderings_matter\<close>). In every fair execution each entry reaches the file and
  waiting for room ends. Snapshots round-trip and are replaced atomically. Recovery rebuilds the
  snapshot and the later operations, also from a log cut at any byte; a snapshot changes the outcome only for users
  that were evicted before it. Recovery panics exactly when the keys of snapshot and log, evicted ones
  included, need more slots than there are; the other theorems on recovery assume the slots. The theorems of \<open>System\<close> join
  these: the store is the run of the events of the server, no key is evicted before its time, and a
  new process recovers the store of the old one. The theorem of \<open>Life\<close> drops the
  shutdown and the choice of a single snapshot: after any life of the server, with any number of
  snapshots written or failed, a power loss leaves files from which the state after a first part of the
  events and a prefix of the later operations come back, with everything that was synced; nothing is
  lost in mode \<open>always\<close>. It needs a slot for every user in the log, and the snapshot that is found to come
  from a dump without a failed write. That of \<open>Crash\<close> is on the memory with the orderings of the code: after a kill
  at any instruction, with the entries of earlier processes and with or without a snapshot, at most the last bytes of the
  log, as many as the ring holds, are missing.
  Those of \<open>Startup\<close> start the run from
  whatever files the process finds and end it by a signal. Client and server agree on the frames,
  and the report of the client accounts for every request, in pipelined mode only without errors; the
  latencies it prints are in order and right to half of the last decimal.
  Other theorems record where the code falls short: a failed write of the log drops entries, a
  failed write of a full snapshot buffer goes unnoticed and damages the snapshot, a full store brings the server down with the fatal entry already
  logged, evictions, which are not logged, can make a log unreplayable, one leftover byte of a truncated last
  entry makes a PUSH after it and up to 4333 more bytes unreadable, and \<^verbatim>\<open>flush_sync\<close> on a running writer can write entries twice.

  \<^bold>\<open>What is not modelled.\<close>
  The answers of \<^verbatim>\<open>setsockopt\<close> and \<^verbatim>\<open>listen\<close>, which the code ignores; the module list of
  \<^verbatim>\<open>src/lib.rs\<close>; what \<^verbatim>\<open>src/bin/bench.rs\<close> prints besides its latencies. Log messages are kept
  only where a write fails. The two theorems on fair executions interleave single atomic accesses
  of a sequentially consistent memory; that a store becomes visible to the other thread in finite
  time is part of what they assume of the scheduler. The unit tests are
  transcribed with the TOML text of a configuration replaced by the table it denotes, and with the
  flush thread running whole rounds between the operations of a test. The writes of the flush thread to the
  log file succeed in \<open>Aof_Concurrent\<close>, \<open>Aof_Relaxed\<close>, \<open>System\<close> and the theories on them; \<open>Aof\<close> treats
  their failures. A snapshot damaged by a failed write is possible in \<open>Life\<close> (\<open>lf_snaps\<close> marks it), but
  what a process recovers from it is not shown beyond the general \<open>recovery_robust\<close>.
\<close>

end
